(* ===== verification/Prelude.thy ===== *)
theory Prelude
  imports Main "HOL-Library.Word" "HOL-Library.AList"
begin

text \<open>
  What the component theories share: the machine integers of the code, the fault
  values that stand for an undefined behaviour, an abort or an endless wait of the C and
  C++ code, the sequencing of computations that may fault, C strings as byte lists, and
  generic lemmas on lists and association lists.
\<close>

section \<open>Types\<close>

type_synonym byte = char
type_synonym u8 = "8 word"
type_synonym u16 = "16 word"
type_synonym u32 = "32 word"
type_synonym u64 = "64 word"

text \<open>
  Everything a statement of the program can do other than complete. Each constructor
  names the defect at the statement: a C or C++ program that reaches it has no defined
  continuation (or, for \<open>AssertFail\<close>, \<open>ProcessExit\<close>, \<open>Blocked\<close> and
  \<open>Spins\<close>, does not continue).
\<close>

datatype fault =
    NullDeref
  | OutOfBounds
  | UseAfterFree
  | DanglingIterator
  | EndDeref
  | EmptyContainer
  | BadFree
  | Uninitialised
  | AssertFail
  | ProcessExit
  | Blocked
  | Spins
  | IntOverflow

type_synonym 'a res = "fault + 'a"

definition bnd :: "'a res \<Rightarrow> ('a \<Rightarrow> 'b res) \<Rightarrow> 'b res" where
  "bnd m f = (case m of Inl e \<Rightarrow> Inl e | Inr x \<Rightarrow> f x)"

lemma bnd_simps [simp]:
  "bnd (Inl e) f = Inl e"
  "bnd (Inr x) f = f x"
  by (simp_all add: bnd_def)

lemma bnd_eq_Inr: "bnd m f = Inr y \<longleftrightarrow> (\<exists>x. m = Inr x \<and> f x = Inr y)"
  by (cases m) simp_all

lemma bnd_eq_Inl: "bnd m f = Inl e \<longleftrightarrow> m = Inl e \<or> (\<exists>x. m = Inr x \<and> f x = Inl e)"
  by (cases m) simp_all

named_theorems model_defs \<open>definitions of straight-line operations, for unfolding\<close>
named_theorems inv_intros \<open>an operation keeps its component's invariant\<close>

section \<open>C strings\<close>

abbreviation NUL :: byte where "NUL \<equiv> CHR 0x00"
abbreviation CR :: byte where "CR \<equiv> CHR 0x0D"
abbreviation LF :: byte where "LF \<equiv> CHR 0x0A"

text \<open>
  \<open>until_nul s\<close> is the C string that starts a memory region \<open>s\<close>; \<open>cstr s\<close> is the same
  where a terminator exists inside the region and \<open>None\<close> where \<open>strlen\<close> would run
  off its end.
\<close>

definition until_nul :: "byte list \<Rightarrow> byte list" where
  "until_nul s = takeWhile (\<lambda>c. c \<noteq> NUL) s"

definition cstr :: "byte list \<Rightarrow> byte list option" where
  "cstr s = (if NUL \<in> set s then Some (until_nul s) else None)"

definition no_nul :: "byte list \<Rightarrow> bool" where
  "no_nul s \<longleftrightarrow> NUL \<notin> set s"

lemma no_nul_simps [simp]:
  "no_nul []"
  "no_nul (c # s) \<longleftrightarrow> c \<noteq> NUL \<and> no_nul s"
  "no_nul (s @ t) \<longleftrightarrow> no_nul s \<and> no_nul t"
  by (auto simp: no_nul_def)

lemma until_nul_no_nul [simp]: "no_nul (until_nul s)"
  by (auto simp: no_nul_def until_nul_def dest: set_takeWhileD)

lemma until_nul_append: "no_nul s \<Longrightarrow> until_nul (s @ t) = s @ until_nul t"
  by (auto simp: no_nul_def until_nul_def takeWhile_append)

lemma until_nul_id [simp]: "no_nul s \<Longrightarrow> until_nul s = s"
  by (auto simp: no_nul_def until_nul_def takeWhile_eq_all_conv)

lemma until_nul_simps [simp]:
  "until_nul [] = []"
  "until_nul (NUL # s) = []"
  "c \<noteq> NUL \<Longrightarrow> until_nul (c # s) = c # until_nul s"
  by (simp_all add: until_nul_def)

lemma until_nul_terminated [simp]: "no_nul s \<Longrightarrow> until_nul (s @ NUL # t) = s"
  by (simp add: until_nul_append)

lemma cstr_append: "no_nul s \<Longrightarrow> NUL \<in> set t \<Longrightarrow> cstr (s @ t) = Some (s @ until_nul t)"
  by (simp add: cstr_def until_nul_append)

lemma cstr_terminated [simp]: "no_nul s \<Longrightarrow> cstr (s @ NUL # t) = Some s"
  by (simp add: cstr_def)

section \<open>Lists\<close>

lemma slice_mid [simp]:
  "length xs = n \<Longrightarrow> take (length ys) (drop n (xs @ ys @ zs)) = ys"
  by auto

lemma last_in_butlast_append: "xs \<noteq> [] \<Longrightarrow> xs = butlast xs @ [last xs]"
  by simp

lemma map_butlast_snd: "map f (butlast xs) = butlast (map f xs)"
  by (simp add: map_butlast)

lemma distinct_butlast_last: "distinct xs \<Longrightarrow> xs \<noteq> [] \<Longrightarrow> last xs \<notin> set (butlast xs)"
  by (metis append_butlast_last_id distinct_butlast not_distinct_conv_prefix)

lemma remdups_append_filter:
  "remdups (xs @ ys) = filter (\<lambda>x. x \<notin> set ys) (remdups xs) @ remdups ys"
  by (induction xs) auto

lemma remdups_remdups_append [simp]: "remdups (remdups xs @ ys) = remdups (xs @ ys)"
  by (simp add: remdups_append_filter distinct_remdups_id)

lemma rev_promote: "distinct xs \<Longrightarrow> rev (k # remove1 k xs) = remdups (rev xs @ [k])"
  by (simp add: remdups_append_filter distinct_remove1_removeAll removeAll_filter_not_eq
      rev_filter distinct_remdups_id eq_commute [of k])

lemma option_ex_simp: "(\<exists>y. x = Some y) \<longleftrightarrow> x \<noteq> None"
  by (cases x) auto

section \<open>Casts between words\<close>

text \<open>Truncating a sum is the sum of the truncations.\<close>

lemma ucast_down_add:
  fixes a b :: "'a::len word"
  assumes "LENGTH('b::len) \<le> LENGTH('a)"
  shows "(ucast (a + b) :: 'b word) = ucast a + ucast b"
  using assms by transfer (metis min.absorb1 take_bit_add take_bit_take_bit)

lemma ucast_scast_id:
  fixes a :: "'b::len word"
  assumes "LENGTH('b) \<le> LENGTH('a::len)"
  shows "(ucast (scast a :: 'a word) :: 'b word) = a"
  using assms by transfer (simp add: take_bit_signed_take_bit)

lemma sint_small_nat: "n < 2 ^ 31 \<Longrightarrow> sint (word_of_nat n :: 32 word) = int n"
  by (simp add: signed_of_nat signed_take_bit_int_eq_self)

lemma sum_list_update_nat:
  "i < length xs \<Longrightarrow> sum_list (xs[i := (x::nat)]) + xs ! i = sum_list xs + x"
  by (induction xs arbitrary: i) (auto simp: nth_Cons split: nat.splits)

end
