(* ===== verification/Util.thy ===== *)
theory Util
  imports Prelude
begin

text \<open>
  The string and object helpers of \<open>util.c\<close>: case-insensitive comparison, decimal
  parsing with overflow tests (\<open>string2ll\<close>), duplication of messages, construction of
  value objects, and the log filter. A pointer into memory is the list of the bytes that
  follow it, up to the end of the allocation.
\<close>

section \<open>Messages and objects\<close>

record msg =
  msg_len :: u32
  msg_buf :: "byte list"

datatype kv_loc = KV_LOC_MEM | KV_LOC_FLUSHING | KV_LOC_FLASH

text \<open>The numbers of the locations (\<open>server.h\<close>), in the order in which an entry moves on.\<close>

primrec loc_code :: "kv_loc \<Rightarrow> nat" where
  "loc_code KV_LOC_MEM = 0"
| "loc_code KV_LOC_FLUSHING = 1"
| "loc_code KV_LOC_FLASH = 2"

lemma loc_code_inject [simp]: "loc_code a = loc_code b \<longleftrightarrow> a = b"
  by (cases a; cases b) simp_all

instantiation kv_loc :: linorder
begin

definition less_eq_kv_loc :: "kv_loc \<Rightarrow> kv_loc \<Rightarrow> bool" where
  "less_eq_kv_loc a b \<longleftrightarrow> loc_code a \<le> loc_code b"

definition less_kv_loc :: "kv_loc \<Rightarrow> kv_loc \<Rightarrow> bool" where
  "less_kv_loc a b \<longleftrightarrow> loc_code a < loc_code b"

instance
proof
  fix a b :: kv_loc
  show "a \<le> b \<Longrightarrow> b \<le> a \<Longrightarrow> a = b"
    using loc_code_inject [of a b] by (simp add: less_eq_kv_loc_def)
qed (auto simp: less_eq_kv_loc_def less_kv_loc_def)

end


record kvObject =
  kv_where :: kv_loc
  refcount :: int
  readcount :: u32
  writecount :: u32
  ptr :: msg

definition sizeof_kvObject :: nat where
  "sizeof_kvObject = 24"

definition sizeof_msg :: nat where
  "sizeof_msg = 4"

text \<open>The size \<open>createObject\<close> asks \<open>chmalloc\<close> for.\<close>

definition object_bytes :: "nat \<Rightarrow> nat" where
  "object_bytes n = sizeof_kvObject + sizeof_msg + n + 1"

definition createObject :: "byte list option \<Rightarrow> nat \<Rightarrow> kvObject res" where
  "createObject p n =
     bnd (case p of
            Some mem \<Rightarrow> if n \<le> length mem then Inr (take n mem @ [NUL]) else Inl OutOfBounds
          | None \<Rightarrow> Inr (replicate (n + 1) NUL))
       (\<lambda>bytes. Inr \<lparr>kv_where = KV_LOC_MEM, refcount = 1, readcount = 0, writecount = 0,
          ptr = \<lparr>msg_len = word_of_nat n, msg_buf = bytes\<rparr>\<rparr>)"

definition msgdup :: "msg \<Rightarrow> byte list" where
  "msgdup s = take (unat (msg_len s)) (msg_buf s) @ [NUL]"

section \<open>Comparison\<close>

definition tolower :: "byte \<Rightarrow> byte" where
  "tolower c = (if 65 \<le> (of_char c :: nat) \<and> (of_char c :: nat) \<le> 90
     then char_of (of_char c + 32 :: nat) else c)"

definition strcasecmp_eq :: "byte list \<Rightarrow> byte list \<Rightarrow> bool" where
  "strcasecmp_eq s t \<longleftrightarrow> map tolower (until_nul s) = map tolower (until_nul t)"

definition msgcmp :: "msg \<Rightarrow> byte list \<Rightarrow> bool" where
  "msgcmp s dest \<longleftrightarrow> strcasecmp_eq (msg_buf s) dest"

section \<open>Decimal numbers\<close>

definition is_digit :: "byte \<Rightarrow> bool" where
  "is_digit c \<longleftrightarrow> 48 \<le> (of_char c :: nat) \<and> (of_char c :: nat) \<le> 57"

definition digit_val :: "byte \<Rightarrow> nat" where
  "digit_val c = of_char c - 48"

definition ULLONG_MAX :: u64 where
  "ULLONG_MAX = - 1"

text \<open>
  The loop of \<open>string2ll\<close>: \<open>v\<close> the value so far, \<open>p\<close> the memory from the current
  position, \<open>left\<close> the characters still allowed. \<open>None\<close> is the return value 0.
\<close>

fun string2ll_loop :: "u64 \<Rightarrow> byte list \<Rightarrow> nat \<Rightarrow> u64 option res" where
  "string2ll_loop v p 0 = Inr (Some v)"
| "string2ll_loop v [] (Suc left) = Inl OutOfBounds"
| "string2ll_loop v (c # cs) (Suc left) =
     (if \<not> is_digit c then Inr (Some v)
      else if v > ULLONG_MAX div 10 then Inr None
      else if v * 10 > ULLONG_MAX - of_nat (digit_val c) then Inr None
      else string2ll_loop (v * 10 + of_nat (digit_val c)) cs left)"

text \<open>
  The last statement of the function stores the unsigned number into a \<open>long long\<close>, which keeps
  its 64 bits and reads them as a signed number.
\<close>

definition to_longlong :: "u64 option \<Rightarrow> int option" where
  "to_longlong = map_option sint"

definition string2ll :: "byte list \<Rightarrow> nat \<Rightarrow> int option res" where
  "string2ll s slen =
     (if slen = 0 then Inr None
      else
        (case s of
           [] \<Rightarrow> Inl OutOfBounds
         | c # cs \<Rightarrow>
             (if 49 \<le> (of_char c :: nat) \<and> (of_char c :: nat) \<le> 57
              then bnd (string2ll_loop (of_nat (digit_val c)) cs (slen - 1)) (\<lambda>r. Inr (to_longlong r))
              else if (of_char c :: nat) = 48 \<and> slen = 1 then Inr (Some 0)
              else Inr None)))"

text \<open>The decimal numeral \<open>printf\<close> prints for a non-negative number, and its value.\<close>

fun dec :: "nat \<Rightarrow> byte list" where
  "dec n = (if n < 10 then [char_of (48 + n)] else dec (n div 10) @ [char_of (48 + n mod 10)])"

declare dec.simps [simp del]

definition dec_int :: "int \<Rightarrow> byte list" where
  "dec_int i = (if i < 0 then CHR ''-'' # dec (nat (- i)) else dec (nat i))"

definition dec_value :: "byte list \<Rightarrow> nat" where
  "dec_value ds = foldl (\<lambda>a c. 10 * a + digit_val c) 0 ds"

text \<open>
  \<open>atoi\<close>: white space, a sign, digits; \<open>strtol\<close> saturates at 64 bits and the result is
  truncated to \<open>int\<close>.
\<close>

definition is_space :: "byte \<Rightarrow> bool" where
  "is_space c \<longleftrightarrow> c = CHR '' '' \<or> (9 \<le> (of_char c :: nat) \<and> (of_char c :: nat) \<le> 13)"

definition c_atoi :: "byte list \<Rightarrow> u32" where
  "c_atoi s =
     (let t = dropWhile is_space s;
          neg = (t \<noteq> [] \<and> hd t = CHR ''-'');
          u = (if t \<noteq> [] \<and> (hd t = CHR ''-'' \<or> hd t = CHR ''+'') then tl t else t);
          n = int (dec_value (takeWhile is_digit u));
          v = (if neg then max (- (2 ^ 63)) (- n) else min (2 ^ 63 - 1) n)
      in word_of_int v)"

section \<open>Paths and logging\<close>

text \<open>
  \<open>getAbsolutePath\<close>: \<open>filename\<close> without its terminator, \<open>cwd\<close> what \<open>getcwd\<close> gives.
  \<open>memcpy\<close> writes outside its destination when it copies more than the destination holds.
\<close>

definition getAbsolutePath :: "byte list \<Rightarrow> byte list option \<Rightarrow> byte list option res" where
  "getAbsolutePath filename cwd =
     (let l = length filename; relpath = filename in
      if l = 0 then Inl OutOfBounds
      else if hd relpath = CHR ''/'' then Inr (Some relpath)
      else
        (case cwd of
           None \<Rightarrow> Inr None
         | Some d \<Rightarrow>
             (if l < l + length d + 2 then Inl OutOfBounds
              else Inr (Some (d @ ''/'' @ relpath)))))"

definition chLog_prints :: "u32 \<Rightarrow> u32 \<Rightarrow> bool" where
  "chLog_prints level verbosity \<longleftrightarrow> \<not> take_bit 8 level < verbosity"

text \<open>
  \<open>chLog\<close> after the formatting of its message \<open>txt\<close> by \<open>vsnprintf\<close>, which cuts it to its buffer:
  the line that is written, if any. \<open>stamp\<close> is the process id with the time, \<open>fp_ok\<close> says that the
  stream is there; the result of \<open>fopen\<close> is not tested. The character of the level is taken from
  the four of \<open>"-*#"\<close> and its terminator.
\<close>

definition MAX_LOGMSG_LEN :: nat where
  "MAX_LOGMSG_LEN = 1024"

definition chLog :: "u32 \<Rightarrow> bool \<Rightarrow> byte list \<Rightarrow> u32 \<Rightarrow> byte list \<Rightarrow> byte list option res" where
  "chLog verbosity fp_ok stamp level txt =
     (if \<not> chLog_prints level verbosity then Inr None
      else if \<not> fp_ok then Inl NullDeref
      else if 4 \<le> unat level then Inl OutOfBounds
      else Inr (Some (''['' @ stamp @ ''] '' @ [(''-*#'' @ [NUL]) ! unat level, CHR '' ''] @
        take (MAX_LOGMSG_LEN - 1) txt @ [LF])))"

lemma chLog_levels:
  assumes "level = 0 \<or> level = 1 \<or> level = 2"
  shows "chLog verbosity True stamp level txt =
    Inr (if level < verbosity then None
      else Some (''['' @ stamp @ ''] '' @ [''-*#'' ! unat level, CHR '' ''] @ take 1023 txt @ [LF]))"
proof -
  have "take_bit 8 level = level"
    using assms by (auto simp: take_bit_eq_mod)
  then show ?thesis
    using assms by (auto simp: chLog_def chLog_prints_def MAX_LOGMSG_LEN_def word_less_nat_alt)
qed

section \<open>Lemmas\<close>

lemma createObject_Some:
  "n \<le> length mem \<Longrightarrow> createObject (Some mem) n = Inr \<lparr>kv_where = KV_LOC_MEM, refcount = 1,
     readcount = 0, writecount = 0,
     ptr = \<lparr>msg_len = word_of_nat n, msg_buf = take n mem @ [NUL]\<rparr>\<rparr>"
  by (simp add: createObject_def)

lemma digit_char [simp]: "n < 10 \<Longrightarrow> digit_val (char_of (48 + n)) = n"
  "n < 10 \<Longrightarrow> is_digit (char_of (48 + n))"
  by (simp_all add: digit_val_def is_digit_def)

lemma digit_val_bound: "is_digit c \<Longrightarrow> digit_val c < 10"
  by (auto simp: digit_val_def is_digit_def)

lemma dec_nonempty [simp]: "dec n \<noteq> []"
  by (subst dec.simps) simp

lemma dec_digits: "c \<in> set (dec n) \<Longrightarrow> is_digit c"
proof (induction n rule: dec.induct)
  case (1 n)
  then show ?case by (subst (asm) (2) dec.simps) (auto split: if_splits)
qed

lemma dec_value_append [simp]: "dec_value (ds @ [c]) = 10 * dec_value ds + digit_val c"
  by (simp add: dec_value_def)

lemma dec_value_dec [simp]: "dec_value (dec n) = n"
proof (induction n rule: dec.induct)
  case (1 n)
  show ?case
  proof (cases "n < 10")
    case True
    then show ?thesis by (subst dec.simps) (simp add: dec_value_def)
  next
    case False
    with 1 show ?thesis by (subst dec.simps) simp
  qed
qed

lemma dec_hd: "0 < n \<Longrightarrow> 49 \<le> (of_char (hd (dec n)) :: nat)"
proof (induction n rule: dec.induct)
  case (1 n)
  show ?case
  proof (cases "n < 10")
    case True
    with 1 show ?thesis by (subst dec.simps) simp
  next
    case False
    with 1 show ?thesis by (subst dec.simps) simp
  qed
qed

lemma is_digit_not_special [simp]: "\<not> is_digit CR" "\<not> is_digit LF" "\<not> is_digit NUL"
  by (simp_all add: is_digit_def)

lemma no_nul_dec [simp]: "no_nul (dec n)"
  by (auto simp: no_nul_def dest: dec_digits)

definition dec_from :: "nat \<Rightarrow> byte list \<Rightarrow> nat" where
  "dec_from v ds = foldl (\<lambda>a c. 10 * a + digit_val c) v ds"

lemma dec_from_simps [simp]:
  "dec_from v [] = v"
  "dec_from v (c # ds) = dec_from (10 * v + digit_val c) ds"
  by (simp_all add: dec_from_def)

lemma dec_from_ge: "v \<le> dec_from v ds"
proof (induction ds arbitrary: v)
  case (Cons c ds)
  from Cons.IH [of "10 * v + digit_val c"] show ?case by simp
qed simp

lemma unat_ULLONG_MAX [simp]: "unat ULLONG_MAX = 2 ^ 64 - 1"
  unfolding ULLONG_MAX_def by transfer (simp add: mask_eq_exp_minus_1)

text \<open>The two overflow tests of the loop decide whether the next value fits 64 bits.\<close>

lemma overflow_test_mult:
  "v < 2 ^ 64 \<Longrightarrow> (word_of_nat v > ULLONG_MAX div 10) = (2 ^ 64 \<le> 10 * v)"
  by (simp add: word_less_nat_alt unat_div unsigned_of_nat take_bit_nat_eq_self) linarith

lemma overflow_test_add:
  assumes "10 * v < 2 ^ 64" "d < 10"
  shows "((word_of_nat v :: u64) * 10 > ULLONG_MAX - of_nat d) = (2 ^ 64 \<le> 10 * v + d)"
proof -
  have "unat ((word_of_nat v :: u64) * 10) = 10 * v"
    using assms by (simp add: unat_word_ariths unsigned_of_nat take_bit_nat_eq_self)
  moreover have "(of_nat d :: u64) \<le> ULLONG_MAX" by (simp add: ULLONG_MAX_def)
  then have "unat (ULLONG_MAX - of_nat d) = 2 ^ 64 - 1 - d"
    using assms by (simp add: unat_sub unsigned_of_nat take_bit_nat_eq_self)
  ultimately show ?thesis using assms by (simp add: word_less_nat_alt) linarith
qed

lemma string2ll_loop_digits:
  assumes "\<forall>c \<in> set ds. is_digit c" and "v < 2 ^ 64"
    and "left = length ds \<or> (\<exists>c cs. rest = c # cs \<and> \<not> is_digit c \<and> length ds < left)"
  shows "string2ll_loop (of_nat v) (ds @ rest) left =
    Inr (if dec_from v ds < 2 ^ 64 then Some (of_nat (dec_from v ds)) else None)"
  using assms
proof (induction ds arbitrary: v left)
  case Nil
  then show ?case by (cases left) auto
next
  case (Cons c ds)
  obtain left' where left: "left = Suc left'" using Cons.prems by (cases left) auto
  have d: "is_digit c" "digit_val c < 10" using Cons.prems digit_val_bound by auto
  let ?v = "10 * v + digit_val c"
  show ?case
  proof (cases "?v < 2 ^ 64")
    case True
    have "string2ll_loop (of_nat v) ((c # ds) @ rest) left =
        string2ll_loop (of_nat ?v) (ds @ rest) left'"
      using True d Cons.prems(2) overflow_test_mult [of v] overflow_test_add [of v "digit_val c"]
      by (simp add: left mult.commute)
    also have "\<dots> = Inr (if dec_from ?v ds < 2 ^ 64 then Some (of_nat (dec_from ?v ds)) else None)"
      using Cons.prems True left by (intro Cons.IH) auto
    finally show ?thesis by simp
  next
    case False
    have "string2ll_loop (of_nat v) ((c # ds) @ rest) left = Inr None"
      using False d Cons.prems(2) overflow_test_mult [of v] overflow_test_add [of v "digit_val c"]
      by (cases "10 * v < 2 ^ 64") (simp_all add: left mult.commute)
    moreover have "\<not> dec_from v (c # ds) < 2 ^ 64"
      using False dec_from_ge [of ?v ds] by simp
    ultimately show ?thesis by simp
  qed
qed

text \<open>A 64-bit number read as a signed one.\<close>

lemma sint_of_nat64:
  assumes "n < 2 ^ 64"
  shows "sint (word_of_nat n :: u64) = (if n < 2 ^ 63 then int n else int n - 2 ^ 64)"
proof (cases "n < 2 ^ 63")
  case True
  then show ?thesis by (simp add: signed_of_nat signed_take_bit_int_eq_self)
next
  case False
  have "(word_of_int (int n - 2 ^ 64) :: u64) = word_of_int (int n)"
    by (simp add: word_of_int_eq_iff take_bit_eq_mod)
  then have "sint (word_of_nat n :: u64) = sint (word_of_int (int n - 2 ^ 64) :: u64)"
    by (metis of_int_of_nat_eq)
  also have "\<dots> = signed_take_bit 63 (int n - 2 ^ 64)" by (simp only: signed_of_int) simp
  also have "\<dots> = int n - 2 ^ 64"
    using assms False by (intro signed_take_bit_int_eq_self) simp_all
  finally show ?thesis using False by simp
qed

lemma string2ll_digits:
  assumes "ds \<noteq> []" "\<forall>c \<in> set ds. is_digit c" "hd ds \<noteq> CHR ''0''"
    and "slen = length ds \<or> (\<exists>c cs. rest = c # cs \<and> \<not> is_digit c \<and> length ds < slen)"
  shows "string2ll (ds @ rest) slen =
    Inr (if dec_value ds < 2 ^ 63 then Some (int (dec_value ds))
         else if dec_value ds < 2 ^ 64 then Some (int (dec_value ds) - 2 ^ 64) else None)"
proof -
  obtain c cs where ds: "ds = c # cs" using assms(1) by (cases ds) auto
  have "(of_char c :: nat) \<noteq> of_char (CHR ''0'')"
    using assms(3) ds by (simp only: of_char_eq_iff list.sel simp_thms)
  then have "(of_char c :: nat) \<noteq> 48" by simp
  then have c: "49 \<le> (of_char c :: nat)" "(of_char c :: nat) \<le> 57"
    using assms(2) ds by (auto simp: is_digit_def)
  then have "digit_val c < 2 ^ 64" by (simp add: digit_val_def)
  with assms ds have "string2ll_loop (of_nat (digit_val c)) (cs @ rest) (slen - 1) =
    Inr (if dec_from (digit_val c) cs < 2 ^ 64 then Some (of_nat (dec_from (digit_val c) cs)) else None)"
    by (intro string2ll_loop_digits) auto
  moreover have "dec_from (digit_val c) cs = dec_value ds"
    by (simp add: dec_from_def dec_value_def ds)
  ultimately show ?thesis
    using c ds assms(4) by (auto simp: string2ll_def to_longlong_def sint_of_nat64)
qed

lemma string2ll_dec:
  assumes "0 < n" "n < 2 ^ 63" "length (dec n) < slen" "\<not> is_digit c"
  shows "string2ll (dec n @ c # rest) slen = Inr (Some (int n))"
  using assms dec_hd [OF assms(1)]
  by (subst string2ll_digits) (auto dest: dec_digits)

lemma dec_inject [simp]: "dec m = dec n \<longleftrightarrow> m = n"
  by (metis dec_value_dec)

lemma dropWhile_space_dec: "dropWhile is_space (dec n @ s) = dec n @ s"
proof -
  obtain c cs where d: "dec n = c # cs" by (cases "dec n") auto
  then have "is_digit c" using dec_digits [of c n] by simp
  then have "\<not> is_space c" by (auto simp: is_digit_def is_space_def)
  with d show ?thesis by simp
qed

lemma takeWhile_digit_dec: "s = [] \<or> \<not> is_digit (hd s) \<Longrightarrow> takeWhile is_digit (dec n @ s) = dec n"
  by (subst takeWhile_append2) (auto dest: dec_digits simp: takeWhile_eq_Nil_iff)

lemma c_atoi_dec:
  assumes "n < 2 ^ 63" "s = [] \<or> \<not> is_digit (hd s)"
  shows "c_atoi (dec n @ s) = word_of_nat n"
proof -
  obtain c cs where d: "dec n = c # cs" by (cases "dec n") auto
  then have c: "is_digit c" using dec_digits [of c n] by simp
  then have sign: "c \<noteq> CHR ''-''" "c \<noteq> CHR ''+''" by (auto simp: is_digit_def)
  have "takeWhile is_digit ((c # cs) @ s) = c # cs"
    using takeWhile_digit_dec [OF assms(2), of n] d by simp
  moreover have "dropWhile is_space ((c # cs) @ s) = (c # cs) @ s"
    using dropWhile_space_dec [of n s] d by simp
  moreover have "dec_value (c # cs) = n" by (metis d dec_value_dec)
  moreover have "min (2 ^ 63 - 1) (int n) = int n" using assms(1) by simp
  ultimately show ?thesis
    using sign unfolding d c_atoi_def Let_def by simp
qed

section \<open>Properties\<close>

text \<open>
  C38: what \<open>string2ll\<close> makes of decimal digits with no leading zero, which end at the given
  length or at a character that is no digit. A number below \<open>2 ^ 63\<close> is read exactly, and one of
  \<open>2 ^ 64\<close> or more is a failure. The numbers between pass the overflow tests, which are those of
  \<open>unsigned long long\<close>, and are reported as a success with a negative result, the number less
  \<open>2 ^ 64\<close>.
\<close>

theorem string2ll_exact:
  assumes "ds \<noteq> []" "\<forall>c \<in> set ds. is_digit c" "hd ds \<noteq> CHR ''0''"
    and "slen = length ds \<or> (\<exists>c cs. rest = c # cs \<and> \<not> is_digit c \<and> length ds < slen)"
  shows "string2ll (ds @ rest) slen =
    Inr (if dec_value ds < 2 ^ 63 then Some (int (dec_value ds))
         else if dec_value ds < 2 ^ 64 then Some (int (dec_value ds) - 2 ^ 64) else None)"
  using assms by (rule string2ll_digits)

theorem string2ll_exact_witness:
  "string2ll (''9223372036854775807'' @ [CR]) 20 = Inr (Some 9223372036854775807) \<and>
   string2ll (''18446744073709551615'' @ [CR]) 21 = Inr (Some (- 1)) \<and>
   string2ll (''18446744073709551616'' @ [CR]) 21 = Inr None"
proof (intro conjI)
  show "string2ll (''9223372036854775807'' @ [CR]) 20 = Inr (Some 9223372036854775807)"
    using string2ll_exact [of "''9223372036854775807''" 20 "[CR]"]
    by (simp add: is_digit_def dec_value_def digit_val_def)
  show "string2ll (''18446744073709551615'' @ [CR]) 21 = Inr (Some (- 1))"
    using string2ll_exact [of "''18446744073709551615''" 21 "[CR]"]
    by (simp add: is_digit_def dec_value_def digit_val_def)
  show "string2ll (''18446744073709551616'' @ [CR]) 21 = Inr None"
    using string2ll_exact [of "''18446744073709551616''" 21 "[CR]"]
    by (simp add: is_digit_def dec_value_def digit_val_def)
qed

end
