(* ===== verification/Allocator.thy ===== *)
theory Allocator
  imports Prelude
begin

text \<open>
  The accounting allocator of \<open>util.c\<close> (\<open>chmalloc\<close>, \<open>chcalloc\<close>, \<open>chfree\<close>,
  \<open>get_used_memory\<close>) and the length-prefixed strings built on it. Addresses are
  natural numbers; a live block is its base address with the size its four byte header
  records. \<open>malloc\<close> hands out fresh addresses and does not fail. The counter
  \<open>used_memory\<close> is a C \<open>int\<close>, so it is kept as a 32 bit word.
\<close>

record heap =
  used_memory :: u32
  blocks :: "(nat \<times> u32) list"
  brk :: nat

definition heap_init :: heap where
  "heap_init = \<lparr>used_memory = 0, blocks = [], brk = 16\<rparr>"

definition sizeof_int :: nat where
  "sizeof_int = 4"

definition raw_malloc :: "nat \<Rightarrow> heap \<Rightarrow> nat \<times> heap" where
  "raw_malloc n h = (brk h, h\<lparr>brk := brk h + n + 16\<rparr>)"

definition chmalloc :: "u64 \<Rightarrow> heap \<Rightarrow> nat \<times> heap" where
  "chmalloc sz h =
     (let (ptr, h1) = raw_malloc (unat (sz + 4)) h;
          h2 = h1\<lparr>blocks := (ptr, ucast sz) # blocks h1\<rparr>;
          h3 = h2\<lparr>used_memory := ucast (scast (used_memory h2) + (sz + 4))\<rparr>
      in (ptr + sizeof_int, h3))"

definition chcalloc :: "u64 \<Rightarrow> heap \<Rightarrow> nat \<times> heap" where
  "chcalloc sz h =
     (let (ptr, h1) = raw_malloc (unat (sz + 4)) h;
          h2 = h1\<lparr>blocks := (ptr, ucast sz) # blocks h1\<rparr>;
          h3 = h2\<lparr>used_memory := ucast (scast (used_memory h2) + sz)\<rparr>
      in (ptr + sizeof_int, h3))"

definition chfree :: "nat \<Rightarrow> heap \<Rightarrow> heap res" where
  "chfree ptr h =
     (case map_of (blocks h) (ptr - sizeof_int) of
        None \<Rightarrow> Inl BadFree
      | Some used_size \<Rightarrow>
          (if ptr < sizeof_int then Inl BadFree
           else Inr (h\<lparr>used_memory := used_memory h - used_size,
                       blocks := AList.delete (ptr - sizeof_int) (blocks h)\<rparr>)))"

definition get_used_memory :: "heap \<Rightarrow> u64" where
  "get_used_memory h = scast (used_memory h)"

section \<open>Runs of the allocator\<close>

datatype alloc_op = OpMalloc u64 | OpCalloc u64 | OpFree nat

fun alloc_step :: "alloc_op \<Rightarrow> heap \<Rightarrow> heap res" where
  "alloc_step (OpMalloc n) h = Inr (snd (chmalloc n h))"
| "alloc_step (OpCalloc n) h = Inr (snd (chcalloc n h))"
| "alloc_step (OpFree p) h = chfree p h"

fun alloc_run :: "alloc_op list \<Rightarrow> heap \<Rightarrow> heap res" where
  "alloc_run [] h = Inr h"
| "alloc_run (a # as) h = bnd (alloc_step a h) (alloc_run as)"

fun mallocs :: "alloc_op list \<Rightarrow> nat" where
  "mallocs [] = 0"
| "mallocs (OpMalloc n # as) = Suc (mallocs as)"
| "mallocs (_ # as) = mallocs as"

text \<open>What the counter is meant to hold: the recorded sizes of the live blocks.\<close>

definition live_bytes :: "heap \<Rightarrow> u32" where
  "live_bytes h = sum_list (map snd (blocks h))"

definition heap_inv :: "heap \<Rightarrow> bool" where
  "heap_inv h \<longleftrightarrow> distinct (map fst (blocks h)) \<and> (\<forall>b \<in> set (map fst (blocks h)). 16 \<le> b \<and> b < brk h) \<and> 16 \<le> brk h"

lemma heap_inv_init [inv_intros]: "heap_inv heap_init"
  by (simp add: heap_inv_def heap_init_def)

lemmas alloc_defs = chmalloc_def chcalloc_def raw_malloc_def Let_def sizeof_int_def

lemma heap_inv_malloc [inv_intros]: "heap_inv h \<Longrightarrow> heap_inv (snd (chmalloc n h))"
  and heap_inv_calloc [inv_intros]: "heap_inv h \<Longrightarrow> heap_inv (snd (chcalloc n h))"
  by (force simp: heap_inv_def alloc_defs)+

lemma chfree_Inr:
  "chfree p h = Inr h' \<longleftrightarrow> sizeof_int \<le> p \<and>
     (\<exists>sz. map_of (blocks h) (p - sizeof_int) = Some sz \<and>
       h' = h\<lparr>used_memory := used_memory h - sz, blocks := AList.delete (p - sizeof_int) (blocks h)\<rparr>)"
  by (auto simp: chfree_def split: option.splits)

lemma heap_inv_free [inv_intros]: "heap_inv h \<Longrightarrow> chfree p h = Inr h' \<Longrightarrow> heap_inv h'"
  by (auto simp: heap_inv_def chfree_Inr delete_keys simp del: set_map intro: distinct_removeAll)

lemma sum_delete:
  fixes xs :: "('k \<times> 'b::ab_group_add) list"
  assumes "distinct (map fst xs)" "map_of xs k = Some v"
  shows "sum_list (map snd (AList.delete k xs)) = sum_list (map snd xs) - v"
  using assms
proof (induction xs)
  case (Cons x xs)
  show ?case
  proof (cases "fst x = k")
    case True
    with Cons.prems have "k \<notin> fst ` set xs" by auto
    then have "AList.delete k xs = xs" by (rule delete_id)
    with True Cons.prems show ?thesis by (cases x) simp
  next
    case False
    with Cons show ?thesis by (cases x) (auto simp: algebra_simps)
  qed
qed simp

lemma counter_add: "(ucast (scast (u::u32) + n :: u64) :: u32) = u + ucast (n::u64)"
  by (simp add: ucast_down_add ucast_scast_id del: ucast_id)

lemma used_malloc: "used_memory (snd (chmalloc n h)) = used_memory h + ucast n + 4"
  unfolding alloc_defs by (simp add: counter_add) (simp add: ucast_down_add)

lemma used_calloc: "used_memory (snd (chcalloc n h)) = used_memory h + ucast n"
  unfolding alloc_defs by (simp add: counter_add)

lemma live_malloc: "live_bytes (snd (chmalloc n h)) = live_bytes h + ucast n"
  and live_calloc: "live_bytes (snd (chcalloc n h)) = live_bytes h + ucast n"
  by (simp_all add: live_bytes_def alloc_defs)

lemma alloc_step_balance:
  assumes "heap_inv h" "alloc_step a h = Inr h'"
  shows "heap_inv h' \<and> used_memory h' - live_bytes h' =
    used_memory h - live_bytes h + (case a of OpMalloc _ \<Rightarrow> 4 | _ \<Rightarrow> 0)"
proof (cases a)
  case (OpMalloc n)
  then show ?thesis
    using assms by (auto simp: used_malloc live_malloc heap_inv_malloc)
next
  case (OpCalloc n)
  then show ?thesis
    using assms by (auto simp: used_calloc live_calloc heap_inv_calloc)
next
  case (OpFree p)
  then show ?thesis using assms heap_inv_free [of h p h']
    by (auto simp: chfree_Inr live_bytes_def sum_delete heap_inv_def)
qed

lemma alloc_run_balance:
  "heap_inv h \<Longrightarrow> alloc_run as h = Inr h' \<Longrightarrow>
   heap_inv h' \<and> used_memory h' - live_bytes h' =
     used_memory h - live_bytes h + 4 * of_nat (mallocs as)"
proof (induction as arbitrary: h)
  case (Cons a as)
  then obtain h1 where h1: "alloc_step a h = Inr h1" "alloc_run as h1 = Inr h'"
    by (auto simp: bnd_eq_Inr)
  note step = alloc_step_balance [OF Cons.prems(1) h1(1)]
  with Cons.IH [OF _ h1(2)] show ?case by (cases a) (simp_all add: algebra_simps)
qed simp

section \<open>Length-prefixed strings\<close>

text \<open>
  \<open>sdsnewlen\<close> allocates a header of two \<open>unsigned int\<close>, the bytes and a terminator and
  returns the address of the bytes. \<open>init\<close> is \<open>None\<close> for a null pointer, otherwise the
  memory it points to. \<open>sdsfree\<close> calls the C library's \<open>free\<close>.
\<close>

record sdshdr =
  sds_len :: u32
  sds_free :: u32
  sds_buf :: "byte list"

definition sizeof_sdshdr :: nat where
  "sizeof_sdshdr = 8"

definition sdsnewlen :: "byte list option \<Rightarrow> u64 \<Rightarrow> heap \<Rightarrow> (nat \<times> sdshdr) \<times> heap" where
  "sdsnewlen init initlen h =
     (let (sh, h1) = (case init of
              Some _ \<Rightarrow> chmalloc (of_nat sizeof_sdshdr + initlen + 1) h
            | None \<Rightarrow> chcalloc (of_nat sizeof_sdshdr + initlen + 1) h);
          bytes = (case init of
              Some src \<Rightarrow> take (unat initlen) src
            | None \<Rightarrow> replicate (unat initlen) NUL)
      in ((sh + sizeof_sdshdr,
           \<lparr>sds_len = ucast initlen, sds_free = 0, sds_buf = bytes @ [NUL]\<rparr>), h1))"

definition sdsnew :: "byte list option \<Rightarrow> heap \<Rightarrow> (nat \<times> sdshdr) \<times> heap" where
  "sdsnew init h =
     (let initlen = (case init of None \<Rightarrow> 0 | Some src \<Rightarrow> length (until_nul src))
      in sdsnewlen init (scast (word_of_nat initlen :: u32)) h)"

definition raw_free :: "nat \<Rightarrow> heap \<Rightarrow> heap res" where
  "raw_free p h =
     (if p \<in> fst ` set (blocks h) then Inr (h\<lparr>blocks := AList.delete p (blocks h)\<rparr>)
      else Inl BadFree)"

definition sdsfree :: "nat option \<Rightarrow> heap \<Rightarrow> heap res" where
  "sdsfree s h = (case s of None \<Rightarrow> Inr h | Some p \<Rightarrow> raw_free (p - sizeof_sdshdr) h)"

lemma sdsnewlen_heap:
  "sdsnewlen init n h = ((p, sds), h') \<Longrightarrow>
   p = brk h + 12 \<and> map fst (blocks h') = brk h # map fst (blocks h)"
  by (auto simp: sdsnewlen_def alloc_defs sizeof_sdshdr_def split: option.splits)

lemma block_below_brk: "heap_inv h \<Longrightarrow> b \<in> fst ` set (blocks h) \<Longrightarrow> b < brk h"
  by (auto simp: heap_inv_def)

lemma sdsfree_new:
  assumes "heap_inv h" and "sdsnewlen init n h = ((p, sds), h')"
  shows "sdsfree (Some p) h' = Inl BadFree"
proof -
  from sdsnewlen_heap [OF assms(2)] have
    p: "p = brk h + 12" and h': "map fst (blocks h') = brk h # map fst (blocks h)" by blast+
  from arg_cong [OF h', of set] have "fst ` set (blocks h') = insert (brk h) (fst ` set (blocks h))"
    by simp
  then have "p - 8 \<notin> fst ` set (blocks h')"
    using p block_below_brk [OF assms(1), of "p - 8"] by auto
  then show ?thesis by (simp add: sdsfree_def raw_free_def sizeof_sdshdr_def)
qed

section \<open>The counter alone\<close>

text \<open>
  Components that own their objects need only the effect of an allocation on the counter:
  \<open>charge n\<close> is that of \<open>chmalloc\<close> and \<open>discharge n\<close> that of \<open>chfree\<close> on a block of
  size \<open>n\<close>.
\<close>

definition charge :: "nat \<Rightarrow> u32 \<Rightarrow> u32" where
  "charge n um = um + word_of_nat n + 4"

definition discharge :: "nat \<Rightarrow> u32 \<Rightarrow> u32" where
  "discharge n um = um - word_of_nat n"

lemma charge_chmalloc:
  "n < 2 ^ 32 \<Longrightarrow> used_memory (snd (chmalloc (word_of_nat n) h)) = charge n (used_memory h)"
  by (simp add: used_malloc charge_def unsigned_of_nat take_bit_nat_eq_self)

lemma discharge_chfree:
  "chfree p h = Inr h' \<Longrightarrow> map_of (blocks h) (p - sizeof_int) = Some (word_of_nat n) \<Longrightarrow>
   used_memory h' = discharge n (used_memory h)"
  by (auto simp: chfree_Inr discharge_def)

lemma discharge_charge: "discharge n (charge n um) = um + 4"
  by (simp add: charge_def discharge_def)

section \<open>Properties\<close>

text \<open>
  C35: what the counter behind \<open>get_used_memory\<close> means. After any run of \<open>chmalloc\<close>,
  \<open>chcalloc\<close> and \<open>chfree\<close> that frees only live blocks, it is the sum of the sizes in the
  headers of the live blocks plus four bytes for every \<open>chmalloc\<close> ever made, freed or not:
  the size header is charged by \<open>chmalloc\<close> and credited by nobody, so the pressure the server
  sees only grows. All modulo \<open>2 ^ 32\<close>, the width of the counter.
\<close>

theorem used_memory_drift:
  assumes "alloc_run ops heap_init = Inr h"
  shows "used_memory h = live_bytes h + 4 * of_nat (mallocs ops)"
proof -
  from alloc_run_balance [OF heap_inv_init assms]
  have "used_memory h - live_bytes h = 4 * of_nat (mallocs ops)"
    by (simp add: heap_init_def live_bytes_def)
  then show ?thesis by (simp add: algebra_simps)
qed

theorem used_memory_drift_witness:
  "\<exists>h. alloc_run [OpMalloc 10, OpCalloc 5, OpFree 20, OpMalloc 10] heap_init = Inr h \<and>
    live_bytes h = 15 \<and> used_memory h = 23"
proof -
  define h where "h = projr (alloc_run [OpMalloc 10, OpCalloc 5, OpFree 20, OpMalloc 10] heap_init)"
  have h: "alloc_run [OpMalloc 10, OpCalloc 5, OpFree 20, OpMalloc 10] heap_init = Inr h"
    "live_bytes h = 15"
    by (simp_all add: h_def alloc_defs chfree_def heap_init_def live_bytes_def)
  with used_memory_drift [OF h(1)] show ?thesis by simp
qed

end
