(* ===== verification/Dictionary.thy ===== *)
theory Dictionary
  imports Prelude
begin

text \<open>
  The contract of the program's two dictionaries from strings, the chained hash table of
  \<open>hash.c\<close> and the block index of \<open>flashcache.cc\<close>: an insertion under a key that is
  present leaves the dictionary as it is. \<open>fault\<close> results are out of the contract's range.
\<close>

fun put_all :: "('k \<Rightarrow> 'v \<Rightarrow> 's \<Rightarrow> 's res) \<Rightarrow> ('k \<times> 'v) list \<Rightarrow> 's \<Rightarrow> 's res" where
  "put_all put [] s = Inr s"
| "put_all put ((k, v) # kvs) s = bnd (put k v s) (put_all put kvs)"

text \<open>
  \<open>good k v\<close>: the entry is one the dictionary can hold; \<open>room s n\<close>: \<open>n\<close> more insertions fit.
\<close>

locale insert_once =
  fixes inv :: "'s \<Rightarrow> bool"
    and good :: "'k \<Rightarrow> 'v \<Rightarrow> bool"
    and room :: "'s \<Rightarrow> nat \<Rightarrow> bool"
    and look :: "'s \<Rightarrow> 'k \<Rightarrow> 'v option"
    and put :: "'k \<Rightarrow> 'v \<Rightarrow> 's \<Rightarrow> 's res"
  assumes put_law: "inv s \<Longrightarrow> good k v \<Longrightarrow> room s (Suc n) \<Longrightarrow>
      \<exists>s'. put k v s = Inr s' \<and> inv s' \<and> room s' n \<and>
        look s' = (if look s k = None then (look s)(k \<mapsto> v) else look s)"
begin

text \<open>The first insertion under a key decides what is found there.\<close>

lemma put_twice:
  assumes "inv s" "good k v" "good k w" "room s (Suc (Suc n))" "look s k = None"
  shows "\<exists>s1 s2. put k v s = Inr s1 \<and> put k w s1 = Inr s2 \<and> inv s2 \<and> room s2 n \<and>
    look s2 = (look s)(k \<mapsto> v)"
proof -
  from put_law [OF assms(1,2,4)] obtain s1 where
    s1: "put k v s = Inr s1" "inv s1" "room s1 (Suc n)" "look s1 = (look s)(k \<mapsto> v)"
    using assms(5) by auto
  with put_law [OF s1(2) assms(3) s1(3)] show ?thesis by auto
qed

text \<open>A series of insertions: what was there stays, then the first of each key.\<close>

lemma put_all_look:
  "inv s \<Longrightarrow> \<forall>(k, v) \<in> set kvs. good k v \<Longrightarrow> room s (length kvs) \<Longrightarrow>
   \<exists>s'. put_all put kvs s = Inr s' \<and> inv s' \<and> look s' = map_of kvs ++ look s"
proof (induction kvs arbitrary: s)
  case (Cons kv kvs)
  obtain k v where kv: "kv = (k, v)" by fastforce
  with Cons.prems have "good k v" "room s (Suc (length kvs))" by simp_all
  from put_law [OF Cons.prems(1) this] obtain s1 where s1: "put k v s = Inr s1" "inv s1"
    "room s1 (length kvs)"
    "look s1 = (if look s k = None then (look s)(k \<mapsto> v) else look s)" by blast
  from Cons.IH [OF s1(2) _ s1(3)] Cons.prems(2) obtain s2 where s2: "put_all put kvs s1 = Inr s2"
    "inv s2" "look s2 = map_of kvs ++ look s1" by auto
  have "look s2 = map_of (kv # kvs) ++ look s"
    by (auto simp: s2 s1 kv map_add_def fun_eq_iff split: option.splits)
  moreover have "put_all put (kv # kvs) s = Inr s2" using s1(1) s2(1) kv by simp
  ultimately show ?case using s2(2) by blast
qed simp

end

locale insert_once_delete = insert_once inv good room look put
  for inv :: "'s \<Rightarrow> bool"
    and good :: "'k \<Rightarrow> 'v \<Rightarrow> bool"
    and room :: "'s \<Rightarrow> nat \<Rightarrow> bool"
    and look :: "'s \<Rightarrow> 'k \<Rightarrow> 'v option"
    and put :: "'k \<Rightarrow> 'v \<Rightarrow> 's \<Rightarrow> 's res" +
  fixes del :: "'k \<Rightarrow> 's \<Rightarrow> 's"
  assumes del_law: "inv s \<Longrightarrow> inv (del k s) \<and> look (del k s) = (look s)(k := None)"
    and del_room: "inv s \<Longrightarrow> room s n \<Longrightarrow> room (del k s) n"
begin

text \<open>Deleting first makes an insertion visible.\<close>

lemma del_put:
  assumes "inv s" "good k w" "room s (Suc n)"
  shows "\<exists>s'. put k w (del k s) = Inr s' \<and> inv s' \<and> room s' n \<and> look s' = (look s)(k \<mapsto> w)"
proof -
  from assms del_law del_room have "inv (del k s)" "room (del k s) (Suc n)"
    "look (del k s) = (look s)(k := None)" by auto
  with put_law [OF this(1) assms(2) this(2)] show ?thesis by auto
qed

end

end
