(* ===== verification/Hash.thy ===== *)
theory Hash
  imports Util Allocator Dictionary
begin

unbundle bit_operations_syntax

text \<open>
  The chained hash table of \<open>hash.c\<close>. A bucket is the list of its entries in chain
  order; the index of a bucket outside the allocated array is out of bounds. Keys are
  \<open>char *\<close>: the memory from the key's address, its terminator included.
\<close>

section \<open>State and operations\<close>

record hashEntry =
  he_key :: "byte list"
  he_val :: kvObject

record kvht =
  table :: "hashEntry list list"
  ht_size :: u64
  sizemask :: u64
  used :: u64

definition sizeof_hashEntry :: nat where
  "sizeof_hashEntry = 24"

text \<open>A \<open>char\<close> promoted to \<open>int\<close> and converted to \<open>unsigned int\<close>.\<close>

definition schar :: "byte \<Rightarrow> u32" where
  "schar c = scast (of_char c :: u8)"

text \<open>
  \<open>for (i = 0; i < str[i]; i++) code = code * 33 + str[i];\<close> on the bytes before the
  terminator, whose value 0 ends the loop.
\<close>

fun hash_loop :: "u32 \<Rightarrow> u32 \<Rightarrow> byte list \<Rightarrow> u32" where
  "hash_loop i code [] = code"
| "hash_loop i code (c # cs) =
     (if i < schar c then hash_loop (i + 1) (code * 33 + schar c) cs else code)"

definition get_hash_key :: "byte list \<Rightarrow> u32" where
  "get_hash_key str = hash_loop 0 5381 (until_nul str)"

definition hash_index :: "kvht \<Rightarrow> byte list \<Rightarrow> int" where
  "hash_index mc str = sint (ucast (ucast (get_hash_key str) AND sizemask mc :: u64) :: u32)"

definition bucket :: "kvht \<Rightarrow> int \<Rightarrow> hashEntry list res" where
  "bucket mc i =
     (if 0 \<le> i \<and> i < int (length (table mc)) then Inr (table mc ! nat i) else Inl OutOfBounds)"

definition strcmp_eq :: "byte list \<Rightarrow> byte list \<Rightarrow> bool" where
  "strcmp_eq s t \<longleftrightarrow> until_nul s = until_nul t"

definition get_hash :: "kvht \<Rightarrow> byte list \<Rightarrow> int res" where
  "get_hash mc str =
     bnd (bucket mc (hash_index mc str)) (\<lambda>chain.
       Inr (if \<exists>he \<in> set chain. strcmp_eq (he_key he) str then - 1 else hash_index mc str))"

definition hashAdd ::
  "kvht \<Rightarrow> byte list \<Rightarrow> kvObject \<Rightarrow> u32 \<Rightarrow> (int \<times> kvht \<times> u32) res" where
  "hashAdd mc key val um =
     bnd (get_hash mc key) (\<lambda>index.
       if index = - 1 then Inr (- 1, mc, um)
       else bnd (bucket mc index) (\<lambda>chain.
         Inr (0, mc\<lparr>table := (table mc)[nat index := \<lparr>he_key = key, he_val = val\<rparr> # chain],
                    used := used mc + 1\<rparr>,
              charge sizeof_hashEntry um)))"

definition entryFind :: "kvht \<Rightarrow> byte list \<Rightarrow> hashEntry option res" where
  "entryFind mc key =
     bnd (bucket mc (hash_index mc key)) (\<lambda>chain.
       Inr (find (\<lambda>he. strcmp_eq (he_key he) key) chain))"

text \<open>\<open>he->val = val\<close> through the pointer that \<open>entryFind\<close> returned.\<close>

fun chain_set :: "byte list \<Rightarrow> kvObject \<Rightarrow> hashEntry list \<Rightarrow> hashEntry list" where
  "chain_set key v [] = []"
| "chain_set key v (he # hes) =
     (if strcmp_eq (he_key he) key then he\<lparr>he_val := v\<rparr> # hes else he # chain_set key v hes)"

definition entrySetVal :: "kvht \<Rightarrow> byte list \<Rightarrow> kvObject \<Rightarrow> kvht res" where
  "entrySetVal mc key v =
     bnd (bucket mc (hash_index mc key)) (\<lambda>chain.
       Inr (mc\<lparr>table := (table mc)[nat (hash_index mc key) := chain_set key v chain]\<rparr>))"

text \<open>The walk of \<open>hashDelete\<close>: the entry to unlink and the chain without it.\<close>

fun chain_unlink :: "byte list \<Rightarrow> hashEntry list \<Rightarrow> (hashEntry \<times> hashEntry list) option" where
  "chain_unlink key [] = None"
| "chain_unlink key (he # hes) =
     (if strcmp_eq (he_key he) key then Some (he, hes)
      else map_option (\<lambda>(x, rest). (x, he # rest)) (chain_unlink key hes))"

definition entry_free :: "hashEntry \<Rightarrow> u32 \<Rightarrow> u32" where
  "entry_free he um =
     discharge sizeof_hashEntry
       (discharge (object_bytes (unat (msg_len (ptr (he_val he)))))
         (discharge (length (he_key he)) um))"

definition hashDelete :: "kvht \<Rightarrow> byte list \<Rightarrow> u32 \<Rightarrow> (int \<times> kvht \<times> u32) res" where
  "hashDelete mc key um =
     (if used mc > 0 then
        bnd (bucket mc (hash_index mc key)) (\<lambda>chain.
          (case chain_unlink key chain of
             Some (he, rest) \<Rightarrow>
               Inr (0, mc\<lparr>table := (table mc)[nat (hash_index mc key) := rest],
                          used := used mc - 1\<rparr>, entry_free he um)
           | None \<Rightarrow> Inr (- 1, mc, um)))
      else Inr (- 1, mc, um))"

section \<open>Invariant and abstraction\<close>

text \<open>
  The mask selects an allocated bucket; an entry is in the bucket of its key; the keys of
  a bucket differ; \<open>used\<close> counts the entries.
\<close>

definition hash_inv :: "kvht \<Rightarrow> bool" where
  "hash_inv mc \<longleftrightarrow>
     sizemask mc < 2 ^ 31 \<and>
     (\<forall>i < length (table mc).
        distinct (map (\<lambda>he. until_nul (he_key he)) (table mc ! i)) \<and>
        (\<forall>he \<in> set (table mc ! i). hash_index mc (he_key he) = int i)) \<and>
     used mc = of_nat (sum_list (map length (table mc)))"

definition in_slots :: "kvht \<Rightarrow> byte list \<Rightarrow> bool" where
  "in_slots mc key \<longleftrightarrow> hash_index mc key < int (length (table mc))"

definition hash_look :: "kvht \<Rightarrow> byte list \<Rightarrow> kvObject option" where
  "hash_look mc k =
     (case entryFind mc k of Inr (Some he) \<Rightarrow> Some (he_val he) | _ \<Rightarrow> None)"

lemma strcmp_eq_simps [simp]: "strcmp_eq s s"
  by (simp add: strcmp_eq_def)

lemma hash_index_cong: "strcmp_eq s t \<Longrightarrow> hash_index mc s = hash_index mc t"
  by (simp add: strcmp_eq_def hash_index_def get_hash_key_def)

lemma hash_index_mask [simp]:
  "hash_index (mc\<lparr>table := t, used := u\<rparr>) s = hash_index mc s"
  "hash_index (mc\<lparr>table := t\<rparr>) s = hash_index mc s"
  by (simp_all add: hash_index_def)

lemma in_slots_simps [simp]:
  "in_slots (mc\<lparr>table := (table mc)[i := c], used := u\<rparr>) s = in_slots mc s"
  by (simp add: in_slots_def)

lemma in_slots_cong: "strcmp_eq s t \<Longrightarrow> in_slots mc s = in_slots mc t"
  by (simp add: in_slots_def hash_index_cong)

text \<open>The mask bounds the index.\<close>

lemma hash_index_bounds:
  assumes "sizemask mc < 2 ^ 31"
  shows "0 \<le> hash_index mc s" "hash_index mc s \<le> int (unat (sizemask mc))"
proof -
  let ?w = "ucast (get_hash_key s) AND sizemask mc :: u64"
  have le: "unat ?w \<le> unat (sizemask mc)"
    by (rule word_and_le1 [THEN word_le_nat_alt [THEN iffD1]])
  moreover have "unat (sizemask mc) < 2 ^ 31"
    using assms by (simp add: word_less_nat_alt)
  ultimately have "sint (word_of_nat (unat ?w) :: u32) = int (unat ?w)"
    by (intro sint_small_nat) simp
  then have "hash_index mc s = int (unat ?w)"
    by (simp add: hash_index_def of_nat_unat)
  with le show "0 \<le> hash_index mc s" "hash_index mc s \<le> int (unat (sizemask mc))"
    by (simp_all add: word_le_nat_alt [symmetric] word_le_def)
qed

lemma bucket_inv:
  assumes "hash_inv mc" "in_slots mc s"
  shows "bucket mc (hash_index mc s) = Inr (table mc ! nat (hash_index mc s))"
    and "nat (hash_index mc s) < length (table mc)"
    and "0 \<le> hash_index mc s"
proof -
  have "sizemask mc < 2 ^ 31" using assms unfolding hash_inv_def by blast
  then have "0 \<le> hash_index mc s" by (rule hash_index_bounds)
  moreover have "hash_index mc s < int (length (table mc))" using assms(2) by (simp add: in_slots_def)
  ultimately show "bucket mc (hash_index mc s) = Inr (table mc ! nat (hash_index mc s))"
    "nat (hash_index mc s) < length (table mc)" "0 \<le> hash_index mc s"
    by (simp_all add: bucket_def)
qed

lemma hash_look_inv:
  "hash_inv mc \<Longrightarrow> hash_look mc s = (if in_slots mc s then map_option he_val
     (find (\<lambda>he. strcmp_eq (he_key he) s) (table mc ! nat (hash_index mc s))) else None)"
proof (cases "in_slots mc s")
  case False
  then show ?thesis by (simp add: hash_look_def entryFind_def bucket_def in_slots_def)
qed (simp add: hash_look_def entryFind_def bucket_inv split: option.splits)

lemma hash_look_slot: "hash_inv mc \<Longrightarrow> hash_look mc s = Some v \<Longrightarrow> in_slots mc s"
  by (simp add: hash_look_inv split: if_splits)

lemma find_None_iff_ball: "find P xs = None \<longleftrightarrow> \<not> (\<exists>x \<in> set xs. P x)"
  by (auto simp: find_None_iff)

lemma hash_inv_update:
  assumes inv: "hash_inv mc" and i: "i < length (table mc)"
    and dist: "distinct (map (\<lambda>he. until_nul (he_key he)) c)"
    and idx: "\<forall>he \<in> set c. hash_index mc (he_key he) = int i"
    and cnt: "u = of_nat (sum_list (map length ((table mc)[i := c])))"
  shows "hash_inv (mc\<lparr>table := (table mc)[i := c], used := u\<rparr>)"
  using assms unfolding hash_inv_def by (auto simp: nth_list_update)

lemma count_update:
  "i < length t \<Longrightarrow>
   sum_list (map length (t[i := c])) + length (t ! i) = sum_list (map length t) + length c"
  using sum_list_update_nat [of i "map length t" "length c"] by (simp add: map_update)

lemma hashAdd_absent:
  assumes inv: "hash_inv mc" and new: "hash_look mc key = None" and slot: "in_slots mc key"
  shows "\<exists>mc'. hashAdd mc key v um = Inr (0, mc', charge sizeof_hashEntry um) \<and> hash_inv mc' \<and>
    (\<forall>k. hash_look mc' k = (if strcmp_eq key k then Some v else hash_look mc k))"
proof -
  let ?i = "nat (hash_index mc key)"
  let ?c = "\<lparr>he_key = key, he_val = v\<rparr> # table mc ! ?i"
  let ?mc = "mc\<lparr>table := (table mc)[?i := ?c], used := used mc + 1\<rparr>"
  note b = bucket_inv [OF inv slot]
  have absent: "\<not> (\<exists>he \<in> set (table mc ! ?i). strcmp_eq (he_key he) key)"
    using new by (simp add: hash_look_inv [OF inv] slot find_None_iff_ball)
  have "hash_inv ?mc"
  proof (rule hash_inv_update [OF inv b(2)])
    show "distinct (map (\<lambda>he. until_nul (he_key he)) ?c)"
      using inv b(2) absent by (auto simp: hash_inv_def strcmp_eq_def)
    show "\<forall>he \<in> set ?c. hash_index mc (he_key he) = int ?i"
      using inv b(2,3) by (auto simp: hash_inv_def)
    have "sum_list (map length ((table mc)[?i := ?c])) = Suc (sum_list (map length (table mc)))"
      using count_update [OF b(2), of ?c] by simp
    then show "used mc + 1 = of_nat (sum_list (map length ((table mc)[?i := ?c])))"
      using inv by (simp add: hash_inv_def)
  qed
  then have look: "hash_look ?mc k = (if in_slots mc k then map_option he_val
      (find (\<lambda>he. strcmp_eq (he_key he) k) ((table mc)[?i := ?c] ! nat (hash_index mc k))) else None)" for k
    by (simp add: hash_look_inv)
  have "hash_look ?mc k = (if strcmp_eq key k then Some v else hash_look mc k)" for k
  proof (cases "in_slots mc k \<and> nat (hash_index mc k) = ?i")
    case True
    then show ?thesis using b(2) by (simp add: look hash_look_inv [OF inv])
  next
    case False
    moreover from this have "\<not> strcmp_eq key k"
      using slot by (auto dest: hash_index_cong [of key k mc] in_slots_cong [of key k mc])
    ultimately show ?thesis by (auto simp: look hash_look_inv [OF inv])
  qed
  moreover have "hashAdd mc key v um = Inr (0, ?mc, charge sizeof_hashEntry um)"
  proof -
    have "get_hash mc key = Inr (hash_index mc key)"
      using absent b(1) by (simp add: get_hash_def)
    moreover have "hash_index mc key \<noteq> - 1" using b(3) by linarith
    ultimately show ?thesis using b(1) by (simp add: hashAdd_def)
  qed
  ultimately show ?thesis using \<open>hash_inv ?mc\<close> by blast
qed

lemma chain_set_keys: "map he_key (chain_set key v hes) = map he_key hes"
  by (induction hes) auto

lemma chain_set_find:
  "find (\<lambda>he. strcmp_eq (he_key he) key) hes \<noteq> None \<Longrightarrow>
   map_option he_val (find (\<lambda>he. strcmp_eq (he_key he) k) (chain_set key v hes)) =
     (if strcmp_eq key k then Some v else map_option he_val (find (\<lambda>he. strcmp_eq (he_key he) k) hes))"
  by (induction hes) (auto simp: strcmp_eq_def split: if_splits)

text \<open>Assigning the value of an entry that is there changes its key's value and no other.\<close>

lemma entrySetVal_present:
  assumes inv: "hash_inv mc" and there: "hash_look mc key = Some w"
  shows "\<exists>mc'. entrySetVal mc key v = Inr mc' \<and> hash_inv mc' \<and> sizemask mc' = sizemask mc \<and>
    length (table mc') = length (table mc) \<and>
    (\<forall>k. hash_look mc' k = (if strcmp_eq key k then Some v else hash_look mc k))"
proof -
  have slot: "in_slots mc key" using hash_look_slot [OF inv there] .
  let ?i = "nat (hash_index mc key)"
  let ?c = "chain_set key v (table mc ! ?i)"
  let ?mc = "mc\<lparr>table := (table mc)[?i := ?c]\<rparr>"
  note b = bucket_inv [OF inv slot]
  have keys: "map f (map he_key ?c) = map f (map he_key (table mc ! ?i))" for f :: "byte list \<Rightarrow> 'z"
    by (simp only: chain_set_keys)
  then have len: "length ?c = length (table mc ! ?i)" by (metis length_map chain_set_keys)
  have "hash_inv (mc\<lparr>table := (table mc)[?i := ?c], used := used mc\<rparr>)"
  proof (rule hash_inv_update [OF inv b(2)])
    show "distinct (map (\<lambda>he. until_nul (he_key he)) ?c)"
      using inv b(2) keys [of until_nul] by (simp add: hash_inv_def comp_def)
    have "he_key ` set ?c = he_key ` set (table mc ! ?i)" using chain_set_keys [of key v "table mc ! ?i"] by (metis set_map)
    then show "\<forall>he \<in> set ?c. hash_index mc (he_key he) = int ?i"
      using inv b(2,3) unfolding hash_inv_def by (metis (no_types, lifting) image_iff)
    show "used mc = of_nat (sum_list (map length ((table mc)[?i := ?c])))"
      using inv count_update [OF b(2), of ?c] len by (simp add: hash_inv_def)
  qed
  then have inv': "hash_inv ?mc" by simp
  then have look: "hash_look ?mc k = (if in_slots mc k then map_option he_val
      (find (\<lambda>he. strcmp_eq (he_key he) k) ((table mc)[?i := ?c] ! nat (hash_index mc k))) else None)" for k
    by (simp add: hash_look_inv in_slots_def)
  have there': "find (\<lambda>he. strcmp_eq (he_key he) key) (table mc ! ?i) \<noteq> None"
    using there slot by (auto simp: hash_look_inv [OF inv])
  have "hash_look ?mc k = (if strcmp_eq key k then Some v else hash_look mc k)" for k
  proof (cases "in_slots mc k \<and> nat (hash_index mc k) = ?i")
    case True
    then show ?thesis using b(2) chain_set_find [OF there', of k v] by (simp add: look hash_look_inv [OF inv])
  next
    case False
    moreover from this have "\<not> strcmp_eq key k"
      using slot by (auto dest: hash_index_cong [of key k mc] in_slots_cong [of key k mc])
    ultimately show ?thesis by (auto simp: look hash_look_inv [OF inv])
  qed
  moreover have "entrySetVal mc key v = Inr ?mc" using b(1) by (simp add: entrySetVal_def)
  ultimately show ?thesis using inv' by (intro exI [of _ ?mc]) simp
qed

lemma hashAdd_present:
  assumes inv: "hash_inv mc" and "hash_look mc key = Some w"
  shows "hashAdd mc key v um = Inr (- 1, mc, um)"
proof -
  have "find (\<lambda>he. strcmp_eq (he_key he) key) (table mc ! nat (hash_index mc key)) \<noteq> None"
    using assms by (auto simp: hash_look_inv split: if_splits)
  then have "\<exists>he \<in> set (table mc ! nat (hash_index mc key)). strcmp_eq (he_key he) key"
    by (simp only: find_None_iff_ball not_not)
  then show ?thesis by (simp add: hashAdd_def get_hash_def bucket_inv [OF inv hash_look_slot [OF assms]])
qed

lemma chain_unlink_find:
  "chain_unlink key hes =
     (case find (\<lambda>he. strcmp_eq (he_key he) key) hes of
        None \<Rightarrow> None
      | Some he \<Rightarrow> Some (he, remove1 he hes))"
proof (induction hes)
  case (Cons x xs)
  show ?case
  proof (cases "strcmp_eq (he_key x) key")
    case False
    then have "find (\<lambda>he. strcmp_eq (he_key he) key) xs = Some he \<Longrightarrow> he \<noteq> x" for he
      by (auto simp: find_Some_iff)
    with False Cons show ?thesis by (auto split: option.splits)
  qed simp
qed simp

lemma find_remove1_other:
  "\<not> P x \<Longrightarrow> find P (remove1 x xs) = find P xs"
  by (induction xs) auto

lemma find_unique_removed:
  assumes "distinct (map f xs)" "find P xs = Some x" "\<And>y. y \<in> set xs \<Longrightarrow> P y \<Longrightarrow> f y = f x"
  shows "find P (remove1 x xs) = None"
  using assms
proof (induction xs)
  case (Cons y ys)
  show ?case
  proof (cases "P y")
    case True
    with Cons.prems(2) have yx: "y = x" by simp
    with Cons.prems(1) have "f x \<notin> f ` set ys" by simp
    with Cons.prems(3) have "\<not> P z" if "z \<in> set ys" for z
      using that by (metis imageI list.set_intros(2))
    then have "find P ys = None" by (simp add: find_None_iff)
    with yx show ?thesis by simp
  next
    case False
    with Cons.prems(2) have yx: "y \<noteq> x" "find P ys = Some x" by (auto simp: find_Some_iff)
    have "find P (remove1 x ys) = None"
      using Cons.prems yx by (intro Cons.IH) auto
    with False yx show ?thesis by simp
  qed
qed simp

text \<open>
  Deletion: with fewer than \<open>2 ^ 64\<close> entries the counter is positive whenever there is
  an entry, and \<open>hashDelete\<close> removes exactly the entry of the key.
\<close>

text \<open>An entry is unlinked from its chain.\<close>

lemma hash_inv_remove:
  assumes inv: "hash_inv mc" and i: "i < length (table mc)" and he: "he \<in> set (table mc ! i)"
  shows "hash_inv (mc\<lparr>table := (table mc)[i := remove1 he (table mc ! i)], used := used mc - 1\<rparr>)"
proof (rule hash_inv_update [OF inv i])
  let ?c = "remove1 he (table mc ! i)"
  have "distinct (map (\<lambda>he. until_nul (he_key he)) (table mc ! i))" using inv i by (simp add: hash_inv_def)
  then show "distinct (map (\<lambda>he. until_nul (he_key he)) ?c)"
    by (auto simp: distinct_map distinct_remove1 intro: inj_on_diff)
  show "\<forall>he \<in> set ?c. hash_index mc (he_key he) = int i"
    using inv i set_remove1_subset by (fastforce simp: hash_inv_def)
  have "Suc (length ?c) = length (table mc ! i)"
    using he by (simp add: length_remove1) (metis length_pos_if_in_set Suc_pred)
  then have "Suc (sum_list (map length ((table mc)[i := ?c]))) = sum_list (map length (table mc))"
    using count_update [OF i, of ?c] by simp
  then have "of_nat (Suc (sum_list (map length ((table mc)[i := ?c])))) = used mc"
    using inv by (simp add: hash_inv_def)
  then show "used mc - 1 = of_nat (sum_list (map length ((table mc)[i := ?c])))"
    by (simp add: algebra_simps)
qed

lemma used_positive:
  assumes inv: "hash_inv mc" and few: "sum_list (map length (table mc)) < 2 ^ 64"
    and i: "i < length (table mc)" and he: "he \<in> set (table mc ! i)"
  shows "0 < used mc"
proof -
  have "length (table mc ! i) \<le> sum_list (map length (table mc))"
    using i by (intro member_le_sum_list) simp_all
  moreover have "0 < length (table mc ! i)" using he by (rule length_pos_if_in_set)
  moreover have "unat (used mc) = sum_list (map length (table mc))"
    using inv few by (simp add: hash_inv_def unsigned_of_nat take_bit_nat_eq_self)
  ultimately have "0 < unat (used mc)" by linarith
  then show ?thesis by (simp add: word_less_nat_alt)
qed

lemma hashDelete_present:
  assumes inv: "hash_inv mc" and few: "sum_list (map length (table mc)) < 2 ^ 64"
    and "hash_look mc key = Some v"
  shows "\<exists>mc' um'. hashDelete mc key um = Inr (0, mc', um') \<and> hash_inv mc' \<and>
    (\<forall>k. hash_look mc' k = (if strcmp_eq key k then None else hash_look mc k))"
proof -
  let ?i = "nat (hash_index mc key)"
  let ?P = "\<lambda>key he. strcmp_eq (he_key he) key"
  note slot = hash_look_slot [OF inv assms(3)]
  note b = bucket_inv [OF inv slot]
  obtain he where he: "find (?P key) (table mc ! ?i) = Some he"
    using assms(3) slot by (auto simp: hash_look_inv [OF inv])
  then have hek: "strcmp_eq (he_key he) key" and mem: "he \<in> set (table mc ! ?i)"
    by (auto simp: find_Some_iff)
  let ?c = "remove1 he (table mc ! ?i)"
  let ?mc = "mc\<lparr>table := (table mc)[?i := ?c], used := used mc - 1\<rparr>"
  have dist: "distinct (map (\<lambda>he. until_nul (he_key he)) (table mc ! ?i))"
    using inv b(2) by (simp add: hash_inv_def)
  note ok = hash_inv_remove [OF inv b(2) mem]
  then have look: "hash_look ?mc k = (if in_slots mc k then map_option he_val
      (find (?P k) ((table mc)[?i := ?c] ! nat (hash_index mc k))) else None)" for k
    by (simp add: hash_look_inv)
  have "hash_look ?mc k = (if strcmp_eq key k then None else hash_look mc k)" for k
  proof (cases "strcmp_eq key k")
    case True
    then have eq: "?P k = ?P key" by (auto simp: strcmp_eq_def)
    have "find (?P key) ?c = None"
      using dist he by (rule find_unique_removed) (use hek in \<open>simp add: strcmp_eq_def\<close>)
    then have "find (?P k) ?c = None" by (simp only: eq)
    moreover have "nat (hash_index mc k) = ?i" using True by (simp add: hash_index_cong)
    ultimately show ?thesis using True b(2) by (simp add: look)
  next
    case False
    then have "\<not> ?P k he" using hek by (auto simp: strcmp_eq_def)
    then show ?thesis using False b(2)
      by (cases "nat (hash_index mc k) = ?i")
        (simp_all add: look hash_look_inv [OF inv] find_remove1_other)
  qed
  moreover have "hashDelete mc key um = Inr (0, ?mc, entry_free he um)"
    using used_positive [OF inv few b(2) mem] b(1) he by (simp add: hashDelete_def chain_unlink_find)
  ultimately show ?thesis using ok by blast
qed

section \<open>The table \<open>initServer\<close> allocates\<close>

text \<open>
  \<open>initServer\<close> in \<open>server.c\<close>: an array of 100 null pointers with \<open>sizemask = 100\<close>.
\<close>

definition memCache_init :: kvht where
  "memCache_init = \<lparr>table = replicate 100 [], ht_size = 100, sizemask = 100, used = 0\<rparr>"

lemma and_100_values:
  "list_all (\<lambda>n. n AND 100 = n \<longrightarrow> n \<in> {0, 4, 32, 36, 64, 68, 96, 100}) [0..<101::nat]"
  by code_simp

lemma and_100_cases:
  fixes w :: u64
  shows "unat (w AND 100) \<in> {0, 4, 32, 36, 64, 68, 96, 100}"
proof -
  let ?r = "w AND 100"
  have "?r \<le> 100" by (rule word_and_le1)
  then have "unat ?r \<le> unat (100 :: u64)" by (simp only: word_le_nat_alt)
  then have "unat ?r \<in> set [0..<101]" by simp
  moreover have "unat (?r AND 100) = unat ?r AND unat (100 :: u64)" by (rule unsigned_and_eq)
  then have "unat ?r AND 100 = unat ?r" by (simp add: and.assoc)
  ultimately show ?thesis using and_100_values by (simp only: list_all_iff)
qed

text \<open>Only eight indices occur, and one of them is outside the array.\<close>

lemma memCache_index:
  assumes "sizemask mc = 100"
  shows "hash_index mc s \<in> {0, 4, 32, 36, 64, 68, 96, 100}"
proof -
  let ?w = "ucast (get_hash_key s) AND 100 :: u64"
  note c = and_100_cases [of "ucast (get_hash_key s)"]
  then have "unat ?w < 2 ^ 31" by auto
  then have "sint (word_of_nat (unat ?w) :: u32) = int (unat ?w)" by (rule sint_small_nat)
  then have "hash_index mc s = int (unat ?w)"
    using assms by (simp add: hash_index_def of_nat_unat)
  moreover have "int ` {0, 4, 32, 36, 64, 68, 96, 100} = {0, 4, 32, 36, 64, 68, 96, 100}" by simp
  ultimately show ?thesis using imageI [OF c, of int] by simp
qed

text \<open>
  The table as a dictionary over the bytes before a key's terminator, for the keys whose index
  is one of the seven that exist.
\<close>

definition memCache_ok :: "kvht \<times> u32 \<Rightarrow> bool" where
  "memCache_ok s \<longleftrightarrow> hash_inv (fst s) \<and> sizemask (fst s) = 100 \<and> length (table (fst s)) = 100"

definition fits_table :: "byte list \<Rightarrow> bool" where
  "fits_table k \<longleftrightarrow> no_nul k \<and> hash_index memCache_init k \<noteq> 100"

definition hash_dict :: "kvht \<times> u32 \<Rightarrow> byte list \<Rightarrow> kvObject option" where
  "hash_dict s k = (if no_nul k then hash_look (fst s) k else None)"

definition hash_put :: "byte list \<Rightarrow> kvObject \<Rightarrow> kvht \<times> u32 \<Rightarrow> (kvht \<times> u32) res" where
  "hash_put k v s = bnd (hashAdd (fst s) (k @ [NUL]) v (snd s)) (\<lambda>(_, mc, um). Inr (mc, um))"

definition hash_del :: "byte list \<Rightarrow> kvht \<times> u32 \<Rightarrow> (kvht \<times> u32) res" where
  "hash_del k s = bnd (hashDelete (fst s) (k @ [NUL]) (snd s)) (\<lambda>(_, mc, um). Inr (mc, um))"

lemma hash_index_sizemask: "sizemask mc = sizemask mc' \<Longrightarrow> hash_index mc k = hash_index mc' k"
  by (simp add: hash_index_def)

lemma fits_table_slot:
  assumes "memCache_ok s" "fits_table k"
  shows "in_slots (fst s) (k @ [NUL])"
proof -
  have k: "strcmp_eq (k @ [NUL]) k" using assms(2) by (simp add: fits_table_def strcmp_eq_def)
  have "hash_index (fst s) k = hash_index memCache_init k"
    using assms(1) by (intro hash_index_sizemask) (simp add: memCache_ok_def memCache_init_def)
  with memCache_index [of "fst s" k] assms have "hash_index (fst s) k < 100"
    by (auto simp: memCache_ok_def fits_table_def)
  then show ?thesis using assms(1) hash_index_cong [OF k] by (simp add: in_slots_def memCache_ok_def)
qed

lemma hashAdd_shape:
  "hashAdd mc key v um = Inr (r, mc', um') \<Longrightarrow>
   sizemask mc' = sizemask mc \<and> length (table mc') = length (table mc)"
  by (auto simp: hashAdd_def bnd_eq_Inr split: if_splits)

lemma hash_look_term:
  assumes "hash_inv mc" "no_nul k"
  shows "hash_look mc (k @ [NUL]) = hash_look mc k"
  using assms hash_index_cong [of "k @ [NUL]" k mc] in_slots_cong [of "k @ [NUL]" k mc]
  by (simp add: hash_look_inv strcmp_eq_def)

interpretation mem_table: insert_once memCache_ok "\<lambda>k v. fits_table k" "\<lambda>s n. True"
  hash_dict hash_put
proof unfold_locales
  fix s :: "kvht \<times> u32" and k v
  assume ok: "memCache_ok s" and fits: "fits_table k"
  have inv: "hash_inv (fst s)" and k: "no_nul k" using ok fits by (simp_all add: memCache_ok_def fits_table_def)
  have key: "strcmp_eq (k @ [NUL]) k' = (until_nul k' = k)" for k'
    using k by (auto simp: strcmp_eq_def)
  note same = hash_look_term [OF inv k]
  show "\<exists>s'. hash_put k v s = Inr s' \<and> memCache_ok s' \<and> True \<and>
      hash_dict s' = (if hash_dict s k = None then (hash_dict s)(k \<mapsto> v) else hash_dict s)"
  proof (cases "hash_look (fst s) k")
    case None
    from hashAdd_absent [OF inv, of "k @ [NUL]" v "snd s"] same None fits_table_slot [OF ok fits]
    obtain mc' where mc': "hashAdd (fst s) (k @ [NUL]) v (snd s) = Inr (0, mc', charge sizeof_hashEntry (snd s))"
      "hash_inv mc'" "\<forall>j. hash_look mc' j = (if until_nul j = k then Some v else hash_look (fst s) j)"
      unfolding key by auto
    with hashAdd_shape [OF mc'(1)] ok k None show ?thesis
      by (auto simp: hash_put_def hash_dict_def fun_eq_iff memCache_ok_def)
  next
    case (Some w)
    with hashAdd_present [OF inv, of "k @ [NUL]" w v "snd s"] same ok k show ?thesis
      by (auto simp: hash_put_def hash_dict_def)
  qed
qed

lemma memCache_ok_init: "memCache_ok (memCache_init, um)"
  by (simp add: memCache_ok_def hash_inv_def memCache_init_def sum_list_replicate)

lemma hash_look_init: "hash_look memCache_init k = None"
proof (rule ccontr)
  assume some: "hash_look memCache_init k \<noteq> None"
  have inv: "hash_inv memCache_init" using memCache_ok_init by (simp add: memCache_ok_def)
  from some obtain v where v: "hash_look memCache_init k = Some v" by blast
  have "nat (hash_index memCache_init k) < 100"
    using bucket_inv(2) [OF inv hash_look_slot [OF inv v]] by (simp add: memCache_init_def)
  then have "table memCache_init ! nat (hash_index memCache_init k) = []"
    by (simp add: memCache_init_def)
  then show False using v by (simp add: hash_look_inv [OF inv] split: if_splits)
qed

lemma hashDelete_shape:
  "hashDelete mc key um = Inr (r, mc', um') \<Longrightarrow>
   sizemask mc' = sizemask mc \<and> length (table mc') = length (table mc)"
  by (auto simp: hashDelete_def bnd_eq_Inr split: if_splits option.splits)

lemma hash_del_present:
  assumes ok: "memCache_ok s" and few: "sum_list (map length (table (fst s))) < 2 ^ 64"
    and v: "hash_dict s k = Some v"
  shows "\<exists>s'. hash_del k s = Inr s' \<and> memCache_ok s' \<and> hash_dict s' = (hash_dict s)(k := None)"
proof -
  have inv: "hash_inv (fst s)" and k: "no_nul k" "hash_look (fst s) k = Some v"
    using ok v by (simp_all add: memCache_ok_def hash_dict_def split: if_splits)
  have key: "strcmp_eq (k @ [NUL]) k' = (until_nul k' = k)" for k'
    using k(1) by (auto simp: strcmp_eq_def)
  have "hash_look (fst s) (k @ [NUL]) = Some v" using k hash_look_term [OF inv] by simp
  from hashDelete_present [OF inv few this, of "snd s"] obtain mc' um' where
    mc': "hashDelete (fst s) (k @ [NUL]) (snd s) = Inr (0, mc', um')" "hash_inv mc'"
    "\<forall>j. hash_look mc' j = (if until_nul j = k then None else hash_look (fst s) j)"
    unfolding key by blast
  with hashDelete_shape [OF mc'(1)] ok k show ?thesis
    by (auto simp: hash_del_def hash_dict_def fun_eq_iff memCache_ok_def)
qed

lemma hashAdd_cases:
  assumes "hashAdd mc key v um = Inr (r, mc', um')"
  shows "mc' = mc \<or> (\<exists>i c. bucket mc i = Inr c \<and>
    table mc' = (table mc)[nat i := \<lparr>he_key = key, he_val = v\<rparr> # c])"
proof (cases "get_hash mc key")
  case (Inr x)
  show ?thesis
  proof (cases "x = - 1")
    case False
    then have "\<exists>c. bucket mc x = Inr c \<and> table mc' = (table mc)[nat x := \<lparr>he_key = key, he_val = v\<rparr> # c]"
      using assms Inr by (cases "bucket mc x") (auto simp: hashAdd_def)
    then show ?thesis by blast
  qed (use assms Inr in \<open>simp add: hashAdd_def\<close>)
qed (use assms in \<open>simp add: hashAdd_def\<close>)

lemma hash_put_count:
  assumes "hash_put k v s = Inr s'"
  shows "sum_list (map length (table (fst s'))) \<le> Suc (sum_list (map length (table (fst s))))"
proof -
  from assms obtain r mc um where a: "hashAdd (fst s) (k @ [NUL]) v (snd s) = Inr (r, mc, um)" "s' = (mc, um)"
    by (auto simp: hash_put_def bnd_eq_Inr)
  show ?thesis
  proof (cases "mc = fst s")
    case False
    with hashAdd_cases [OF a(1)] obtain i c where i: "bucket (fst s) i = Inr c"
      "table mc = (table (fst s))[nat i := \<lparr>he_key = k @ [NUL], he_val = v\<rparr> # c]" by blast
    then have "nat i < length (table (fst s))" "c = table (fst s) ! nat i"
      by (auto simp: bucket_def split: if_splits)
    with count_update [OF this(1), of "\<lparr>he_key = k @ [NUL], he_val = v\<rparr> # c"] i(2) a(2)
    show ?thesis by simp
  qed (simp add: a)
qed

lemma put_all_count:
  "put_all hash_put kvs s = Inr s' \<Longrightarrow>
   sum_list (map length (table (fst s'))) \<le> sum_list (map length (table (fst s))) + length kvs"
proof (induction kvs arbitrary: s)
  case (Cons kv kvs)
  then obtain s1 where "hash_put (fst kv) (snd kv) s = Inr s1" "put_all hash_put kvs s1 = Inr s'"
    by (cases kv) (auto simp: bnd_eq_Inr)
  with Cons.IH [of s1] hash_put_count show ?case by fastforce
qed simp

section \<open>Properties\<close>

text \<open>
  The table that \<open>initServer\<close> allocates, filled through \<open>hashAdd\<close> with any sequence of
  entries whose keys avoid the index 100, is a dictionary in which the first entry of each key
  stays: no insertion faults, and \<open>entryFind\<close> finds for every key the value of its first
  insertion.
\<close>

lemma hashAdd_first_wins:
  assumes "\<forall>(k, v) \<in> set kvs. fits_table k"
  shows "\<exists>s. put_all hash_put kvs (memCache_init, um) = Inr s \<and> memCache_ok s \<and>
    hash_dict s = map_of kvs"
proof -
  have "hash_dict (memCache_init, um) = Map.empty"
    by (simp add: hash_dict_def fun_eq_iff hash_look_init)
  with mem_table.put_all_look [OF memCache_ok_init, of kvs um] assms show ?thesis by simp
qed

text \<open>
  Deleting again. After such a filling, \<open>hashDelete\<close> of a key that is present unlinks
  its entry and no other.
\<close>

lemma hashDelete_after_fill:
  assumes "\<forall>(k, v) \<in> set kvs. fits_table k" and "length kvs < 2 ^ 64" and "map_of kvs k = Some v"
    and "put_all hash_put kvs (memCache_init, um) = Inr s"
  shows "\<exists>s'. hash_del k s = Inr s' \<and> memCache_ok s' \<and> hash_dict s' = (map_of kvs)(k := None)"
proof -
  have empty: "hash_dict (memCache_init, um) = Map.empty"
    by (simp add: hash_dict_def fun_eq_iff hash_look_init)
  from mem_table.put_all_look [OF memCache_ok_init, of kvs um] assms(1,4) empty
  have s: "memCache_ok s" "hash_dict s = map_of kvs" by auto
  have "sum_list (map length (table (fst s))) \<le> length kvs"
    using put_all_count [OF assms(4)] by (simp add: memCache_init_def sum_list_replicate)
  with assms(2) have "sum_list (map length (table (fst s))) < 2 ^ 64" by linarith
  from hash_del_present [OF s(1) this] s(2) assms(3) show ?thesis by simp
qed

lemma memCache_init_sel:
  "table memCache_init = replicate 100 []" "sizemask memCache_init = 100"
  by (simp_all add: memCache_init_def)

text \<open>
  The mask of the table is 100 and the table has 100 slots. Only eight indices are ever
  computed, and an insertion is behind the end of the array exactly when the index is 100, as it
  is for the key \<open>cd\<close>.
\<close>

lemma memCache_init_overflow:
  "hash_index memCache_init k \<in> {0, 4, 32, 36, 64, 68, 96, 100} \<and>
   (hashAdd memCache_init (k @ [NUL]) v um = Inl OutOfBounds) = (hash_index memCache_init k = 100) \<and>
   hash_index memCache_init ''cd'' = 100"
proof -
  have i: "hash_index memCache_init (k @ [NUL]) = hash_index memCache_init k"
    by (rule hash_index_cong) (simp add: strcmp_eq_def until_nul_def takeWhile_tail)
  have r: "hash_index memCache_init k \<in> {0, 4, 32, 36, 64, 68, 96, 100}"
    by (rule memCache_index) (simp add: memCache_init_sel)
  have "(hashAdd memCache_init (k @ [NUL]) v um = Inl OutOfBounds) = (hash_index memCache_init k = 100)"
    using r by (elim insertE) (simp_all add: hashAdd_def get_hash_def bucket_def i memCache_init_sel)
  with r show ?thesis by (simp add: hash_index_def get_hash_key_def schar_def memCache_init_def)
qed

definition sample_object :: "byte list \<Rightarrow> kvObject" where
  "sample_object v = \<lparr>kv_where = KV_LOC_MEM, refcount = 1, readcount = 0, writecount = 0,
     ptr = \<lparr>msg_len = word_of_nat (length v), msg_buf = v @ [NUL]\<rparr>\<rparr>"

lemma sample_keys_fit: "fits_table ''a''" "fits_table ''b''"
  by (simp_all add: fits_table_def hash_index_def get_hash_key_def schar_def memCache_init_def)

end
