(* ===== verification/LruCache.thy ===== *)
theory LruCache
  imports Prelude
begin

text \<open>
  The class template \<open>lru_cache\<close> of \<open>my_lru.hpp\<close>. A \<open>std::list\<close> is a list of nodes
  with an identity (an iterator is the identity of its node, valid while the node is in
  the list), a \<open>std::map\<close> an association list without duplicate keys whose values are
  pairs of the cached value and an iterator. \<open>evict\<close> removes a node and leaves the map
  entry with an invalid iterator; \<open>erase\<close> removes the map entry and leaves the node.
\<close>

section \<open>State and operations\<close>

record ('k, 'v) lru_cache =
  m_map :: "('k \<times> ('v \<times> nat)) list"
  m_list :: "(nat \<times> 'k) list"
  next_node :: nat

definition lru_new :: "('k, 'v) lru_cache" where
  "lru_new = \<lparr>m_map = [], m_list = [], next_node = 0\<rparr>"

definition lru_size :: "('k, 'v) lru_cache \<Rightarrow> nat" where
  "lru_size s = length (m_list s)"

definition lru_empty :: "('k, 'v) lru_cache \<Rightarrow> bool" where
  "lru_empty s \<longleftrightarrow> m_map s = []"

definition lru_contains :: "'k \<Rightarrow> ('k, 'v) lru_cache \<Rightarrow> bool" where
  "lru_contains key s \<longleftrightarrow> map_of (m_map s) key \<noteq> None"

definition lru_push_front :: "'k \<Rightarrow> 'v \<Rightarrow> ('k, 'v) lru_cache \<Rightarrow> ('k, 'v) lru_cache" where
  "lru_push_front key v s =
     s\<lparr>m_list := (next_node s, key) # m_list s,
       m_map := AList.update key (v, next_node s) (m_map s),
       next_node := Suc (next_node s)\<rparr>"

definition lru_insert :: "'k \<Rightarrow> 'v \<Rightarrow> ('k, 'v) lru_cache \<Rightarrow> ('k, 'v) lru_cache" where
  "lru_insert key v s =
     (case map_of (m_map s) key of
        None \<Rightarrow> lru_push_front key v s
      | Some _ \<Rightarrow> s)"

definition lru_get :: "'k \<Rightarrow> ('k, 'v) lru_cache \<Rightarrow> ('v option \<times> ('k, 'v) lru_cache) res" where
  "lru_get key s =
     (case map_of (m_map s) key of
        None \<Rightarrow> Inr (None, s)
      | Some (v, j) \<Rightarrow>
          if j \<notin> fst ` set (m_list s) then Inl DanglingIterator
          else if j \<noteq> fst (hd (m_list s)) then
            Inr (Some v,
                 lru_push_front key v (s\<lparr>m_list := filter (\<lambda>nd. fst nd \<noteq> j) (m_list s)\<rparr>))
          else Inr (Some v, s))"

definition lru_evict :: "('k, 'v) lru_cache \<Rightarrow> ('v \<times> ('k, 'v) lru_cache) res" where
  "lru_evict s =
     (if m_list s = [] then Inl EmptyContainer
      else
        (case map_of (m_map s) (snd (last (m_list s))) of
           None \<Rightarrow> Inl EndDeref
         | Some (v, _) \<Rightarrow> Inr (v, s\<lparr>m_list := butlast (m_list s)\<rparr>)))"

definition lru_erase :: "'k \<Rightarrow> ('k, 'v) lru_cache \<Rightarrow> ('k, 'v) lru_cache" where
  "lru_erase key s = s\<lparr>m_map := AList.delete key (m_map s)\<rparr>"

definition lru_clear :: "('k, 'v) lru_cache \<Rightarrow> ('k, 'v) lru_cache" where
  "lru_clear s = s\<lparr>m_map := [], m_list := []\<rparr>"

section \<open>Invariant and abstraction\<close>

text \<open>
  The usage order, most recent first, and the stored value of a key. A key is in
  limbo when the map has it and the list does not: it has been evicted, not yet erased.
\<close>

definition lru_order :: "('k, 'v) lru_cache \<Rightarrow> 'k list" where
  "lru_order s = map snd (m_list s)"

definition lru_value :: "('k, 'v) lru_cache \<Rightarrow> 'k \<Rightarrow> 'v option" where
  "lru_value s k = map_option fst (map_of (m_map s) k)"

definition lru_limbo :: "'k \<Rightarrow> ('k, 'v) lru_cache \<Rightarrow> bool" where
  "lru_limbo k s \<longleftrightarrow> lru_value s k \<noteq> None \<and> k \<notin> set (lru_order s)"

definition lru_inv :: "('k, 'v) lru_cache \<Rightarrow> bool" where
  "lru_inv s \<longleftrightarrow>
     distinct (map fst (m_map s)) \<and>
     distinct (map fst (m_list s)) \<and>
     distinct (map snd (m_list s)) \<and>
     (\<forall>n \<in> fst ` set (m_list s). n < next_node s) \<and>
     (\<forall>(k, v, n) \<in> set (m_map s). n < next_node s) \<and>
     (\<forall>(n, k) \<in> set (m_list s). \<exists>v. map_of (m_map s) k = Some (v, n)) \<and>
     (\<forall>(k, v, n) \<in> set (m_map s). \<forall>k'. (n, k') \<in> set (m_list s) \<longrightarrow> k' = k)"

text \<open>The same with the map read through \<open>map_of\<close>, as the operations read it.\<close>

lemma lru_inv_alt:
  "lru_inv s \<longleftrightarrow>
     distinct (map fst (m_map s)) \<and>
     distinct (map fst (m_list s)) \<and>
     distinct (map snd (m_list s)) \<and>
     (\<forall>n k. (n, k) \<in> set (m_list s) \<longrightarrow> n < next_node s) \<and>
     (\<forall>k v n. map_of (m_map s) k = Some (v, n) \<longrightarrow> n < next_node s) \<and>
     (\<forall>n k. (n, k) \<in> set (m_list s) \<longrightarrow> (\<exists>v. map_of (m_map s) k = Some (v, n))) \<and>
     (\<forall>k v n k'. map_of (m_map s) k = Some (v, n) \<longrightarrow> (n, k') \<in> set (m_list s) \<longrightarrow> k' = k)"
proof (cases "distinct (map fst (m_map s))")
  case True
  have "(x \<in> set (m_map s)) = (map_of (m_map s) (fst x) = Some (snd x))" for x
    using map_of_eq_Some_iff [OF True, of "fst x" "snd x"] by simp
  then show ?thesis by (auto simp: lru_inv_def Ball_def split_paired_all)
next
  case False
  then show ?thesis by (simp add: lru_inv_def)
qed

lemma lru_invD:
  assumes "lru_inv s"
  shows "distinct (map fst (m_map s))"
    and "distinct (map fst (m_list s))"
    and "distinct (map snd (m_list s))"
    and "\<And>n k. (n, k) \<in> set (m_list s) \<Longrightarrow> n < next_node s"
    and "\<And>n k v. map_of (m_map s) k = Some (v, n) \<Longrightarrow> n < next_node s"
    and "\<And>n k. (n, k) \<in> set (m_list s) \<Longrightarrow> \<exists>v. map_of (m_map s) k = Some (v, n)"
    and "\<And>k v n k'. map_of (m_map s) k = Some (v, n) \<Longrightarrow> (n, k') \<in> set (m_list s) \<Longrightarrow> k' = k"
  using iffD1 [OF lru_inv_alt assms] by blast+

lemma lru_order_distinct: "lru_inv s \<Longrightarrow> distinct (lru_order s)"
  by (simp add: lru_order_def lru_invD)

lemma lru_order_value:
  "lru_inv s \<Longrightarrow> k \<in> set (lru_order s) \<Longrightarrow> \<exists>v. lru_value s k = Some v"
  by (auto simp: lru_order_def lru_value_def dest: lru_invD(6))

text \<open>The node of a listed key is the one its map entry refers to.\<close>

lemma lru_node_of:
  assumes "lru_inv s" and "map_of (m_map s) k = Some (v, j)"
  shows "j \<in> fst ` set (m_list s) \<longleftrightarrow> k \<in> set (lru_order s)"
proof
  assume "j \<in> fst ` set (m_list s)"
  then obtain k' where "(j, k') \<in> set (m_list s)" by force
  with assms have "(j, k) \<in> set (m_list s)" by (metis lru_invD(7))
  then show "k \<in> set (lru_order s)" by (force simp: lru_order_def)
next
  assume "k \<in> set (lru_order s)"
  then obtain n where n: "(n, k) \<in> set (m_list s)" by (auto simp: lru_order_def)
  with assms have "n = j" by (fastforce dest: lru_invD(6))
  with n show "j \<in> fst ` set (m_list s)" by force
qed

lemma filter_node_order:
  assumes "distinct (map fst xs)" "distinct (map snd xs)" "(j, k) \<in> set xs"
  shows "map snd (filter (\<lambda>nd. fst nd \<noteq> j) xs) = remove1 k (map snd xs)"
  using assms
proof (induction xs)
  case (Cons x xs)
  show ?case
  proof (cases "x = (j, k)")
    case True
    with Cons.prems have "\<forall>nd \<in> set xs. fst nd \<noteq> j" by force
    then have "filter (\<lambda>nd. fst nd \<noteq> j) xs = xs" by simp
    with True show ?thesis by simp
  next
    case False
    with Cons.prems have "(j, k) \<in> set xs" by simp
    moreover from this have "j \<in> fst ` set xs" "k \<in> snd ` set xs" by force+
    moreover from this Cons.prems have "fst x \<noteq> j" "snd x \<noteq> k" by auto
    ultimately show ?thesis using Cons by simp
  qed
qed simp

section \<open>Every operation keeps the invariant\<close>

lemma lru_inv_new [inv_intros]: "lru_inv lru_new"
  by (simp add: lru_inv_def lru_new_def)

lemma lru_order_new [simp]: "lru_order lru_new = []"
  and lru_value_new [simp]: "lru_value lru_new k = None"
  by (simp_all add: lru_order_def lru_value_def lru_new_def)

lemma lru_order_push [simp]: "lru_order (lru_push_front k v s) = k # lru_order s"
  by (simp add: lru_order_def lru_push_front_def)

lemma lru_value_push [simp]: "lru_value (lru_push_front k v s) = (lru_value s)(k \<mapsto> v)"
  by (auto simp: lru_value_def lru_push_front_def update_conv' fun_eq_iff)

lemma lru_inv_push:
  assumes inv: "lru_inv s" and "k \<notin> set (lru_order s)"
  shows "lru_inv (lru_push_front k v s)"
proof -
  note D = lru_invD [OF inv]
  have fresh: "(next_node s, k') \<notin> set (m_list s)" for k' by (auto dest: D(4))
  have unused: "map_of (m_map s) k' \<noteq> Some (v', next_node s)" for k' v' by (auto dest: D(5))
  have dm: "distinct (map fst (AList.update k (v, next_node s) (m_map s)))"
    using D(1) by (rule distinct_update)
  have dl: "distinct (map fst (m_list (lru_push_front k v s)))"
    using D(2) fresh by (force simp: lru_push_front_def)
  have dk: "distinct (map snd (m_list (lru_push_front k v s)))"
    using D(3) assms(2) by (simp add: lru_push_front_def lru_order_def)
  have other: "(n, k) \<notin> set (m_list s)" for n
    using assms(2) by (force simp: lru_order_def)
  show ?thesis
    unfolding lru_inv_alt
    using dm dl dk fresh unused other D(4-7)
    by (auto simp: lru_push_front_def update_conv' less_Suc_eq split: if_splits)
qed

lemma lru_insert_new: "lru_value s k = None \<Longrightarrow> lru_insert k v s = lru_push_front k v s"
  by (auto simp: lru_insert_def lru_value_def split: option.splits)

lemma lru_insert_present [simp]: "lru_value s k = Some w \<Longrightarrow> lru_insert k v s = s"
  by (auto simp: lru_insert_def lru_value_def)

lemma lru_value_None_order: "lru_inv s \<Longrightarrow> lru_value s k = None \<Longrightarrow> k \<notin> set (lru_order s)"
  using lru_order_value by fastforce

lemma lru_inv_insert [inv_intros]: "lru_inv s \<Longrightarrow> lru_inv (lru_insert k v s)"
  by (cases "lru_value s k") (simp_all add: lru_insert_new lru_inv_push lru_value_None_order)

lemma lru_get_absent: "lru_value s k = None \<Longrightarrow> lru_get k s = Inr (None, s)"
  by (auto simp: lru_get_def lru_value_def split: option.splits)

lemma lru_get_limbo: "lru_inv s \<Longrightarrow> lru_limbo k s \<Longrightarrow> lru_get k s = Inl DanglingIterator"
  by (auto simp: lru_get_def lru_limbo_def lru_value_def lru_node_of)

text \<open>Taking a node out of the list leaves its key in limbo.\<close>

lemma lru_inv_unlink:
  assumes inv: "lru_inv s" and sub: "set xs \<subseteq> set (m_list s)"
    and dist: "distinct (map fst xs)" "distinct (map snd xs)"
  shows "lru_inv (s\<lparr>m_list := xs\<rparr>)"
proof -
  note D = lru_invD [OF inv]
  have "(n, k) \<in> set (m_list s)" if "(n, k) \<in> set xs" for n k using that sub by blast
  then show ?thesis
    unfolding lru_inv_alt using D(1,4-7) dist by auto
qed

lemma lru_get_present:
  assumes inv: "lru_inv s" and k: "k \<in> set (lru_order s)"
  shows "\<exists>v s'. lru_get k s = Inr (Some v, s') \<and> lru_value s k = Some v \<and> lru_inv s' \<and>
    lru_order s' = k # remove1 k (lru_order s) \<and> lru_value s' = lru_value s"
proof -
  note D = lru_invD [OF inv]
  from k obtain j where j: "(j, k) \<in> set (m_list s)" by (auto simp: lru_order_def)
  with D(6) obtain v where v: "map_of (m_map s) k = Some (v, j)" by blast
  let ?xs = "filter (\<lambda>nd. fst nd \<noteq> j) (m_list s)"
  let ?s = "s\<lparr>m_list := ?xs\<rparr>"
  have live: "j \<in> fst ` set (m_list s)" using j by force
  have val: "lru_value s k = Some v" using v by (simp add: lru_value_def)
  show ?thesis
  proof (cases "j = fst (hd (m_list s))")
    case True
    then obtain k' rest where m: "m_list s = (j, k') # rest"
      using j by (cases "m_list s") auto
    then have "k' = k" using D(7) [OF v] by simp
    then have "lru_order s = k # remove1 k (lru_order s)"
      using m by (simp add: lru_order_def)
    then show ?thesis using v live True val inv by (simp add: lru_get_def)
  next
    case False
    have ord: "lru_order ?s = remove1 k (lru_order s)"
      using filter_node_order [OF D(2,3) j] by (simp add: lru_order_def)
    have "lru_inv ?s"
      using inv D(2,3) by (intro lru_inv_unlink) (auto simp: distinct_map_filter)
    then have "lru_inv (lru_push_front k v ?s)"
      by (rule lru_inv_push) (simp add: ord lru_order_distinct [OF inv])
    moreover have "(lru_value ?s)(k \<mapsto> v) = lru_value s"
      using val by (auto simp: lru_value_def fun_eq_iff)
    ultimately show ?thesis using v live False val ord by (simp add: lru_get_def)
  qed
qed

lemma lru_evict_last:
  assumes inv: "lru_inv s" and ne: "lru_order s \<noteq> []"
  shows "\<exists>v s'. lru_evict s = Inr (v, s') \<and> lru_value s (last (lru_order s)) = Some v \<and>
    lru_inv s' \<and> lru_order s' = butlast (lru_order s) \<and> lru_value s' = lru_value s"
proof -
  note D = lru_invD [OF inv]
  obtain n k where l: "last (m_list s) = (n, k)" by fastforce
  have ne': "m_list s \<noteq> []" using ne by (simp add: lru_order_def)
  then have "(n, k) \<in> set (m_list s)" using l last_in_set by metis
  with D(6) obtain v where v: "map_of (m_map s) k = Some (v, n)" by blast
  have "lru_inv (s\<lparr>m_list := butlast (m_list s)\<rparr>)"
    using inv D(2,3) by (intro lru_inv_unlink) (auto simp: map_butlast distinct_butlast dest: in_set_butlastD)
  then show ?thesis
    using ne' l v
    by (simp add: lru_evict_def lru_order_def lru_value_def map_butlast last_map fun_eq_iff)
qed

lemma lru_evict_empty: "lru_order s = [] \<Longrightarrow> lru_evict s = Inl EmptyContainer"
  by (simp add: lru_evict_def lru_order_def)

lemma lru_order_erase [simp]: "lru_order (lru_erase k s) = lru_order s"
  by (simp add: lru_order_def lru_erase_def)

lemma lru_value_erase [simp]: "lru_value (lru_erase k s) = (lru_value s)(k := None)"
  by (auto simp: lru_value_def lru_erase_def delete_conv' fun_eq_iff)

lemma lru_inv_erase [inv_intros]:
  assumes inv: "lru_inv s" and k: "k \<notin> set (lru_order s)"
  shows "lru_inv (lru_erase k s)"
proof -
  note D = lru_invD [OF inv]
  have "(n, k) \<notin> set (m_list s)" for n using k by (force simp: lru_order_def)
  then show ?thesis
    unfolding lru_inv_alt using D
    by (auto simp: lru_erase_def delete_conv' distinct_delete split: if_splits)
qed

lemma lru_inv_clear [inv_intros]: "lru_inv (lru_clear s)"
  by (simp add: lru_inv_def lru_clear_def)

section \<open>The contract its clients rely on\<close>

text \<open>
  \<open>touch\<close> is how \<open>cacheAdd\<close> uses a recency cache: look the key up, insert it on a
  miss. \<open>drain\<close> is how \<open>FlashCache::Close\<close> and \<open>evictAllCommand\<close> use it: evict
  a given number of times.
\<close>

definition touch ::
  "('k \<Rightarrow> 's \<Rightarrow> ('v option \<times> 's) res) \<Rightarrow> ('k \<Rightarrow> 'v \<Rightarrow> 's \<Rightarrow> 's) \<Rightarrow> 'k \<Rightarrow> 'v \<Rightarrow> 's \<Rightarrow> 's res" where
  "touch get ins k v s =
     bnd (get k s) (\<lambda>(r, s'). Inr (case r of None \<Rightarrow> ins k v s' | Some _ \<Rightarrow> s'))"

fun touch_all ::
  "('k \<Rightarrow> 's \<Rightarrow> ('v option \<times> 's) res) \<Rightarrow> ('k \<Rightarrow> 'v \<Rightarrow> 's \<Rightarrow> 's) \<Rightarrow> ('k \<times> 'v) list \<Rightarrow> 's \<Rightarrow> 's res" where
  "touch_all get ins [] s = Inr s"
| "touch_all get ins ((k, v) # kvs) s = bnd (touch get ins k v s) (touch_all get ins kvs)"

fun drain :: "('s \<Rightarrow> ('v \<times> 's) res) \<Rightarrow> nat \<Rightarrow> 's \<Rightarrow> ('v list \<times> 's) res" where
  "drain evi 0 s = Inr ([], s)"
| "drain evi (Suc n) s =
     bnd (evi s) (\<lambda>(v, s'). bnd (drain evi n s') (\<lambda>(vs, s''). Inr (v # vs, s'')))"

locale recency_cache =
  fixes inv :: "'s \<Rightarrow> bool"
    and order :: "'s \<Rightarrow> 'k list"
    and val :: "'s \<Rightarrow> 'k \<Rightarrow> 'v option"
    and ins :: "'k \<Rightarrow> 'v \<Rightarrow> 's \<Rightarrow> 's"
    and get :: "'k \<Rightarrow> 's \<Rightarrow> ('v option \<times> 's) res"
    and evi :: "'s \<Rightarrow> ('v \<times> 's) res"
    and era :: "'k \<Rightarrow> 's \<Rightarrow> 's"
  assumes order_distinct: "inv s \<Longrightarrow> distinct (order s)"
    and order_value: "inv s \<Longrightarrow> k \<in> set (order s) \<Longrightarrow> \<exists>v. val s k = Some v"
    and ins_absent: "inv s \<Longrightarrow> val s k = None \<Longrightarrow>
      inv (ins k v s) \<and> order (ins k v s) = k # order s \<and> val (ins k v s) = (val s)(k \<mapsto> v)"
    and ins_present: "val s k = Some w \<Longrightarrow> ins k v s = s"
    and get_absent: "val s k = None \<Longrightarrow> get k s = Inr (None, s)"
    and get_present: "inv s \<Longrightarrow> k \<in> set (order s) \<Longrightarrow>
      \<exists>v s'. get k s = Inr (Some v, s') \<and> val s k = Some v \<and> inv s' \<and>
        order s' = k # remove1 k (order s) \<and> val s' = val s"
    and evict_last: "inv s \<Longrightarrow> order s \<noteq> [] \<Longrightarrow>
      \<exists>v s'. evi s = Inr (v, s') \<and> val s (last (order s)) = Some v \<and> inv s' \<and>
        order s' = butlast (order s) \<and> val s' = val s"
    and erase_law: "inv s \<Longrightarrow> k \<notin> set (order s) \<Longrightarrow>
      inv (era k s) \<and> order (era k s) = order s \<and> val (era k s) = (val s)(k := None)"
begin

text \<open>No key in limbo: the states between two complete operations of a client.\<close>

definition settled :: "'s \<Rightarrow> bool" where
  "settled s \<longleftrightarrow> inv s \<and> (\<forall>k. val s k \<noteq> None \<longrightarrow> k \<in> set (order s))"

lemma touch_settled:
  assumes "settled s"
  shows "\<exists>s'. touch get ins k v s = Inr s' \<and> settled s' \<and>
    rev (order s') = remdups (rev (order s) @ [k]) \<and>
    val s' = (if val s k = None then (val s)(k \<mapsto> v) else val s)"
proof (cases "val s k")
  case None
  then have k: "k \<notin> set (order s)" using assms order_value by (fastforce simp: settled_def)
  then have "rev (k # order s) = remdups (rev (order s) @ [k])"
    using rev_promote [of "order s" k] order_distinct assms
    by (simp add: settled_def remove1_idem)
  then show ?thesis
    using None assms ins_absent [of s k v] get_absent [OF None]
    by (auto simp: touch_def settled_def)
next
  case (Some w)
  then have "k \<in> set (order s)" using assms by (simp add: settled_def)
  with assms get_present [of s k] obtain u s' where
    "get k s = Inr (Some u, s')" "inv s'" "order s' = k # remove1 k (order s)" "val s' = val s"
    by (auto simp: settled_def)
  then show ?thesis
    using assms Some rev_promote [OF order_distinct, of s k]
    by (auto simp: touch_def settled_def set_remove1_eq order_distinct)
qed

lemma touch_all_order:
  assumes "settled s"
  shows "\<exists>s'. touch_all get ins kvs s = Inr s' \<and> settled s' \<and>
    rev (order s') = remdups (rev (order s) @ map fst kvs) \<and>
    val s' = (\<lambda>k. case val s k of Some v \<Rightarrow> Some v | None \<Rightarrow> map_of kvs k)"
  using assms
proof (induction kvs arbitrary: s)
  case Nil
  then show ?case
    by (auto simp: settled_def order_distinct distinct_remdups_id fun_eq_iff split: option.splits)
next
  case (Cons kv kvs)
  obtain k v where kv: "kv = (k, v)" by fastforce
  from touch_settled [OF Cons.prems, of k v] obtain s1 where s1:
    "touch get ins k v s = Inr s1" "settled s1"
    "rev (order s1) = remdups (rev (order s) @ [k])"
    "val s1 = (if val s k = None then (val s)(k \<mapsto> v) else val s)" by blast
  from Cons.IH [OF s1(2)] obtain s2 where s2:
    "touch_all get ins kvs s1 = Inr s2" "settled s2"
    "rev (order s2) = remdups (rev (order s1) @ map fst kvs)"
    "val s2 = (\<lambda>k. case val s1 k of Some v \<Rightarrow> Some v | None \<Rightarrow> map_of kvs k)" by blast
  have "remdups (rev (order s1) @ map fst kvs) = remdups ((rev (order s) @ [k]) @ map fst kvs)"
    unfolding s1(3) by (rule remdups_remdups_append)
  then show ?case using s1 s2 kv by (auto simp: fun_eq_iff split: option.splits)
qed

lemma drain_all:
  "inv s \<Longrightarrow> n \<le> length (order s) \<Longrightarrow>
   \<exists>vs s'. drain evi n s = Inr (vs, s') \<and> inv s' \<and>
     map Some vs = map (val s) (take n (rev (order s))) \<and>
     order s' = take (length (order s) - n) (order s) \<and> val s' = val s"
proof (induction n arbitrary: s)
  case (Suc n)
  then have ne: "order s \<noteq> []" by auto
  with Suc.prems evict_last obtain v s1 where s1: "evi s = Inr (v, s1)"
    "val s (last (order s)) = Some v" "inv s1" "order s1 = butlast (order s)" "val s1 = val s"
    by metis
  have "n \<le> length (order s1)" using Suc.prems(2) s1(4) by simp
  from Suc.IH [OF s1(3) this] s1 obtain vs s2 where
    "drain evi n s1 = Inr (vs, s2)" "inv s2"
    "map Some vs = map (val s1) (take n (rev (order s1)))"
    "order s2 = take (length (order s1) - n) (order s1)" "val s2 = val s1" by auto
  moreover have "take (Suc n) (rev (order s)) = last (order s) # take n (rev (butlast (order s)))"
    using ne by (cases "order s" rule: rev_cases) auto
  moreover have "take (length (order s) - Suc n) (butlast (order s)) =
      take (length (order s) - Suc n) (order s)"
    using ne by (cases "order s" rule: rev_cases) auto
  ultimately show ?case using s1 by simp
qed simp

text \<open>Eviction returns the values in the order in which their keys were last used.\<close>

lemma lru_discipline:
  assumes "settled s" and "order s = []"
  shows "\<exists>s1 vs s2. touch_all get ins kvs s = Inr s1 \<and>
    drain evi (length (order s1)) s1 = Inr (vs, s2) \<and> order s2 = [] \<and>
    map Some vs = map (map_of kvs) (remdups (map fst kvs))"
proof -
  from touch_all_order [OF assms(1), of kvs] assms obtain s1 where s1:
    "touch_all get ins kvs s = Inr s1" "settled s1"
    "rev (order s1) = remdups (map fst kvs)"
    "val s1 = (\<lambda>k. case val s k of Some v \<Rightarrow> Some v | None \<Rightarrow> map_of kvs k)" by auto
  have "val s k = None" for k using assms by (auto simp: settled_def)
  with s1 have "val s1 = map_of kvs" by (simp add: fun_eq_iff)
  moreover obtain vs s2 where "drain evi (length (order s1)) s1 = Inr (vs, s2)"
    "map Some vs = map (val s1) (rev (order s1))" "order s2 = []"
    using drain_all [of s1 "length (order s1)"] s1(2) by (auto simp: settled_def)
  ultimately show ?thesis using s1 by auto
qed

text \<open>Evicting and erasing the evicted key together keep the cache settled.\<close>

lemma evict_erase_settled:
  assumes "settled s" and "order s \<noteq> []"
  shows "\<exists>v s'. evi s = Inr (v, s') \<and> val s (last (order s)) = Some v \<and>
    settled (era (last (order s)) s') \<and>
    order (era (last (order s)) s') = butlast (order s) \<and>
    val (era (last (order s)) s') = (val s)(last (order s) := None)"
proof -
  let ?k = "last (order s)"
  have "inv s" using assms by (simp add: settled_def)
  from evict_last [OF this assms(2)] obtain v s' where s': "evi s = Inr (v, s')"
    "val s ?k = Some v" "inv s'" "order s' = butlast (order s)" "val s' = val s" by blast
  have "?k \<notin> set (order s')"
    using assms s' order_distinct by (simp add: settled_def distinct_butlast_last)
  with s' erase_law have e: "inv (era ?k s')" "order (era ?k s') = butlast (order s)"
    "val (era ?k s') = (val s)(?k := None)" by auto
  have "k \<in> set (butlast (order s))" if "val s k \<noteq> None" "k \<noteq> ?k" for k
    using that assms last_in_butlast_append [OF assms(2)]
    by (metis Un_iff empty_iff insert_iff list.set set_append settled_def)
  with e have "settled (era ?k s')" by (simp add: settled_def)
  with s' e show ?thesis by blast
qed

end

interpretation lru: recency_cache lru_inv lru_order lru_value lru_insert lru_get lru_evict lru_erase
proof unfold_locales
  fix s :: "('k, 'v) lru_cache" and k v
  assume "lru_inv s" "lru_value s k = None"
  then show "lru_inv (lru_insert k v s) \<and> lru_order (lru_insert k v s) = k # lru_order s \<and>
    lru_value (lru_insert k v s) = (lru_value s)(k \<mapsto> v)"
    by (simp add: lru_insert_new lru_inv_push lru_value_None_order)
qed (simp_all add: lru_order_distinct lru_order_value lru_get_absent lru_get_present
      lru_evict_last lru_inv_erase)

lemma lru_settled_def: "lru.settled s \<longleftrightarrow>
  lru_inv s \<and> (\<forall>k. lru_value s k \<noteq> None \<longrightarrow> k \<in> set (lru_order s))"
  by (rule lru.settled_def)

lemma lru_settled_new [simp]: "lru.settled lru_new"
  by (simp add: lru_settled_def lru_inv_new)

section \<open>Properties\<close>

text \<open>
  C33: least recently used goes first. On a new cache, look up each key of a sequence of
  requests and insert it when it is absent, as \<open>cacheAdd\<close> does; then evict until the list is
  empty. The values come out in the order in which their keys were last requested, each key
  once, each with the value it was first inserted with, and no eviction fails.
\<close>

theorem lru_eviction_order:
  "\<exists>s1 vs s2. touch_all lru_get lru_insert kvs (lru_new :: ('k, 'v) lru_cache) = Inr s1 \<and>
     drain lru_evict (length (lru_order s1)) s1 = Inr (vs, s2) \<and> lru_order s2 = [] \<and>
     map Some vs = map (map_of kvs) (remdups (map fst kvs))"
  by (rule lru.lru_discipline) simp_all

end
