(* ===== verification/Containers.thy ===== *)
theory Containers
  imports LruCache
begin

text \<open>
  The C interface to the C++ containers (\<open>util_c++.cc\<close>): the job queue, the FIFO
  list and the recency cache keyed by C strings. A container of pointers is a list of its
  elements, front first. \<open>front\<close>, \<open>back\<close> and \<open>pop\<close> of an empty container have no
  defined behaviour.
\<close>

section \<open>Sizes as C ints\<close>

text \<open>A \<open>size_t\<close> returned as \<open>int\<close>: the low 32 bits, read as signed.\<close>

definition int_of_size :: "nat \<Rightarrow> int" where
  "int_of_size n = sint (word_of_nat n :: 32 word)"

lemma int_of_size_small [simp]: "n < 2 ^ 31 \<Longrightarrow> int_of_size n = int n"
  by (simp add: int_of_size_def signed_of_nat signed_take_bit_int_eq_self)

section \<open>The job queue\<close>

definition QueueCreate :: "'a list" where
  "QueueCreate = []"

definition QueueEnqueue :: "'a list \<Rightarrow> 'a \<Rightarrow> 'a list" where
  "QueueEnqueue q x = q @ [x]"

definition QueueDequeue :: "'a list \<Rightarrow> ('a \<times> 'a list) res" where
  "QueueDequeue q = (case q of [] \<Rightarrow> Inl EmptyContainer | x # xs \<Rightarrow> Inr (x, xs))"

definition QueueSize :: "'a list \<Rightarrow> int" where
  "QueueSize q = (if q \<noteq> [] then int_of_size (length q) else 0)"

section \<open>The list\<close>

definition ListCreate :: "'a list" where
  "ListCreate = []"

definition ListPushFront :: "'a list \<Rightarrow> 'a \<Rightarrow> 'a list" where
  "ListPushFront q x = x # q"

definition ListPushBack :: "'a list \<Rightarrow> 'a \<Rightarrow> 'a list" where
  "ListPushBack q x = q @ [x]"

definition ListPopFront :: "'a list \<Rightarrow> ('a \<times> 'a list) res" where
  "ListPopFront q = (case q of [] \<Rightarrow> Inl EmptyContainer | x # xs \<Rightarrow> Inr (x, xs))"

definition ListPopBack :: "'a list \<Rightarrow> ('a \<times> 'a list) res" where
  "ListPopBack q = (if q = [] then Inl EmptyContainer else Inr (last q, butlast q))"

definition ListSize :: "'a list \<Rightarrow> int" where
  "ListSize q = (if q \<noteq> [] then int_of_size (length q) else 0)"

section \<open>First in, first out\<close>

text \<open>
  What the tiering thread and the evictor rely on: elements leave in the order in which
  they were put in. The queue, the list used from front to back and the list used from
  back to front all provide it.
\<close>

datatype 'a qop = Enq 'a | Deq

fun qrun :: "('q \<Rightarrow> 'a \<Rightarrow> 'q) \<Rightarrow> ('q \<Rightarrow> ('a \<times> 'q) res) \<Rightarrow> 'a qop list \<Rightarrow> 'q \<Rightarrow> ('a list \<times> 'q) res" where
  "qrun enq deq [] q = Inr ([], q)"
| "qrun enq deq (Enq x # ops) q = qrun enq deq ops (enq q x)"
| "qrun enq deq (Deq # ops) q =
     bnd (deq q) (\<lambda>(x, q'). bnd (qrun enq deq ops q') (\<lambda>(xs, q''). Inr (x # xs, q'')))"

fun enqueued :: "'a qop list \<Rightarrow> 'a list" where
  "enqueued [] = []"
| "enqueued (Enq x # ops) = x # enqueued ops"
| "enqueued (Deq # ops) = enqueued ops"

locale fifo =
  fixes contents :: "'q \<Rightarrow> 'a list"
    and enq :: "'q \<Rightarrow> 'a \<Rightarrow> 'q"
    and deq :: "'q \<Rightarrow> ('a \<times> 'q) res"
  assumes contents_enq: "contents (enq q x) = contents q @ [x]"
    and deq_empty: "contents q = [] \<Longrightarrow> deq q = Inl EmptyContainer"
    and deq_first: "contents q = x # xs \<Longrightarrow> \<exists>q'. deq q = Inr (x, q') \<and> contents q' = xs"
begin

lemma deq_Inr: "deq q = Inr (x, q') \<Longrightarrow> contents q = x # contents q'"
  using deq_empty [of q] deq_first [of q] by (cases "contents q") fastforce+

text \<open>Whatever the interleaving, what comes out and what is left is what went in, in order.\<close>

lemma fifo_order:
  "qrun enq deq ops q = Inr (outs, q') \<Longrightarrow> contents q @ enqueued ops = outs @ contents q'"
proof (induction ops arbitrary: q outs)
  case (Cons op ops)
  show ?case
  proof (cases op)
    case (Enq x)
    with Cons.prems have "qrun enq deq ops (enq q x) = Inr (outs, q')" by simp
    from Cons.IH [OF this] Enq show ?thesis by (simp add: contents_enq)
  next
    case Deq
    with Cons.prems obtain x q1 outs' where "deq q = Inr (x, q1)"
      "qrun enq deq ops q1 = Inr (outs', q')" "outs = x # outs'"
      by (auto simp: bnd_eq_Inr)
    with Cons.IH [of q1 outs'] deq_Inr [of q x q1] Deq show ?thesis by simp
  qed
qed simp

end

interpretation job_queue: fifo "\<lambda>q. q" QueueEnqueue QueueDequeue
  by unfold_locales (simp_all add: QueueEnqueue_def QueueDequeue_def)

interpretation back_list: fifo "\<lambda>q. q" ListPushBack ListPopFront
  by unfold_locales (simp_all add: ListPushBack_def ListPopFront_def)

interpretation front_list: fifo rev ListPushFront ListPopBack
proof unfold_locales
  fix q :: "'a list" and x xs
  assume "rev q = x # xs"
  then have "q = rev xs @ [x]" by (metis rev.simps(2) rev_rev_ident)
  then show "\<exists>q'. ListPopBack q = Inr (x, q') \<and> rev q' = xs" by (simp add: ListPopBack_def)
qed (simp_all add: ListPushFront_def ListPopBack_def)

section \<open>The recency cache behind the C interface\<close>

text \<open>
  Keys arrive as C strings; \<open>std::string key_(_key)\<close> copies the bytes before the
  terminator. \<open>LRUCacheEvict\<close> and \<open>LRUCacheSize\<close> test \<open>empty()\<close>, which looks at
  the map, and then use the list.
\<close>

type_synonym 'v str_lru = "(byte list, 'v) lru_cache"

definition LRUCacheCreate :: "'v str_lru" where
  "LRUCacheCreate = lru_new"

definition LRUCacheInsert :: "'v str_lru \<Rightarrow> byte list \<Rightarrow> 'v \<Rightarrow> 'v str_lru" where
  "LRUCacheInsert c key v = lru_insert (until_nul key) v c"

definition LRUCacheGet :: "'v str_lru \<Rightarrow> byte list \<Rightarrow> ('v option \<times> 'v str_lru) res" where
  "LRUCacheGet c key = lru_get (until_nul key) c"

definition LRUCacheEvict :: "'v str_lru \<Rightarrow> ('v option \<times> 'v str_lru) res" where
  "LRUCacheEvict c =
     (if \<not> lru_empty c then bnd (lru_evict c) (\<lambda>(v, c'). Inr (Some v, c'))
      else Inr (None, c))"

definition LRUCacheErase :: "'v str_lru \<Rightarrow> byte list \<Rightarrow> 'v str_lru" where
  "LRUCacheErase c key = lru_erase (until_nul key) c"

definition LRUCacheSize :: "'v str_lru \<Rightarrow> int" where
  "LRUCacheSize c = (if \<not> lru_empty c then int_of_size (lru_size c) else 0)"

text \<open>A positive size is what makes an eviction safe.\<close>

lemma LRUCacheEvict_safe:
  assumes "lru_inv c" and "0 < LRUCacheSize c"
  shows "\<exists>v c'. LRUCacheEvict c = Inr (Some v, c') \<and> lru_value c (last (lru_order c)) = Some v \<and>
    lru_inv c' \<and> lru_order c' = butlast (lru_order c) \<and> lru_value c' = lru_value c"
proof -
  have "\<not> lru_empty c" "m_list c \<noteq> []"
    using assms(2) by (auto simp: LRUCacheSize_def lru_size_def int_of_size_def split: if_splits)
  then show ?thesis
    using lru_evict_last [OF assms(1)] by (fastforce simp: LRUCacheEvict_def lru_order_def)
qed

section \<open>Properties\<close>

text \<open>
  The pair of calls with which \<open>FlashCache::Metadata\<close> and the tiering thread drop the
  oldest entry is safe: on a cache with at most \<open>INT_MAX\<close> elements whose size is reported
  positive, \<open>LRUCacheEvict\<close> returns the value of the key at the back of the list, and
  after \<open>LRUCacheErase\<close> of that key the cache is again one in which every key is listed and
  which holds all the other keys.
\<close>

lemma LRUCacheEvict_Erase:
  assumes "lru.settled c" and "0 < LRUCacheSize c" and "no_nul (last (lru_order c))"
  shows "\<exists>v c'. LRUCacheEvict c = Inr (Some v, c') \<and> lru_value c (last (lru_order c)) = Some v \<and>
    lru.settled (LRUCacheErase c' (last (lru_order c))) \<and>
    lru_order (LRUCacheErase c' (last (lru_order c))) = butlast (lru_order c) \<and>
    lru_value (LRUCacheErase c' (last (lru_order c))) = (lru_value c)(last (lru_order c) := None)"
proof -
  have size: "\<not> lru_empty c" "lru_order c \<noteq> []"
    using assms(2) by (auto simp: LRUCacheSize_def lru_size_def int_of_size_def lru_order_def split: if_splits)
  with lru.evict_erase_settled [OF assms(1) size(2)] assms(3) show ?thesis
    by (auto simp: LRUCacheEvict_def LRUCacheErase_def)
qed

end
