(* ===== verification/Protocol.thy ===== *)
theory Protocol
  imports Util Allocator
begin

text \<open>
  Requests: \<open>parsingMessage\<close> of \<open>util.c\<close> on the client's buffer. The buffer has
  \<open>KV_IOBUF_LEN\<close> bytes; what a request does not overwrite is left from before. The parser
  writes terminators into it.
\<close>

section \<open>The client\<close>

definition KV_IOBUF_LEN :: nat where
  "KV_IOBUF_LEN = 16384"

text \<open>
  A cell of \<open>argv\<close>: an object, a pointer to an object that was freed, or a cell of fresh
  memory. \<open>cl_argv\<close> is \<open>None\<close> before the first request has been parsed.
\<close>

datatype arg_cell = Live kvObject | Freed | Fresh

record kvClient =
  cl_argc :: int
  cl_argv :: "arg_cell list option"
  cl_buf :: "byte list"
  cl_len :: u32

text \<open>The object \<open>c->argv[i]\<close> points to.\<close>

definition client_arg :: "nat \<Rightarrow> kvClient \<Rightarrow> kvObject res" where
  "client_arg i c =
     (case cl_argv c of
        None \<Rightarrow> Inl Uninitialised
      | Some cells \<Rightarrow>
          (if i < length cells then
             (case cells ! i of
                Live ob \<Rightarrow> Inr ob
              | Freed \<Rightarrow> Inl UseAfterFree
              | Fresh \<Rightarrow> Inl Uninitialised)
           else Inl OutOfBounds))"

section \<open>The parser\<close>

text \<open>\<open>strchr\<close>: the distance to the first occurrence before the terminator.\<close>

fun c_strchr :: "byte list \<Rightarrow> byte \<Rightarrow> nat option res" where
  "c_strchr [] ch = Inl OutOfBounds"
| "c_strchr (c # cs) ch =
     (if c = ch then Inr (Some 0) else if c = NUL then Inr None
      else bnd (c_strchr cs ch) (\<lambda>r. Inr (map_option Suc r)))"

text \<open>
  The loop: \<open>n\<close> arguments to go, \<open>pos\<close>, and \<open>len\<close>, which keeps its value when
  \<open>string2ll\<close> fails, for its result is not tested. Without a carriage return the code
  computes with a null pointer.
\<close>

fun parse_args :: "nat \<Rightarrow> int \<Rightarrow> int \<Rightarrow> kvClient \<times> u32 \<Rightarrow> (kvClient \<times> u32) res" where
  "parse_args 0 pos len0 (c, um) = Inr (c, um)"
| "parse_args (Suc n) pos len0 (c, um) =
     (if pos < 0 \<or> int (length (cl_buf c)) \<le> pos then Inl OutOfBounds
      else
        (let s = drop (nat pos) (cl_buf c) in
         bnd (c_strchr s CR) (\<lambda>nl.
           if hd s \<noteq> CHR ''$'' then Inr (c, um)
           else
             (case nl of
                None \<Rightarrow> Inl NullDeref
              | Some nl \<Rightarrow>
                  bnd (string2ll (tl s) (nl + 1)) (\<lambda>r.
                    let len = (case r of None \<Rightarrow> len0 | Some v \<Rightarrow> v);
                        pos1 = pos + int nl + 2
                    in
                    if len < 0 \<or> int (length (cl_buf c)) \<le> pos1 + len then Inl OutOfBounds
                    else
                      (let buf = (cl_buf c)[nat (pos1 + len) := NUL] in
                       bnd (createObject (Some (drop (nat pos1) buf)) (nat len)) (\<lambda>ob.
                         let argc = nat (cl_argc c);
                             argv = map_option (\<lambda>cells. cells[argc := Live ob]) (cl_argv c)
                         in parse_args n (pos1 + len + 2) len
                              (c\<lparr>cl_buf := buf, cl_argv := argv, cl_argc := cl_argc c + 1,
                                 cl_len := word_of_int len\<rparr>,
                               charge (object_bytes (nat len)) um))))))))"

text \<open>
  The whole function. The count is one character; \<open>argv\<close> gets that many cells. With a
  negative count \<open>malloc\<close> is asked for more than half the address space and fails.
\<close>

definition parsingMessage :: "kvClient \<Rightarrow> u32 \<Rightarrow> (kvClient \<times> u32) res" where
  "parsingMessage c um =
     (case cl_buf c of
        ch # ch1 # _ \<Rightarrow>
          (if ch \<noteq> CHR ''*'' then Inr (c, um)
           else
             bnd (c_strchr (cl_buf c) CR) (\<lambda>nl.
               (case nl of
                  None \<Rightarrow> Inr (c, um)
                | Some nl \<Rightarrow>
                    (let msg_len = sint (of_char ch1 :: u8) - 48 in
                     if msg_len < 0 then Inl NullDeref
                     else
                       parse_args (nat msg_len) (int nl + 2) 0
                         (c\<lparr>cl_argc := 0, cl_argv := Some (replicate (nat msg_len) Fresh)\<rparr>,
                          charge (8 * nat msg_len) um)))))
      | _ \<Rightarrow> Inl OutOfBounds)"

section \<open>The request a client sends\<close>

definition enc_arg :: "byte list \<Rightarrow> byte list" where
  "enc_arg a = ''$'' @ dec (length a) @ [CR, LF] @ a @ [CR, LF]"

definition enc_request :: "byte list list \<Rightarrow> byte list" where
  "enc_request args = ''*'' @ dec (length args) @ [CR, LF] @ concat (map enc_arg args)"

definition arg_object :: "byte list \<Rightarrow> kvObject" where
  "arg_object a = \<lparr>kv_where = KV_LOC_MEM, refcount = 1, readcount = 0, writecount = 0,
     ptr = \<lparr>msg_len = word_of_nat (length a), msg_buf = a @ [NUL]\<rparr>\<rparr>"

section \<open>Parsing inverts encoding\<close>

lemma c_strchr_mid: "ch \<notin> set s \<Longrightarrow> no_nul s \<Longrightarrow> c_strchr (s @ ch # t) ch = Inr (Some (length s))"
  by (induction s) auto

lemma no_cr_dec: "CR \<notin> set (dec n)"
  by (auto dest: dec_digits)

lemma c_strchr_header:
  assumes "c \<noteq> CR" "c \<noteq> NUL"
  shows "c_strchr (c # dec n @ CR # t) CR = Inr (Some (Suc (length (dec n))))"
  using c_strchr_mid [of CR "c # dec n" t] assms no_cr_dec [of n] by auto

lemma drop_exact: "n = length xs \<Longrightarrow> drop n (xs @ ys) = ys"
  by simp

lemma enc_arg_append:
  "enc_arg a @ t = CHR ''$'' # dec (length a) @ CR # LF # a @ CR # LF # t"
  by (simp add: enc_arg_def)

text \<open>The client after the first \<open>i\<close> of \<open>m\<close> cells are filled.\<close>

text \<open>One turn of the loop, on an argument that has been encoded.\<close>

lemma parse_args_turn:
  assumes a: "a \<noteq> []" "length a < 2 ^ 31" and c: "cl_buf c = pre @ enc_arg a @ t"
    and argv: "cl_argv c = Some (cells @ Fresh # fresh)" "cl_argc c = int (length cells)"
  defines "pre' \<equiv> pre @ CHR ''$'' # dec (length a) @ [CR, LF] @ a @ [NUL, LF]"
  shows "parse_args (Suc n) (int (length pre)) len0 (c, um) =
    parse_args n (int (length pre')) (int (length a))
      (c\<lparr>cl_buf := pre' @ t, cl_argv := Some ((cells @ [Live (arg_object a)]) @ fresh),
        cl_argc := cl_argc c + 1, cl_len := word_of_int (int (length a))\<rparr>, charge (object_bytes (length a)) um)"
proof -
  let ?n = "length a" and ?d = "dec (length a)"
  have buf: "cl_buf c = pre @ CHR ''$'' # ?d @ CR # LF # a @ CR # LF # t"
    using c by (simp add: enc_arg_append)
  let ?pos = "length pre" and ?p1 = "length pre + length ?d + 3"
  have s: "drop ?pos (cl_buf c) = CHR ''$'' # ?d @ CR # LF # a @ CR # LF # t" by (simp add: buf)
  have nl: "c_strchr (CHR ''$'' # ?d @ CR # LF # a @ CR # LF # t) CR = Inr (Some (Suc (length ?d)))"
    by (rule c_strchr_header) simp_all
  have num: "string2ll (?d @ CR # LF # a @ CR # LF # t) (Suc (length ?d) + 1) = Inr (Some (int ?n))"
    using a by (intro string2ll_dec) auto
  let ?buf = "pre' @ t" and ?l = "pre @ CHR ''$'' # ?d @ [CR, LF] @ a"
  have "cl_buf c = ?l @ CR # LF # t" "?p1 + ?n = length ?l" by (simp_all add: buf)
  then have upd: "(cl_buf c)[?p1 + ?n := NUL] = ?buf" by (simp only: list_update_length) (simp add: pre'_def)
  have "?buf = (pre @ CHR ''$'' # ?d @ [CR, LF]) @ a @ NUL # LF # t" by (simp add: pre'_def)
  then have drp: "drop ?p1 ?buf = a @ NUL # LF # t"
    by (simp only:) (rule drop_exact, simp)
  have obj: "createObject (Some (drop ?p1 ?buf)) ?n = Inr (arg_object a)"
    unfolding drp by (simp add: createObject_Some arg_object_def)
  have inb: "int ?p1 + int ?n < int (length (cl_buf c))" by (simp add: buf)
  have cell: "map_option (\<lambda>cells. cells[nat (cl_argc c) := Live (arg_object a)]) (cl_argv c) =
      Some ((cells @ [Live (arg_object a)]) @ fresh)"
    using argv by (simp add: list_update_append)
  have p1: "int ?pos + int (Suc (length ?d)) + 2 = int ?p1" by simp
  have p2: "nat (int ?p1 + int ?n) = ?p1 + ?n" by simp
  have p3: "int ?p1 + int ?n + 2 = int (length pre')" by (simp add: pre'_def)
  have p4: "\<not> (int ?pos < 0 \<or> int (length (cl_buf c)) \<le> int ?pos)" by (simp add: buf)
  have p5: "\<not> (int ?n < 0 \<or> int (length (cl_buf c)) \<le> int ?p1 + int ?n)" using inb by simp
  show ?thesis
    unfolding parse_args.simps p4 if_False Let_def nat_int s nl
      bnd_simps list.sel num option.case p1 p5 p2 upd obj cell p3 using inb by simp
qed

lemma parse_args_enc:
  assumes "\<forall>a \<in> set args. a \<noteq> [] \<and> length a < 2 ^ 31"
    and "cl_buf c = pre @ concat (map enc_arg args) @ rest"
    and "cl_argv c = Some (cells @ replicate (length args) Fresh)"
    and "cl_argc c = int (length cells)"
  shows "\<exists>c' um'. parse_args (length args) (int (length pre)) len0 (c, um) = Inr (c', um') \<and>
    cl_argv c' = Some (cells @ map (Live \<circ> arg_object) args) \<and>
    cl_argc c' = int (length cells + length args) \<and>
    length (cl_buf c') = length (cl_buf c) \<and>
    um' = fold (\<lambda>a. charge (object_bytes (length a))) args um"
  using assms
proof (induction args arbitrary: c pre cells len0 um)
  case (Cons a args)
  let ?n = "length a" and ?t = "concat (map enc_arg args) @ rest"
  let ?pre = "pre @ CHR ''$'' # dec (length a) @ [CR, LF] @ a @ [NUL, LF]"
  let ?c = "c\<lparr>cl_buf := ?pre @ ?t, cl_argv := Some ((cells @ [Live (arg_object a)]) @ replicate (length args) Fresh),
    cl_argc := cl_argc c + 1, cl_len := word_of_int (int ?n)\<rparr>"
  have a: "a \<noteq> []" "?n < 2 ^ 31" and buf: "cl_buf c = pre @ enc_arg a @ ?t"
    and argv: "cl_argv c = Some (cells @ Fresh # replicate (length args) Fresh)"
    using Cons.prems(1-3) by simp_all
  note step = parse_args_turn [OF a buf argv Cons.prems(4), of "length args" len0 um]
  have "\<exists>c' um'. parse_args (length args) (int (length ?pre)) (int ?n) (?c, charge (object_bytes ?n) um) = Inr (c', um') \<and>
    cl_argv c' = Some ((cells @ [Live (arg_object a)]) @ map (Live \<circ> arg_object) args) \<and>
    cl_argc c' = int (length (cells @ [Live (arg_object a)]) + length args) \<and>
    length (cl_buf c') = length (cl_buf ?c) \<and>
    um' = fold (\<lambda>a. charge (object_bytes (length a))) args (charge (object_bytes ?n) um)"
    using Cons.prems by (intro Cons.IH) auto
  then show ?case unfolding list.size(4) add_Suc_right add_0_right step by (auto simp: buf enc_arg_append)
qed simp

text \<open>The count is a single digit, read as a signed character.\<close>

lemma count_char:
  assumes "n < 10"
  shows "dec n = [char_of (48 + n)]" "sint (of_char (char_of (48 + n) :: byte) :: u8) - 48 = int n"
proof -
  show "dec n = [char_of (48 + n)]" using assms by (simp add: dec.simps [of n])
  have "(of_char (char_of (48 + n) :: byte) :: u8) = of_nat (of_char (char_of (48 + n) :: byte))"
    by (rule of_nat_of_char [symmetric])
  also have "(of_char (char_of (48 + n) :: byte) :: nat) = 48 + n" using assms by simp
  finally have w: "(of_char (char_of (48 + n) :: byte) :: u8) = of_nat (48 + n)" .
  have "int (48 + n) < 2 ^ 7" using assms by simp
  then have "sint (of_nat (48 + n) :: u8) = int (48 + n)"
    by (simp add: signed_of_nat signed_take_bit_int_eq_self del: of_nat_add)
  with w show "sint (of_char (char_of (48 + n) :: byte) :: u8) - 48 = int n" by simp
qed

theorem parsingMessage_enc:
  assumes "length args < 10" and "\<forall>a \<in> set args. a \<noteq> [] \<and> length a < 2 ^ 31"
    and "cl_buf c = enc_request args @ rest"
  shows "\<exists>c' um'. parsingMessage c um = Inr (c', um') \<and>
    cl_argv c' = Some (map (Live \<circ> arg_object) args) \<and> cl_argc c' = int (length args) \<and>
    length (cl_buf c') = length (cl_buf c) \<and>
    um' = fold (\<lambda>a. charge (object_bytes (length a))) args (charge (8 * length args) um)"
proof -
  let ?n = "length args" and ?ch = "char_of (48 + length args) :: byte"
  note n = count_char [OF assms(1)]
  have buf: "cl_buf c = CHR ''*'' # ?ch # CR # LF # concat (map enc_arg args) @ rest"
    using assms(3) by (simp add: enc_request_def n(1))
  have nl: "c_strchr (CHR ''*'' # ?ch # CR # LF # concat (map enc_arg args) @ rest) CR = Inr (Some 2)"
    using c_strchr_header [of "CHR ''*''" "?n" "LF # concat (map enc_arg args) @ rest"]
    by (simp add: n(1))
  let ?c = "c\<lparr>cl_argc := 0, cl_argv := Some (replicate ?n Fresh)\<rparr>"
  have "parsingMessage c um =
      parse_args ?n (int (length [CHR ''*'', ?ch, CR, LF])) 0 (?c, charge (8 * ?n) um)"
    unfolding parsingMessage_def buf nl list.case Let_def bnd_simps option.case n(2) by simp
  moreover have "\<exists>c' um'. parse_args ?n (int (length [CHR ''*'', ?ch, CR, LF])) 0
      (?c, charge (8 * ?n) um) = Inr (c', um') \<and>
    cl_argv c' = Some ([] @ map (Live \<circ> arg_object) args) \<and> cl_argc c' = int (length ([] :: arg_cell list) + ?n) \<and>
    length (cl_buf c') = length (cl_buf ?c) \<and>
    um' = fold (\<lambda>a. charge (object_bytes (length a))) args (charge (8 * ?n) um)"
    using assms(2) by (intro parse_args_enc [where rest = rest]) (simp_all add: buf)
  ultimately show ?thesis by simp
qed

text \<open>
  An argument of length zero is announced as \<open>$0\<close>, for which \<open>string2ll\<close>, told that the
  numeral has three characters, reports failure: the length of the argument before is used.
\<close>

lemma string2ll_zero: "1 < n \<Longrightarrow> string2ll (CHR ''0'' # t) n = Inr None"
  by (simp add: string2ll_def)

lemma parse_args_empty:
  assumes buf: "cl_buf c = pre @ ''$0'' @ [CR, LF] @ t" and m: "m < length t"
    and argv: "cl_argv c = Some (cells @ [x])" "cl_argc c = int (length cells)"
  shows "\<exists>c' um'. parse_args 1 (int (length pre)) (int m) (c, um) = Inr (c', um') \<and>
    cl_argv c' = Some (cells @ [Live (arg_object (take m t))])"
proof -
  let ?pos = "length pre" and ?p1 = "length pre + 4"
  have s: "drop ?pos (cl_buf c) = CHR ''$'' # CHR ''0'' # CR # LF # t" by (simp add: buf)
  have nl: "c_strchr (CHR ''$'' # CHR ''0'' # CR # LF # t) CR = Inr (Some 2)" by simp
  have "cl_buf c = (pre @ [CHR ''$'', CHR ''0'', CR, LF]) @ t" by (simp add: buf)
  then have upd: "(cl_buf c)[?p1 + m := NUL] = (pre @ [CHR ''$'', CHR ''0'', CR, LF]) @ t[m := NUL]"
    by (simp only: list_update_append) simp
  have drp: "drop ?p1 ((cl_buf c)[?p1 + m := NUL]) = t[m := NUL]" by (simp add: upd)
  have tk: "take m (t[m := NUL]) = take m t" using m by simp
  have obj: "createObject (Some (t[m := NUL])) m = Inr (arg_object (take m t))"
    using m by (simp add: createObject_Some arg_object_def tk min_def)
  have p: "nat (int ?p1 + int m) = ?p1 + m" "int ?pos + int 2 + 2 = int ?p1" by simp_all
  have b: "\<not> (int ?pos < 0 \<or> int (length (cl_buf c)) \<le> int ?pos)"
    "\<not> (int m < 0 \<or> int (length (cl_buf c)) \<le> int ?p1 + int m)" using m by (simp_all add: buf)
  have z: "string2ll (CHR ''0'' # CR # LF # t) (2 + Suc 0) = Inr None" by (rule string2ll_zero) simp
  show ?thesis
    unfolding One_nat_def parse_args.simps b if_False Let_def nat_int s nl bnd_simps list.sel
      option.case z p drp obj using argv b(2) by (simp add: list_update_append)
qed

section \<open>Properties\<close>

text \<open>
  C36: the parser inverts the encoding of a request. From the bytes of a request of at most
  nine non-empty arguments, whatever bytes follow it in the buffer, \<open>parsingMessage\<close> obtains
  exactly these arguments, in order, each as an object whose length and bytes are those of the
  argument and which is terminated, and charges the allocation counter for the vector of
  arguments and for each object.
\<close>

theorem parsingMessage_inverts:
  assumes "length args < 10" and "\<forall>a \<in> set args. a \<noteq> [] \<and> length a < 2 ^ 31"
    and "cl_buf c = enc_request args @ rest"
  shows "\<exists>c' um'. parsingMessage c um = Inr (c', um') \<and>
    cl_argv c' = Some (map (Live \<circ> arg_object) args) \<and> cl_argc c' = int (length args) \<and>
    length (cl_buf c') = length (cl_buf c) \<and>
    um' = fold (\<lambda>a. charge (object_bytes (length a))) args (charge (8 * length args) um)"
  using assms by (rule parsingMessage_enc)

theorem parsingMessage_inverts_witness:
  "\<exists>c' um'. parsingMessage \<lparr>cl_argc = 0, cl_argv = None,
      cl_buf = enc_request [''set'', ''k'', [CR, LF]] @ ''rest'', cl_len = 0\<rparr> 0 = Inr (c', um') \<and>
    cl_argv c' = Some [Live (arg_object ''set''), Live (arg_object ''k''), Live (arg_object [CR, LF])]"
  using parsingMessage_inverts [of "[''set'', ''k'', [CR, LF]]" "\<lparr>cl_argc = 0, cl_argv = None,
      cl_buf = enc_request [''set'', ''k'', [CR, LF]] @ ''rest'', cl_len = 0\<rparr>" "''rest''" 0] by auto

end
