(* ===== verification/Config.thy ===== *)
theory Config
  imports Util Allocator
begin

text \<open>
  The configuration file (\<open>loadServerConfig\<close> of \<open>util.c\<close>, and its twin in
  \<open>client-benchmark/util.cc\<close>): lines by \<open>fgets\<close> into a buffer of 1024 bytes, words by
  \<open>strtok\<close>, options by case-insensitive comparison.
\<close>

section \<open>State\<close>

definition MODE_ONLY_FLASH :: u32 where "MODE_ONLY_FLASH = 1"
definition MODE_MEM_FIFO :: u32 where "MODE_MEM_FIFO = 2"
definition MODE_MEM_LRU :: u32 where "MODE_MEM_LRU = 3"
definition MODE_FLASH_WRITEBUFFER :: u32 where "MODE_FLASH_WRITEBUFFER = 4"

definition LOG_DEBUG :: u32 where "LOG_DEBUG = 0"
definition LOG_NOTICE :: u32 where "LOG_NOTICE = 1"
definition LOG_ERROR :: u32 where "LOG_ERROR = 2"

record kvServer =
  sv_port :: u32
  maxmemory :: u64
  flashCache_dir :: "byte list option"
  flashCache_size :: u64
  flashCache_writebuffer_size :: u64
  flashCache_file_size :: u32
  cache_mode :: u32
  flashcache_mode :: u32
  verbosity :: u32
  logfile :: "byte list option"
  sv_used :: u32

text \<open>The global \<open>server\<close> starts zeroed.\<close>

definition server_zero :: kvServer where
  "server_zero =
     \<lparr>sv_port = 0, maxmemory = 0, flashCache_dir = None, flashCache_size = 0,
      flashCache_writebuffer_size = 0, flashCache_file_size = 0, cache_mode = 0,
      flashcache_mode = 0, verbosity = 0, logfile = None, sv_used = 0\<rparr>"

text \<open>What the system answers: whether a log file opens and a directory can be entered.\<close>

record conf_env =
  can_open :: "byte list \<Rightarrow> bool"
  can_chdir :: "byte list \<Rightarrow> bool"

section \<open>Lines and words\<close>

fun fgets :: "nat \<Rightarrow> byte list \<Rightarrow> byte list \<times> byte list" where
  "fgets 0 s = ([], s)"
| "fgets (Suc n) [] = ([], [])"
| "fgets (Suc n) (c # cs) =
     (if c = LF then ([c], cs) else (let (l, r) = fgets n cs in (c # l, r)))"

lemma fgets_rest: "fgets n s = (l, r) \<Longrightarrow> l @ r = s"
  by (induction n s arbitrary: l r rule: fgets.induct) (auto split: if_splits prod.splits)

lemma fgets_shorter: "s \<noteq> [] \<Longrightarrow> length (snd (fgets (Suc n) s)) < length s"
proof (cases s)
  case (Cons c cs)
  obtain l r where "fgets n cs = (l, r)" by fastforce
  moreover from fgets_rest [OF this] have "length r \<le> length cs" by auto
  ultimately show ?thesis using Cons by simp
qed simp

function fgets_lines :: "byte list \<Rightarrow> byte list list" where
  "fgets_lines s =
     (if s = [] then [] else fst (fgets 1023 s) # fgets_lines (snd (fgets 1023 s)))"
  by pat_completeness auto
termination
proof (relation "measure length", goal_cases)
  case (2 s)
  have "Suc 1022 = 1023" by simp
  with fgets_shorter [OF 2, of 1022] show ?case by (simp only: in_measure)
qed simp

declare fgets_lines.simps [simp del]

text \<open>\<open>strtok(_, " ")\<close> until it gives no more.\<close>

fun strtok_words :: "byte list \<Rightarrow> byte list \<Rightarrow> byte list list" where
  "strtok_words w [] = (if w = [] then [] else [w])"
| "strtok_words w (c # cs) =
     (if c = CHR '' '' then (if w = [] then strtok_words [] cs else w # strtok_words [] cs)
      else strtok_words (w @ [c]) cs)"

section \<open>Options\<close>

text \<open>
  The sizes are unsigned, so the test \<open><= 0\<close> is a test for zero. The product of the two
  file sizes is an \<open>int\<close>; it is taken to wrap.
\<close>

definition set_nonzero :: "('a::zero) \<Rightarrow> kvServer \<Rightarrow> kvServer res" where
  "set_nonzero v s = (if v = 0 then Inl ProcessExit else Inr s)"

definition config_option :: "conf_env \<Rightarrow> byte list \<Rightarrow> byte list \<Rightarrow> kvServer \<Rightarrow> kvServer res" where
  "config_option ce name val s =
     (let n = sint (c_atoi val); opt = strcasecmp_eq name; short = butlast val in
      if opt ''port'' then Inr (s\<lparr>sv_port := c_atoi val\<rparr>)
      else if opt ''memcache-size-mb'' then
        (let v = word_of_int (n * 1024 * 1024) in set_nonzero v (s\<lparr>maxmemory := v\<rparr>))
      else if opt ''memcache-size-kb'' then
        (let v = word_of_int (n * 1024) in set_nonzero v (s\<lparr>maxmemory := v\<rparr>))
      else if opt ''flashcache-dir'' then
        Inr (s\<lparr>flashCache_dir := Some short, sv_used := charge (length val) (sv_used s)\<rparr>)
      else if opt ''flashcache-size-mb'' then
        (let v = word_of_int (n * 1024 * 1024) in set_nonzero v (s\<lparr>flashCache_size := v\<rparr>))
      else if opt ''flashcache-size-kb'' then
        (let v = word_of_int (n * 1024) in set_nonzero v (s\<lparr>flashCache_size := v\<rparr>))
      else if opt ''flashcache-file-size-kb'' then
        (let v = c_atoi val * 1024 in set_nonzero v (s\<lparr>flashCache_file_size := v\<rparr>))
      else if opt ''flashcache-file-size-mb'' then
        (let v = c_atoi val * 1024 * 1024 in set_nonzero v (s\<lparr>flashCache_file_size := v\<rparr>))
      else if opt ''flashcache-writebuffer-size-b'' then
        (let v = scast (c_atoi val) in set_nonzero v (s\<lparr>flashCache_writebuffer_size := v\<rparr>))
      else if opt ''server-mode'' then
        Inr (if strcasecmp_eq short ''ONLY-FLASH'' then s\<lparr>cache_mode := MODE_ONLY_FLASH\<rparr>
             else if strcasecmp_eq short ''MEM-FIFO'' then s\<lparr>cache_mode := MODE_MEM_FIFO\<rparr>
             else if strcasecmp_eq short ''MEM-LRU'' then s\<lparr>cache_mode := MODE_MEM_LRU\<rparr>
             else s)
      else if opt ''flashcache-mode'' then
        Inr (if strcasecmp_eq short ''FLASH-WRITEBUFFER''
             then s\<lparr>flashcache_mode := MODE_FLASH_WRITEBUFFER\<rparr> else s)
      else if opt ''log-level'' then
        Inr (if strcasecmp_eq short ''notice'' then s\<lparr>verbosity := LOG_NOTICE\<rparr>
             else if strcasecmp_eq short ''debug'' then s\<lparr>verbosity := LOG_DEBUG\<rparr>
             else s)
      else if opt ''logfile'' then
        (if logfile s \<noteq> None then Inl BadFree
         else if short \<noteq> [] \<and> \<not> can_open ce short then Inl ProcessExit
         else Inr (s\<lparr>logfile := Some short, sv_used := charge (length val) (sv_used s)\<rparr>))
      else if opt ''server-dir'' then
        (if can_chdir ce val then Inr s else Inl ProcessExit)
      else Inr s)"

text \<open>
  One line. \<open>argv\<close> has ten cells and is filled with the words and a null pointer; without
  any word the first comparison dereferences it.
\<close>

definition config_words :: "byte list \<Rightarrow> byte list list option res" where
  "config_words line =
     (let buf = until_nul line in
      if buf = [] \<or> hd buf = CHR ''#'' \<or> hd buf = LF then Inr None
      else
        (let argv = strtok_words [] buf in
         if 10 \<le> length argv then Inl OutOfBounds
         else if argv = [] then Inl NullDeref
         else Inr (Some argv)))"

definition config_line :: "conf_env \<Rightarrow> byte list \<Rightarrow> kvServer \<Rightarrow> kvServer res" where
  "config_line ce line s =
     bnd (config_words line) (\<lambda>argv.
       (case argv of
          Some [name, val] \<Rightarrow> config_option ce name val s
        | _ \<Rightarrow> Inr s))"

fun config_lines :: "conf_env \<Rightarrow> byte list list \<Rightarrow> kvServer \<Rightarrow> kvServer res" where
  "config_lines ce [] s = Inr s"
| "config_lines ce (l # ls) s = bnd (config_line ce l s) (config_lines ce ls)"

text \<open>The file is \<open>None\<close> when it does not open.\<close>

definition loadServerConfig :: "conf_env \<Rightarrow> byte list option \<Rightarrow> kvServer \<Rightarrow> kvServer res" where
  "loadServerConfig ce content s =
     (case content of
        None \<Rightarrow> Inl ProcessExit
      | Some bytes \<Rightarrow> config_lines ce (fgets_lines bytes) s)"

section \<open>The client's variant\<close>

record client_conf =
  cc_port :: u32
  cc_ip :: "byte list"

definition client_config_line :: "byte list \<Rightarrow> client_conf \<Rightarrow> client_conf res" where
  "client_config_line line s =
     bnd (config_words line) (\<lambda>argv.
       (case argv of
          Some [name, val] \<Rightarrow>
            Inr (if strcasecmp_eq name ''port'' then s\<lparr>cc_port := c_atoi val\<rparr>
                 else if strcasecmp_eq name ''host'' then s\<lparr>cc_ip := val\<rparr>
                 else s)
        | _ \<Rightarrow> Inr s))"

fun client_config_lines :: "byte list list \<Rightarrow> client_conf \<Rightarrow> client_conf res" where
  "client_config_lines [] s = Inr s"
| "client_config_lines (l # ls) s = bnd (client_config_line l s) (client_config_lines ls)"

definition client_loadServerConfig :: "byte list option \<Rightarrow> client_conf \<Rightarrow> client_conf res" where
  "client_loadServerConfig content s =
     (case content of
        None \<Rightarrow> Inl ProcessExit
      | Some bytes \<Rightarrow> client_config_lines (fgets_lines bytes) s)"

section \<open>Lines\<close>

lemma fgets_line:
  "LF \<notin> set l \<Longrightarrow> length l < n \<Longrightarrow> fgets n (l @ LF # r) = (l @ [LF], r)"
proof (induction l arbitrary: n)
  case Nil
  then show ?case by (cases n) auto
next
  case (Cons c l)
  then obtain m where "n = Suc m" by (cases n) auto
  with Cons show ?case by auto
qed

lemma fgets_last: "LF \<notin> set l \<Longrightarrow> length l \<le> n \<Longrightarrow> fgets n l = (l, [])"
proof (induction l arbitrary: n)
  case Nil
  then show ?case by (cases n) auto
next
  case (Cons c l)
  then obtain m where "n = Suc m" by (cases n) auto
  with Cons show ?case by auto
qed

text \<open>A file of lines shorter than the buffer, with or without a newline at its end.\<close>

lemma fgets_lines_cut:
  assumes "\<forall>l \<in> set ls. LF \<notin> set l \<and> length l < 1023"
    and "LF \<notin> set t \<and> length t \<le> 1023"
  shows "fgets_lines (concat (map (\<lambda>l. l @ [LF]) ls) @ t) =
    map (\<lambda>l. l @ [LF]) ls @ (if t = [] then [] else [t])"
  using assms(1)
proof (induction ls)
  case Nil
  then show ?case
    using assms(2) by (auto simp: fgets_lines.simps [of t] fgets_last fgets_lines.simps [of "[]"])
next
  case (Cons l ls)
  then have "fgets 1023 (l @ LF # concat (map (\<lambda>l. l @ [LF]) ls) @ t) =
      (l @ [LF], concat (map (\<lambda>l. l @ [LF]) ls) @ t)"
    by (intro fgets_line) auto
  with Cons show ?case
    by (simp add: fgets_lines.simps [of "l @ LF # concat (map (\<lambda>l. l @ [LF]) ls) @ t"])
qed

section \<open>Words\<close>

lemma strtok_words_word:
  "CHR '' '' \<notin> set w \<Longrightarrow> strtok_words acc w = (if acc @ w = [] then [] else [acc @ w])"
  by (induction w arbitrary: acc) auto

lemma strtok_words_two:
  "CHR '' '' \<notin> set a \<Longrightarrow> CHR '' '' \<notin> set b \<Longrightarrow> acc @ a \<noteq> [] \<Longrightarrow> b \<noteq> [] \<Longrightarrow>
   strtok_words acc (a @ CHR '' '' # b) = [acc @ a, b]"
  by (induction a arbitrary: acc) (auto simp: strtok_words_word)

text \<open>A line of an option and its value, with what follows up to the end of the line.\<close>

lemma config_line_two:
  assumes "no_nul a" "no_nul b" "CHR '' '' \<notin> set a" "CHR '' '' \<notin> set b" "b \<noteq> []"
    and "a \<noteq> []" "hd a \<noteq> CHR ''#''" "hd a \<noteq> LF"
  shows "config_line ce (a @ CHR '' '' # b) s = config_option ce a b s"
proof -
  have "no_nul (a @ CHR '' '' # b)" using assms by simp
  then have "config_words (a @ CHR '' '' # b) = Inr (Some [a, b])"
    using assms strtok_words_two [of a b "[]"] by (simp add: config_words_def Let_def)
  then show ?thesis by (simp add: config_line_def)
qed

lemma dec_no_space: "CHR '' '' \<notin> set (dec n)"
  by (auto dest!: dec_digits simp: is_digit_def)

text \<open>\<open>atoi\<close> on a numeral with or without a newline, and on a negative one.\<close>

lemma sint_atoi_dec:
  assumes "n < 2 ^ 31"
  shows "sint (c_atoi (dec n @ [LF])) = int n" "sint (c_atoi (CHR ''-'' # dec n @ [LF])) = - int n"
proof -
  have "c_atoi (dec n @ [LF]) = word_of_nat n" using assms by (intro c_atoi_dec) auto
  then show "sint (c_atoi (dec n @ [LF])) = int n" using assms by (simp add: sint_small_nat)
  have t: "takeWhile is_digit (dec n @ [LF]) = dec n" by (rule takeWhile_digit_dec) simp
  have m: "max (- 9223372036854775808) (- int n) = - int n" using assms by simp
  have "c_atoi (CHR ''-'' # dec n @ [LF]) = word_of_int (- int n)"
    by (simp add: c_atoi_def is_space_def Let_def t m del: of_int_minus)
  then show "sint (c_atoi (CHR ''-'' # dec n @ [LF])) = - int n"
    using assms by (simp add: signed_of_int signed_take_bit_int_eq_self del: of_int_minus)
qed

section \<open>Sizes\<close>

lemma word_of_nat_nonzero:
  assumes "0 < m" "m < 2 ^ 64"
  shows "(word_of_nat m :: u64) \<noteq> 0"
proof
  assume "(word_of_nat m :: u64) = 0"
  then have "unat (word_of_nat m :: u64) = 0" by simp
  moreover have "unat (word_of_nat m :: u64) = m"
    using assms(2) by (simp add: unsigned_of_nat take_bit_nat_eq_self)
  ultimately show False using assms(1) by simp
qed

lemma memcache_size_kb:
  assumes "0 < n" "n < 2 ^ 31"
  shows "config_line ce (''memcache-size-kb '' @ dec n @ [LF]) s =
    Inr (s\<lparr>maxmemory := word_of_nat (n * 1024)\<rparr>)"
proof -
  have "config_line ce (''memcache-size-kb'' @ CHR '' '' # dec n @ [LF]) s =
      config_option ce ''memcache-size-kb'' (dec n @ [LF]) s"
    by (rule config_line_two) (simp_all add: dec_no_space)
  moreover have "(word_of_nat (n * 1024) :: u64) \<noteq> 0" using assms by (intro word_of_nat_nonzero) auto
  ultimately show ?thesis
    using sint_atoi_dec(1) [OF assms(2)]
    by (simp add: config_option_def strcasecmp_eq_def tolower_def Let_def set_nonzero_def)
qed

lemma memcache_size_kb_negative:
  assumes "0 < n" "n < 2 ^ 31"
  shows "config_line ce (''memcache-size-kb -'' @ dec n @ [LF]) s =
    Inr (s\<lparr>maxmemory := - word_of_nat (n * 1024)\<rparr>)"
proof -
  have "config_line ce (''memcache-size-kb'' @ CHR '' '' # CHR ''-'' # dec n @ [LF]) s =
      config_option ce ''memcache-size-kb'' (CHR ''-'' # dec n @ [LF]) s"
    by (rule config_line_two) (simp_all add: dec_no_space)
  moreover have "(word_of_nat (n * 1024) :: u64) \<noteq> 0" using assms by (intro word_of_nat_nonzero) auto
  ultimately show ?thesis
    using sint_atoi_dec(2) [OF assms(2)]
    by (simp add: config_option_def strcasecmp_eq_def tolower_def Let_def set_nonzero_def)
qed

section \<open>The shipped configuration\<close>

text \<open>\<open>conf/server.conf\<close>, line by line; the last line has no newline.\<close>

definition shipped_lines :: "byte list list" where
  "shipped_lines =
     [[], ''log-level debug'', ''#log-level notice'', ''# logfile log.txt'', [],
      ''#server-mode ONLY-FLASH'', ''#server-mode MEM-FIFO'', ''server-mode MEM-LRU'',
      ''#flashcache-mode FLASH-WRITEBUFFER'', ''port 19501'', [], ''memcache-size-kb 40'', [],
      ''flashcache-dir flash_db'', ''flashcache-file-size-kb 10'',
      ''flashcache-writebuffer-size-b 4096'']"

definition shipped_conf :: "byte list" where
  "shipped_conf = concat (map (\<lambda>l. l @ [LF]) shipped_lines) @ ''db-file-size-mb 4''"

lemma shipped_cut:
  "fgets_lines shipped_conf = map (\<lambda>l. l @ [LF]) shipped_lines @ [''db-file-size-mb 4'']"
proof -
  have "list_all (\<lambda>l. LF \<notin> set l \<and> length l < 100) shipped_lines" by code_simp
  then have "\<forall>l \<in> set shipped_lines. LF \<notin> set l \<and> length l < 1023"
    by (fastforce simp: list_all_iff)
  moreover have "LF \<notin> set ''db-file-size-mb 4'' \<and> length ''db-file-size-mb 4'' \<le> 1023" by simp
  ultimately show ?thesis
    unfolding shipped_conf_def by (subst fgets_lines_cut) simp_all
qed

lemma config_comment [simp]:
  "config_line ce (CHR ''#'' # l) s = Inr s"
  "config_line ce (LF # l) s = Inr s"
  by (simp_all add: config_line_def config_words_def)

lemmas option_simps = config_option_def strcasecmp_eq_def tolower_def Let_def set_nonzero_def

lemma shipped_numbers:
  "c_atoi (''19501'' @ [LF]) = 19501" "c_atoi (''40'' @ [LF]) = 40" "c_atoi (''10'' @ [LF]) = 10"
  "c_atoi (''4096'' @ [LF]) = 4096"
  by (simp_all add: c_atoi_def is_space_def is_digit_def digit_val_def dec_value_def)

lemma shipped_options:
  "config_line ce (''log-level debug'' @ [LF]) s = Inr (s\<lparr>verbosity := LOG_DEBUG\<rparr>)"
  "config_line ce (''server-mode MEM-LRU'' @ [LF]) s = Inr (s\<lparr>cache_mode := MODE_MEM_LRU\<rparr>)"
  "config_line ce (''port 19501'' @ [LF]) s = Inr (s\<lparr>sv_port := 19501\<rparr>)"
  "config_line ce (''memcache-size-kb 40'' @ [LF]) s = Inr (s\<lparr>maxmemory := 40960\<rparr>)"
  "config_line ce (''flashcache-dir flash_db'' @ [LF]) s =
     Inr (s\<lparr>flashCache_dir := Some ''flash_db'', sv_used := charge (length (''flash_db'' @ [LF])) (sv_used s)\<rparr>)"
  "config_line ce (''flashcache-file-size-kb 10'' @ [LF]) s = Inr (s\<lparr>flashCache_file_size := 10240\<rparr>)"
  "config_line ce (''flashcache-writebuffer-size-b 4096'' @ [LF]) s =
     Inr (s\<lparr>flashCache_writebuffer_size := 4096\<rparr>)"
  "config_line ce ''db-file-size-mb 4'' s = Inr s"
  by (use config_line_two [of "''log-level''" "''debug'' @ [LF]" ce s] shipped_numbers in \<open>simp add: option_simps\<close>,
    use config_line_two [of "''server-mode''" "''MEM-LRU'' @ [LF]" ce s] shipped_numbers in \<open>simp add: option_simps\<close>,
    use config_line_two [of "''port''" "''19501'' @ [LF]" ce s] shipped_numbers in \<open>simp add: option_simps\<close>,
    use config_line_two [of "''memcache-size-kb''" "''40'' @ [LF]" ce s] shipped_numbers in \<open>simp add: option_simps\<close>,
    use config_line_two [of "''flashcache-dir''" "''flash_db'' @ [LF]" ce s] shipped_numbers in \<open>simp add: option_simps\<close>,
    use config_line_two [of "''flashcache-file-size-kb''" "''10'' @ [LF]" ce s] shipped_numbers in \<open>simp add: option_simps\<close>,
    use config_line_two [of "''flashcache-writebuffer-size-b''" "''4096'' @ [LF]" ce s] shipped_numbers in \<open>simp add: option_simps\<close>,
    use config_line_two [of "''db-file-size-mb''" "''4''" ce s] shipped_numbers in \<open>simp add: option_simps\<close>)

lemma mode_without_newline: "config_line ce ''server-mode MEM-LRU'' s = Inr s"
  using config_line_two [of "''server-mode''" "''MEM-LRU''" ce s] by (simp add: option_simps)

lemma shipped_result:
  "config_lines ce (map (\<lambda>l. l @ [LF]) shipped_lines @ [''db-file-size-mb 4'']) server_zero =
   Inr (server_zero\<lparr>sv_port := 19501, maxmemory := 40960, flashCache_dir := Some ''flash_db'',
     flashCache_writebuffer_size := 4096, flashCache_file_size := 10240,
     cache_mode := MODE_MEM_LRU, verbosity := LOG_DEBUG, sv_used := 13\<rparr>)"
  using shipped_options [of ce] by (simp add: shipped_lines_def server_zero_def charge_def)

text \<open>
  The last line has no newline and names no option of the server; the size of the flash cache is
  in no line and stays zero; the write buffer mode stays off although its size is set; 13 bytes
  have been charged for the name of the directory.
\<close>

lemma shipped_configuration:
  "loadServerConfig ce (Some shipped_conf) server_zero =
   Inr (server_zero\<lparr>sv_port := 19501, maxmemory := 40960, flashCache_dir := Some ''flash_db'',
     flashCache_writebuffer_size := 4096, flashCache_file_size := 10240,
     cache_mode := MODE_MEM_LRU, verbosity := LOG_DEBUG, sv_used := 13\<rparr>)"
  using shipped_result [of ce] by (simp add: loadServerConfig_def shipped_cut)

section \<open>Properties\<close>

text \<open>
  A memory limit in kilobytes is taken as written, and a negative one is taken too: the
  test for \<open><= 0\<close> is on an unsigned number, so \<open>memcache-size-kb -1\<close> sets a limit of
  \<open>2 ^ 64 - 1024\<close> bytes instead of ending the server.
\<close>

lemma memcache_size_read:
  assumes "0 < n" "n < 2 ^ 31"
  shows "config_line ce (''memcache-size-kb '' @ dec n @ [LF]) s =
      Inr (s\<lparr>maxmemory := word_of_nat (n * 1024)\<rparr>) \<and>
    config_line ce (''memcache-size-kb -'' @ dec n @ [LF]) s =
      Inr (s\<lparr>maxmemory := - word_of_nat (n * 1024)\<rparr>)"
  using memcache_size_kb [OF assms] memcache_size_kb_negative [OF assms] by blast

text \<open>
  The settings the rest of the server relies on: the modes are among those it tests for, or unset;
  the sizes given in kilobytes and megabytes are whole kilobytes; a log file that is named could
  be opened.
\<close>

definition conf_typed :: "conf_env \<Rightarrow> kvServer \<Rightarrow> bool" where
  "conf_typed ce s \<longleftrightarrow>
     cache_mode s \<in> {0, MODE_ONLY_FLASH, MODE_MEM_FIFO, MODE_MEM_LRU} \<and>
     flashcache_mode s \<in> {0, MODE_FLASH_WRITEBUFFER} \<and>
     verbosity s \<in> {LOG_DEBUG, LOG_NOTICE} \<and>
     maxmemory s mod 1024 = 0 \<and> flashCache_size s mod 1024 = 0 \<and> flashCache_file_size s mod 1024 = 0 \<and>
     (case logfile s of None \<Rightarrow> True | Some l \<Rightarrow> l = [] \<or> can_open ce l)"

lemma whole_kilobytes:
  fixes x :: u64 and y :: u32
  shows "(x * 1024) mod 1024 = 0" "(y * 1024) mod 1024 = 0"
proof -
  have "unat (x * 1024) mod 1024 = unat x * 1024 mod 2 ^ 64 mod 1024" by (simp add: unat_word_ariths)
  also have "\<dots> = 0" by (simp add: mod_mod_cancel)
  finally show "(x * 1024) mod 1024 = 0" by (simp add: unat_eq_zero [symmetric] unat_mod)
next
  have "unat (y * 1024) mod 1024 = unat y * 1024 mod 2 ^ 32 mod 1024" by (simp add: unat_word_ariths)
  also have "\<dots> = 0" by (simp add: mod_mod_cancel)
  finally show "(y * 1024) mod 1024 = 0" by (simp add: unat_eq_zero [symmetric] unat_mod)
qed

lemma config_kilobytes:
  "(word_of_int (n * 1024) :: u64) mod 1024 = 0" "(word_of_int (n * 1024 * 1024) :: u64) mod 1024 = 0"
proof -
  have *: "(word_of_int (m * 1024) :: u64) mod 1024 = 0" for m
    using whole_kilobytes(1) [of "word_of_int m"] by (simp only: of_int_mult of_int_numeral)
  show "(word_of_int (n * 1024) :: u64) mod 1024 = 0" "(word_of_int (n * 1024 * 1024) :: u64) mod 1024 = 0"
    by (rule *)+
qed

definition typed_result :: "conf_env \<Rightarrow> kvServer res \<Rightarrow> bool" where
  "typed_result ce r \<longleftrightarrow> (\<forall>s. r = Inr s \<longrightarrow> conf_typed ce s)"

lemma typed_resultI:
  "(c \<Longrightarrow> typed_result ce a) \<Longrightarrow> (\<not> c \<Longrightarrow> typed_result ce b) \<Longrightarrow> typed_result ce (if c then a else b)"
  "conf_typed ce s \<Longrightarrow> typed_result ce (Inr s)" "typed_result ce (Inl err)"
  "conf_typed ce s \<Longrightarrow> typed_result ce (set_nonzero (v :: 'a::zero) s)"
  by (simp_all add: typed_result_def set_nonzero_def)

lemma conf_typed_if: "(c \<Longrightarrow> conf_typed ce a) \<Longrightarrow> (\<not> c \<Longrightarrow> conf_typed ce b) \<Longrightarrow> conf_typed ce (if c then a else b)"
  by simp

lemma config_option_typed:
  assumes "conf_typed ce s"
  shows "typed_result ce (config_option ce name val s)"
proof -
  let ?n = "sint (c_atoi val)"
  have k: "(word_of_int (?n * 1024) :: u64) mod 1024 = 0" "(word_of_int (?n * 1024 * 1024) :: u64) mod 1024 = 0"
    "c_atoi val * 1024 mod 1024 = 0" "c_atoi val * 1024 * 1024 mod 1024 = 0"
    by (rule config_kilobytes whole_kilobytes)+
  show ?thesis
    unfolding config_option_def Let_def
    by (intro typed_resultI conf_typed_if assms)
      (use assms k in \<open>simp_all add: conf_typed_def\<close>)
qed

lemma config_line_typed: "conf_typed ce s \<Longrightarrow> typed_result ce (config_line ce line s)"
  using config_option_typed [of ce s]
  by (cases "config_words line") (auto simp: config_line_def typed_resultI split: option.split list.split)

text \<open>
  C34: Whatever bytes a configuration file holds, a server that has loaded it has settings of the
  right type: each mode is one of those the code tests for or unset, each size that is given in
  kilobytes or megabytes is a whole number of kilobytes, and the log file it names could be opened.
\<close>

theorem configuration_typed:
  assumes "loadServerConfig ce content server_zero = Inr s"
  shows "conf_typed ce s"
proof -
  have "config_lines ce ls s0 = Inr s \<Longrightarrow> conf_typed ce s0 \<Longrightarrow> conf_typed ce s" for ls s0
    by (induction ls arbitrary: s0) (use config_line_typed in \<open>fastforce simp: bnd_eq_Inr typed_result_def\<close>)+
  moreover have "conf_typed ce server_zero"
    by (simp add: conf_typed_def server_zero_def LOG_DEBUG_def)
  ultimately show ?thesis using assms by (auto simp: loadServerConfig_def split: option.splits)
qed

theorem configuration_typed_witness:
  "\<exists>s. loadServerConfig \<lparr>can_open = \<lambda>_. False, can_chdir = \<lambda>_. False\<rparr> (Some shipped_conf) server_zero = Inr s \<and>
    conf_typed \<lparr>can_open = \<lambda>_. False, can_chdir = \<lambda>_. False\<rparr> s \<and> cache_mode s = MODE_MEM_LRU"
  using configuration_typed [OF shipped_configuration] shipped_configuration by auto

end
