(* ===== verification/CacheRecord.thy ===== *)
theory CacheRecord
  imports Prelude
begin

text \<open>
  Records of the flash cache (\<open>flashcache.h\<close>, \<open>flashcache.cc\<close>): the 16 byte header, the
  checksum, serialisation into a vector of write buffers and deserialisation. A write
  buffer is its capacity and the bytes below \<open>pos_\<close>. The checksum function
  (\<open>boost::crc_32_type\<close>) is a parameter of every definition that uses it.
\<close>

section \<open>Little-endian fields\<close>

fun le_bytes :: "nat \<Rightarrow> nat \<Rightarrow> byte list" where
  "le_bytes 0 x = []"
| "le_bytes (Suc n) x = char_of (x mod 256) # le_bytes n (x div 256)"

fun of_le :: "byte list \<Rightarrow> nat" where
  "of_le [] = 0"
| "of_le (c # cs) = of_char c + 256 * of_le cs"

definition le32 :: "u32 \<Rightarrow> byte list" where
  "le32 w = le_bytes 4 (unat w)"

definition of_le32 :: "byte list \<Rightarrow> u32" where
  "of_le32 bs = word_of_nat (of_le (take 4 bs))"

lemma length_le_bytes [simp]: "length (le_bytes n x) = n"
  by (induction n arbitrary: x) auto

lemma of_le_bytes: "of_le (le_bytes n x) = x mod 256 ^ n"
proof (induction n arbitrary: x)
  case (Suc n)
  have "x mod (256 * 256 ^ n) = x mod 256 + 256 * (x div 256 mod 256 ^ n)"
    by (rule mod_mult2_eq [THEN trans]) simp
  then show ?case using Suc by simp
qed simp

lemma length_le32 [simp]: "length (le32 w) = 4"
  by (simp add: le32_def)

lemma of_le32_le32 [simp]: "of_le32 (le32 w @ rest) = w"
proof -
  have "unat w < 2 ^ 32" using unsigned_less [of w] by simp
  then show ?thesis by (simp add: of_le32_def le32_def of_le_bytes)
qed

section \<open>Header and record\<close>

record CacheRecordHeader =
  hdr_magic :: u32
  hdr_crc :: u32
  hdr_key_size :: u32
  hdr_val_size :: u32

record CacheRecord =
  rec_hdr :: CacheRecordHeader
  rec_key :: "byte list"
  rec_val :: "byte list"

definition MAGIC :: u32 where
  "MAGIC = 0xfefa"

definition sizeof_hdr :: nat where
  "sizeof_hdr = 16"

definition hdr_bytes :: "CacheRecordHeader \<Rightarrow> byte list" where
  "hdr_bytes h = le32 (hdr_magic h) @ le32 (hdr_crc h) @ le32 (hdr_key_size h) @ le32 (hdr_val_size h)"

definition hdr_of_bytes :: "byte list \<Rightarrow> CacheRecordHeader" where
  "hdr_of_bytes bs =
     \<lparr>hdr_magic = of_le32 bs, hdr_crc = of_le32 (drop 4 bs),
      hdr_key_size = of_le32 (drop 8 bs), hdr_val_size = of_le32 (drop 12 bs)\<rparr>"

definition ComputeCRC :: "(byte list \<Rightarrow> u32) \<Rightarrow> CacheRecord \<Rightarrow> u32" where
  "ComputeCRC crc r = crc (hdr_bytes ((rec_hdr r)\<lparr>hdr_crc := 0\<rparr>) @ rec_key r @ rec_val r)"

definition mk_record :: "(byte list \<Rightarrow> u32) \<Rightarrow> byte list \<Rightarrow> byte list \<Rightarrow> CacheRecord" where
  "mk_record crc key val =
     (let r = \<lparr>rec_hdr = \<lparr>hdr_magic = MAGIC, hdr_crc = 0, hdr_key_size = word_of_nat (length key),
                       hdr_val_size = word_of_nat (length val)\<rparr>, rec_key = key, rec_val = val\<rparr>
      in r\<lparr>rec_hdr := (rec_hdr r)\<lparr>hdr_crc := ComputeCRC crc r\<rparr>\<rparr>)"

definition CalcSize :: "byte list \<Rightarrow> byte list \<Rightarrow> u32" where
  "CalcSize key val = word_of_nat (sizeof_hdr + length key + length val)"

text \<open>The bytes a record occupies, in the buffers and in the file.\<close>

definition record_bytes :: "CacheRecord \<Rightarrow> byte list" where
  "record_bytes r = hdr_bytes (rec_hdr r) @ rec_key r @ rec_val r"

lemma length_hdr_bytes [simp]: "length (hdr_bytes h) = 16"
  by (simp add: hdr_bytes_def)

lemma hdr_of_hdr_bytes [simp]: "hdr_of_bytes (hdr_bytes h @ rest) = h"
  by (simp add: hdr_of_bytes_def hdr_bytes_def)

lemma mk_record_fields [simp]:
  "rec_key (mk_record crc k v) = k" "rec_val (mk_record crc k v) = v"
  "hdr_key_size (rec_hdr (mk_record crc k v)) = word_of_nat (length k)"
  "hdr_val_size (rec_hdr (mk_record crc k v)) = word_of_nat (length v)"
  "hdr_magic (rec_hdr (mk_record crc k v)) = MAGIC"
  by (simp_all add: mk_record_def Let_def)

lemma mk_record_crc: "ComputeCRC crc (mk_record crc k v) = hdr_crc (rec_hdr (mk_record crc k v))"
  by (simp add: mk_record_def ComputeCRC_def)

definition rec_len :: "byte list \<Rightarrow> byte list \<Rightarrow> nat" where
  "rec_len k v = sizeof_hdr + length k + length v"

lemma length_record_bytes [simp]: "length (record_bytes (mk_record crc k v)) = rec_len k v"
  by (simp add: record_bytes_def sizeof_hdr_def rec_len_def)

lemma CalcSize_rec_len: "CalcSize k v = word_of_nat (rec_len k v)"
  by (simp add: CalcSize_def rec_len_def)

section \<open>Deserialisation\<close>

text \<open>
  \<open>mem\<close> is the memory from \<open>data\<close> on: the \<open>read_size\<close> bytes and what follows them in
  memory. \<open>std::string(p, 0, n)\<close> with a \<open>char *\<close> first makes a string of the bytes up to the
  next terminator, wherever that is, and then takes at most \<open>n\<close> of them.
\<close>

definition substr_cstr :: "byte list \<Rightarrow> nat \<Rightarrow> byte list res" where
  "substr_cstr mem n = (case cstr mem of None \<Rightarrow> Inl OutOfBounds | Some s \<Rightarrow> Inr (take n s))"

definition Deserialize ::
  "(byte list \<Rightarrow> u32) \<Rightarrow> byte list \<Rightarrow> nat \<Rightarrow> CacheRecord option res" where
  "Deserialize crc mem read_size =
     (if read_size < sizeof_hdr then Inr None
      else
        (let h = hdr_of_bytes mem in
         if unat (hdr_key_size h + hdr_val_size h) + sizeof_hdr \<noteq> read_size then Inr None
         else
           bnd (substr_cstr (drop sizeof_hdr mem) (unat (hdr_key_size h))) (\<lambda>key.
           bnd (substr_cstr (drop (sizeof_hdr + unat (hdr_key_size h)) mem) (unat (hdr_val_size h))) (\<lambda>val.
             let r = \<lparr>rec_hdr = h, rec_key = key, rec_val = val\<rparr> in
             Inr (if hdr_magic h = MAGIC \<and> ComputeCRC crc r = hdr_crc h then Some r else None)))))"

lemma substr_cstr_exact:
  "no_nul s \<Longrightarrow> NUL \<in> set rest \<Longrightarrow> n = length s \<Longrightarrow> substr_cstr (s @ rest) n = Inr s"
  by (simp add: substr_cstr_def cstr_append)

text \<open>What is serialised is read back, whatever memory follows the record.\<close>

lemma Deserialize_record:
  assumes "no_nul k" "no_nul v" and fits: "rec_len k v < 2 ^ 32"
    and tail: "NUL \<in> set tail"
  shows "Deserialize crc (record_bytes (mk_record crc k v) @ tail) (rec_len k v) =
    Inr (Some (mk_record crc k v))"
proof -
  let ?r = "mk_record crc k v"
  let ?mem = "record_bytes ?r @ tail"
  have mem: "?mem = hdr_bytes (rec_hdr ?r) @ k @ v @ tail" by (simp add: record_bytes_def)
  have h: "hdr_of_bytes ?mem = rec_hdr ?r" by (simp add: mem)
  have sz: "unat (word_of_nat (length k) :: u32) = length k"
    "unat (word_of_nat (length v) :: u32) = length v"
    "unat (word_of_nat (length k) + word_of_nat (length v) :: u32) = length k + length v"
    using fits by (simp_all add: rec_len_def unsigned_of_nat take_bit_nat_eq_self flip: of_nat_add)
  have "substr_cstr (drop sizeof_hdr ?mem) (length k) = Inr k"
    using assms by (simp add: mem sizeof_hdr_def substr_cstr_exact)
  moreover have "substr_cstr (drop (sizeof_hdr + length k) ?mem) (length v) = Inr v"
    using assms by (simp add: mem sizeof_hdr_def substr_cstr_exact)
  moreover have "ComputeCRC crc \<lparr>rec_hdr = rec_hdr ?r, rec_key = k, rec_val = v\<rparr> = hdr_crc (rec_hdr ?r)"
    using mk_record_crc [of crc k v] by (simp add: ComputeCRC_def)
  ultimately have "Deserialize crc ?mem (rec_len k v) =
      Inr (Some \<lparr>rec_hdr = rec_hdr ?r, rec_key = k, rec_val = v\<rparr>)"
    by (simp add: Deserialize_def h sz Let_def rec_len_def)
  also have "\<lparr>rec_hdr = rec_hdr ?r, rec_key = k, rec_val = v\<rparr> = ?r"
    by (simp add: mk_record_def Let_def)
  finally show ?thesis .
qed

section \<open>Properties\<close>

text \<open>
  C31: serialising and deserialising a record. Whatever the checksum function is, the bytes of
  a record made from a key and a value without zero bytes, read back with the length that the
  index keeps (\<open>CalcSize\<close>), pass the size, magic and checksum tests and give the record again.
\<close>

theorem Deserialize_inverts:
  assumes "no_nul k" "no_nul v" "rec_len k v < 2 ^ 32" "NUL \<in> set tail"
  shows "Deserialize crc (record_bytes (mk_record crc k v) @ tail) (unat (CalcSize k v)) =
    Inr (Some (mk_record crc k v))"
  using Deserialize_record [OF assms, of crc] assms(3)
  by (simp add: CalcSize_rec_len unsigned_of_nat take_bit_nat_eq_self)

theorem Deserialize_inverts_witness:
  "Deserialize (\<lambda>bs. word_of_nat (sum_list (map of_char bs)))
      (record_bytes (mk_record (\<lambda>bs. word_of_nat (sum_list (map of_char bs))) ''key'' ''value'') @ [NUL])
      (unat (CalcSize ''key'' ''value'')) =
    Inr (Some (mk_record (\<lambda>bs. word_of_nat (sum_list (map of_char bs))) ''key'' ''value''))"
  by (rule Deserialize_inverts) (simp_all add: rec_len_def sizeof_hdr_def)

end
