(* ===== verification/WriteBuffer.thy ===== *)
theory WriteBuffer
  imports CacheRecord
begin

text \<open>
  The write buffers of a cache file (\<open>CacheWriteBuffer\<close> of \<open>flashcache.h\<close>,
  \<open>CacheRecord::Append\<close>, \<open>CacheRecord::Serialize\<close>, \<open>WriteableCacheFile::ExpandBuffer\<close>
  and \<open>WriteableCacheFile::ReadBuffer\<close> of \<open>flashcache.cc\<close>) and the stream of bytes they
  stand for. \<open>assert\<close> is active (the Makefile does not define \<open>NDEBUG\<close>).
\<close>

section \<open>One buffer\<close>

record CacheWriteBuffer =
  wb_size :: nat
  wb_data :: "byte list"

definition wb_new :: "nat \<Rightarrow> CacheWriteBuffer" where
  "wb_new n = \<lparr>wb_size = n, wb_data = []\<rparr>"

definition wb_append :: "CacheWriteBuffer \<Rightarrow> byte list \<Rightarrow> CacheWriteBuffer res" where
  "wb_append b d =
     (if length (wb_data b) + length d \<le> wb_size b then Inr (b\<lparr>wb_data := wb_data b @ d\<rparr>)
      else Inl OutOfBounds)"

definition wb_reset :: "CacheWriteBuffer \<Rightarrow> CacheWriteBuffer" where
  "wb_reset b = b\<lparr>wb_data := []\<rparr>"

definition wb_free :: "CacheWriteBuffer \<Rightarrow> nat" where
  "wb_free b = wb_size b - length (wb_data b)"

definition wb_capacity :: "CacheWriteBuffer \<Rightarrow> nat" where
  "wb_capacity b = wb_size b"

definition wb_used :: "CacheWriteBuffer \<Rightarrow> nat" where
  "wb_used b = length (wb_data b)"

section \<open>Appending across buffers\<close>

lemma bnd_cong [fundef_cong]:
  "m = m' \<Longrightarrow> (\<And>x. m' = Inr x \<Longrightarrow> f x = f' x) \<Longrightarrow> bnd m f = bnd m' f'"
  by (cases m') (auto simp: bnd_def)

text \<open>
  The body of the loop of \<open>CacheRecord::Append\<close> for the buffer at \<open>woff\<close>: the buffer
  after it and the bytes still to write.
\<close>

definition append_body :: "byte list \<Rightarrow> CacheWriteBuffer \<Rightarrow> (CacheWriteBuffer \<times> byte list) res" where
  "append_body p b =
     (let free = wb_free b in
      if length p \<le> free then bnd (wb_append b p) (\<lambda>b'. Inr (b', []))
      else
        bnd (wb_append b (take free p)) (\<lambda>b'.
          if wb_free b' \<noteq> 0 \<or> wb_used b' \<noteq> wb_capacity b' then Inl AssertFail
          else Inr (b', drop free p)))"

lemma append_body_Inr:
  "append_body p b = Inr (b', p') \<Longrightarrow> p' = [] \<or> (wb_free b' = 0 \<and> length p' \<le> length p)"
  by (auto simp: append_body_def Let_def bnd_eq_Inr split: if_splits)

function CacheRecord_Append ::
  "byte list \<Rightarrow> CacheWriteBuffer list \<Rightarrow> nat \<Rightarrow> (bool \<times> CacheWriteBuffer list \<times> nat) res" where
  "CacheRecord_Append p bufs woff =
     (if p \<noteq> [] \<and> woff < length bufs then
        bnd (append_body p (bufs ! woff)) (\<lambda>(b', p').
          CacheRecord_Append p' (bufs[woff := b']) (if wb_free b' = 0 then woff + 1 else woff))
      else Inr (p = [], bufs, woff))"
  by pat_completeness auto
termination
proof (relation "measure (\<lambda>(p, bufs, woff). length p + (length bufs - woff))", goal_cases)
  case (2 p bufs woff x b' p')
  then have "append_body p (bufs ! woff) = Inr (b', p')" by simp
  from append_body_Inr [OF this] 2 show ?case by (cases p) auto
qed simp

declare CacheRecord_Append.simps [simp del]

definition Serialize ::
  "CacheRecord \<Rightarrow> CacheWriteBuffer list \<Rightarrow> nat \<Rightarrow> (bool \<times> CacheWriteBuffer list \<times> nat) res" where
  "Serialize r bufs woff =
     bnd (CacheRecord_Append (hdr_bytes (rec_hdr r)) bufs woff) (\<lambda>(ok, bufs, woff).
       if \<not> ok then Inr (False, bufs, woff)
       else bnd (CacheRecord_Append (rec_key r) bufs woff) (\<lambda>(ok, bufs, woff).
         if \<not> ok then Inr (False, bufs, woff)
         else CacheRecord_Append (rec_val r) bufs woff))"

section \<open>Making room and reading back\<close>

text \<open>
  The first loop of \<open>ExpandBuffer\<close>: the free space from \<open>woff\<close> on, \<open>None\<close> once it is enough.
\<close>

fun free_scan :: "nat \<Rightarrow> nat \<Rightarrow> CacheWriteBuffer list \<Rightarrow> nat option" where
  "free_scan sz free [] = Some free"
| "free_scan sz free (b # bs) =
     (if sz \<le> free + wb_free b then None else free_scan sz (free + wb_free b) bs)"

text \<open>The second loop: with buffers of size 0 the free space never grows.\<close>

function expand_loop :: "nat \<Rightarrow> nat \<Rightarrow> nat \<Rightarrow> CacheWriteBuffer list \<Rightarrow> CacheWriteBuffer list res" where
  "expand_loop wbs sz free bufs =
     (if free < sz then
        (if wbs = 0 then Inl Spins else expand_loop wbs sz (free + wbs) (bufs @ [wb_new wbs]))
      else Inr bufs)"
  by pat_completeness auto
termination by (relation "measure (\<lambda>(wbs, sz, free, bufs). sz - free)") auto

declare expand_loop.simps [simp del]

definition ExpandBuffer ::
  "nat \<Rightarrow> nat \<Rightarrow> CacheWriteBuffer list \<Rightarrow> nat \<Rightarrow> CacheWriteBuffer list res" where
  "ExpandBuffer wbs sz bufs woff =
     (case free_scan sz 0 (drop woff bufs) of
        None \<Rightarrow> Inr bufs
      | Some free \<Rightarrow> expand_loop wbs sz free bufs)"

text \<open>
  The loop of \<open>ReadBuffer\<close> from buffer \<open>i\<close> with \<open>todo\<close> bytes to go: its assertions, and the
  copy of what the buffer has. The subtraction \<open>Used() - start_off\<close> is one of \<open>size_t\<close>; a
  copy beyond the bytes written is out of bounds.
\<close>

fun read_loop_buf :: "nat \<Rightarrow> nat \<Rightarrow> nat \<Rightarrow> nat \<Rightarrow> CacheWriteBuffer list \<Rightarrow> (byte list \<times> nat) res" where
  "read_loop_buf woff i todo off [] = Inr ([], todo)"
| "read_loop_buf woff i todo off (b # bs) =
     (if todo = 0 then Inr ([], todo)
      else if \<not> i \<le> woff then Inl AssertFail
      else if \<not> (i = woff \<or> wb_free b = 0) then Inl AssertFail
      else if wb_used b < off then Inl OutOfBounds
      else
        (let n = (if todo > wb_used b - off then wb_used b - off else todo) in
         bnd (read_loop_buf woff (i + 1) (todo - n) 0 bs) (\<lambda>(rest, left).
           Inr (take n (drop off (wb_data b)) @ rest, left))))"

definition ReadBuffer ::
  "nat \<Rightarrow> CacheWriteBuffer list \<Rightarrow> nat \<Rightarrow> nat \<Rightarrow> nat \<Rightarrow> byte list res" where
  "ReadBuffer wbs bufs woff off sz =
     (if wbs = 0 then Inl ProcessExit
      else if \<not> off div wbs \<le> woff then Inl AssertFail
      else
        bnd (read_loop_buf woff (off div wbs) sz (off mod wbs) (drop (off div wbs) bufs))
          (\<lambda>(bytes, left). if left \<noteq> 0 then Inl AssertFail else Inr bytes))"

section \<open>The stream the buffers stand for\<close>

text \<open>
  \<open>n\<close> buffers of size \<open>w\<close> holding the stream \<open>s\<close>: full ones, at most one partly filled,
  empty ones. All that appends and reads depend on is the stream.
\<close>

definition mk_bufs :: "nat \<Rightarrow> nat \<Rightarrow> byte list \<Rightarrow> CacheWriteBuffer list" where
  "mk_bufs w n s = map (\<lambda>i. \<lparr>wb_size = w, wb_data = take w (drop (i * w) s)\<rparr>) [0..<n]"

lemma length_mk_bufs [simp]: "length (mk_bufs w n s) = n"
  by (simp add: mk_bufs_def)

lemma nth_mk_bufs [simp]:
  "i < n \<Longrightarrow> mk_bufs w n s ! i = \<lparr>wb_size = w, wb_data = take w (drop (i * w) s)\<rparr>"
  by (simp add: mk_bufs_def)

lemma mk_bufs_Suc:
  "length s \<le> n * w \<Longrightarrow> mk_bufs w n s @ [wb_new w] = mk_bufs w (Suc n) s"
  by (simp add: mk_bufs_def wb_new_def)

text \<open>
  The current buffer has number \<open>q\<close> and holds \<open>m\<close> bytes. Extending the stream inside it
  changes that buffer only.
\<close>

lemma mk_bufs_extend:
  assumes s: "length s = q * w + m" and m: "m < w" and q: "q < n" and d: "length d \<le> w - m"
  shows "(mk_bufs w n s)[q := \<lparr>wb_size = w, wb_data = drop (q * w) s @ d\<rparr>] = mk_bufs w n (s @ d)"
proof (rule nth_equalityI)
  fix i
  assume "i < length ((mk_bufs w n s)[q := \<lparr>wb_size = w, wb_data = drop (q * w) s @ d\<rparr>])"
  then have i: "i < n" by simp
  consider "i < q" | "i = q" | "q < i" by linarith
  then show "(mk_bufs w n s)[q := \<lparr>wb_size = w, wb_data = drop (q * w) s @ d\<rparr>] ! i =
      mk_bufs w n (s @ d) ! i"
  proof cases
    case 1
    then have "Suc i * w \<le> q * w" by (intro mult_le_mono1) simp
    then have "i * w + w \<le> length s" using s by simp
    with 1 i show ?thesis by simp
  next
    case 2
    with i s m d show ?thesis by simp
  next
    case 3
    then have "Suc q * w \<le> i * w" by (intro mult_le_mono1) simp
    then have "length s + length d \<le> i * w" using s d m by simp
    with 3 i show ?thesis by simp
  qed
qed simp

lemma mk_bufs_current:
  assumes "length s = q * w + m" "m < w" "q < n"
  shows "mk_bufs w n s ! q = \<lparr>wb_size = w, wb_data = drop (q * w) s\<rparr>"
    and "wb_free (mk_bufs w n s ! q) = w - m"
  using assms by (simp_all add: wb_free_def)

lemma append_body_stream:
  fixes p :: "byte list"
  assumes s: "length s = q * w + m" and m: "m < w" and q: "q < n"
  shows "append_body p (mk_bufs w n s ! q) =
    Inr (\<lparr>wb_size = w, wb_data = drop (q * w) s @ take (w - m) p\<rparr>, drop (w - m) p)"
  using assms mk_bufs_current [OF s m q]
  by (auto simp: append_body_def Let_def wb_append_def wb_free_def wb_used_def wb_capacity_def)

lemma fill_div:
  fixes w :: nat
  assumes "m < w" "d \<le> w - m"
  shows "(q * w + m + d) div w = (if m + d = w then q + 1 else q)"
proof (cases "m + d = w")
  case True
  then have "q * w + m + d = (q + 1) * w" by simp
  then show ?thesis using True assms by (simp only: nonzero_mult_div_cancel_right) simp
next
  case False
  then have "m + d < w" using assms by simp
  then show ?thesis using False by (simp add: add.assoc div_mult_self3)
qed

theorem CacheRecord_Append_stream:
  assumes w: "0 < w" and "length s + length p \<le> n * w"
  shows "CacheRecord_Append p (mk_bufs w n s) (length s div w) =
    Inr (True, mk_bufs w n (s @ p), length (s @ p) div w)"
  using assms(2)
proof (induction "length p" arbitrary: p s rule: less_induct)
  case less
  show ?case
  proof (cases "p = []")
    case True
    then show ?thesis by (simp add: CacheRecord_Append.simps)
  next
    case False
    obtain q m where s: "length s = q * w + m" and m: "m < w"
      using w by (metis div_mult_mod_eq mod_less_divisor)
    have "0 < length p" using False by simp
    then have "q * w < n * w" using less.prems s by linarith
    then have q: "q < n" by simp
    let ?d = "take (w - m) p"
    let ?b = "\<lparr>wb_size = w, wb_data = drop (q * w) s @ ?d\<rparr>"
    have d: "length ?d \<le> w - m" by simp
    have div: "length s div w = q" using s m by simp
    have free: "(wb_free ?b = 0) = (m + length ?d = w)" using s m d by (auto simp: wb_free_def)
    have "length (s @ ?d) = q * w + m + length ?d" using s by simp
    then have woff: "length (s @ ?d) div w = (if wb_free ?b = 0 then q + 1 else q)"
      unfolding free using fill_div [OF m d, of q] by (simp only:)
    have "CacheRecord_Append p (mk_bufs w n s) (length s div w) =
        CacheRecord_Append (drop (w - m) p) (mk_bufs w n (s @ ?d)) (length (s @ ?d) div w)"
      using False q unfolding woff div
      by (subst CacheRecord_Append.simps)
        (simp add: append_body_stream [OF s m q] mk_bufs_extend [OF s m q d] del: nth_mk_bufs)
    also have "\<dots> = Inr (True, mk_bufs w n ((s @ ?d) @ drop (w - m) p),
        length ((s @ ?d) @ drop (w - m) p) div w)"
    proof (rule less.hyps)
      show "length (drop (w - m) p) < length p" using False m by (cases p) auto
      show "length (s @ ?d) + length (drop (w - m) p) \<le> n * w"
        using less.prems by simp
    qed
    also have "(s @ ?d) @ drop (w - m) p = s @ p" by simp
    finally show ?thesis .
  qed
qed

text \<open>A record is appended to the stream as its bytes.\<close>

lemma Serialize_stream:
  assumes w: "0 < w" and "length s + length (record_bytes r) \<le> n * w"
  shows "Serialize r (mk_bufs w n s) (length s div w) =
    Inr (True, mk_bufs w n (s @ record_bytes r), length (s @ record_bytes r) div w)"
proof -
  have 1: "length s + length (hdr_bytes (rec_hdr r)) \<le> n * w"
    "length (s @ hdr_bytes (rec_hdr r)) + length (rec_key r) \<le> n * w"
    "length ((s @ hdr_bytes (rec_hdr r)) @ rec_key r) + length (rec_val r) \<le> n * w"
    using assms(2) by (simp_all add: record_bytes_def)
  show ?thesis
    unfolding Serialize_def CacheRecord_Append_stream [OF w 1(1)] bnd_simps prod.case
      CacheRecord_Append_stream [OF w 1(2)] CacheRecord_Append_stream [OF w 1(3)]
    by (simp add: record_bytes_def)
qed

section \<open>Room is made, and only room\<close>

lemma free_scan_total:
  "free_scan sz free bs = None \<Longrightarrow> sz \<le> free + sum_list (map wb_free bs)"
  "free_scan sz free bs = Some f \<Longrightarrow> f = free + sum_list (map wb_free bs)"
  by (induction sz free bs rule: free_scan.induct) (auto split: if_splits)

text \<open>The free space the scan adds up is the capacity that the stream leaves.\<close>

lemma mk_bufs_free_from:
  assumes w: "0 < w" and "length s \<le> n * w"
  shows "length s + sum_list (map wb_free (drop (length s div w) (mk_bufs w n s))) = n * w"
  using assms(2)
proof (induction n)
  case (Suc n)
  have eq: "mk_bufs w (Suc n) s = mk_bufs w n s @ [\<lparr>wb_size = w, wb_data = take w (drop (n * w) s)\<rparr>]"
    by (simp add: mk_bufs_def)
  show ?case
  proof (cases "length s \<le> n * w")
    case True
    then have "length s div w \<le> n" using w by (metis div_le_mono div_mult_self_is_m)
    with True Suc.IH show ?thesis by (simp add: eq wb_free_def)
  next
    case False
    have "length s div w \<le> Suc n" using Suc.prems w by (metis div_le_mono div_mult_self_is_m)
    show ?thesis
    proof (cases "length s = Suc n * w")
      case True
      then have "length s div w = Suc n" using w by (metis div_mult_self_is_m)
      then show ?thesis using True by simp
    next
      case lt: False
      then have "length s div w < Suc n" using Suc.prems w
        by (metis le_neq_implies_less less_mult_imp_div_less)
      moreover have "n \<le> length s div w"
        using False w by (metis div_le_mono div_mult_self_is_m nat_le_linear)
    ultimately have "length s div w = n" by simp
      with Suc.prems False show ?thesis by (simp add: eq wb_free_def)
    qed
  qed
qed (simp add: mk_bufs_def)

lemma expand_loop_mk_bufs:
  assumes "0 < w" and "length s + free = n * w"
  shows "\<exists>n'. expand_loop w sz free (mk_bufs w n s) = Inr (mk_bufs w n' s) \<and>
    n \<le> n' \<and> length s + sz \<le> n' * w \<and> (n' = n \<or> n' * w < length s + sz + w)"
  using assms(2)
proof (induction "sz - free" arbitrary: free n rule: less_induct)
  case less
  show ?case
  proof (cases "free < sz")
    case True
    have "length s + (free + w) = Suc n * w" using less.prems by simp
    moreover have "sz - (free + w) < sz - free" using True assms(1) by simp
    ultimately obtain n' where
      "expand_loop w sz (free + w) (mk_bufs w (Suc n) s) = Inr (mk_bufs w n' s)"
      "Suc n \<le> n'" "length s + sz \<le> n' * w" "n' = Suc n \<or> n' * w < length s + sz + w"
      using less.hyps by blast
    moreover from this(4) have "n' * w < length s + sz + w" using True less.prems by auto
    moreover have "mk_bufs w n s @ [wb_new w] = mk_bufs w (Suc n) s"
      using less.prems by (intro mk_bufs_Suc) simp
    ultimately show ?thesis
      using True assms(1) by (intro exI [of _ n']) (simp add: expand_loop.simps [of w sz free])
  next
    case False
    with less.prems show ?thesis
      by (intro exI [of _ n]) (simp add: expand_loop.simps [of w sz free])
  qed
qed

lemma ExpandBuffer_mk_bufs:
  assumes w: "0 < w" and s: "length s \<le> n * w"
  shows "\<exists>n'. ExpandBuffer w sz (mk_bufs w n s) (length s div w) = Inr (mk_bufs w n' s) \<and>
    n \<le> n' \<and> length s + sz \<le> n' * w \<and> (n' = n \<or> n' * w < length s + sz + w)"
proof (cases "free_scan sz 0 (drop (length s div w) (mk_bufs w n s))")
  case None
  with free_scan_total(1) [OF None] mk_bufs_free_from [OF w s] show ?thesis
    by (intro exI [of _ n]) (simp add: ExpandBuffer_def)
next
  case (Some f)
  with free_scan_total(2) [OF Some] mk_bufs_free_from [OF w s] have "length s + f = n * w" by simp
  from expand_loop_mk_bufs [OF w this, of sz] Some show ?thesis by (simp add: ExpandBuffer_def)
qed

section \<open>Reading back\<close>

text \<open>
  From buffer \<open>i\<close> on, the loop copies the stream, provided that a buffer it reads other than
  the one at \<open>woff\<close> is full.
\<close>

lemma take_split: "m \<le> k \<Longrightarrow> take k (drop p s) = take m (drop p s) @ take (k - m) (drop (p + m) s)"
  using take_add [of m "k - m" "drop p s"] by (simp add: add.commute)

lemma read_loop_stream:
  assumes w: "0 < w" and woff: "woff = length s div w"
  shows "i * w + off + k \<le> length s \<Longrightarrow> off < w \<Longrightarrow> length s \<le> n * w \<Longrightarrow>
    read_loop_buf woff i k off (drop i (mk_bufs w n s)) = Inr (take k (drop (i * w + off) s), 0)"
proof (induction k arbitrary: i off rule: less_induct)
  case (less k)
  show ?case
  proof (cases "k = 0")
    case True
    then show ?thesis by (cases "drop i (mk_bufs w n s)") simp_all
  next
    case False
    then have "i * w < n * w" using less.prems by linarith
    then have i: "i < n" by simp
    have "i * w \<le> length s" using less.prems by simp
    then have iw: "i \<le> woff" using w woff by (simp add: less_eq_div_iff_mult_less_eq)
    let ?b = "\<lparr>wb_size = w, wb_data = take w (drop (i * w) s)\<rparr>"
    have bs: "drop i (mk_bufs w n s) = ?b # drop (Suc i) (mk_bufs w n s)"
      using i by (simp add: Cons_nth_drop_Suc [symmetric])
    have full: "i = woff \<or> wb_free ?b = 0"
    proof (cases "i = woff")
      case False
      with iw have "Suc i * w \<le> woff * w" by (intro mult_le_mono1) simp
      also have "\<dots> \<le> length s" using woff by (simp add: div_times_less_eq_dividend)
      finally show ?thesis by (simp add: wb_free_def)
    qed simp
    let ?u = "wb_used ?b"
    have u: "?u = min w (length s - i * w)" by (simp add: wb_used_def)
    have off: "off \<le> ?u" using less.prems u by simp
    let ?m = "if k > ?u - off then ?u - off else k"
    show ?thesis
    proof (cases "k > ?u - off")
      case True
      then have uw: "?u = w" using less.prems u by linarith
      have "read_loop_buf woff (Suc i) (k - (w - off)) 0 (drop (Suc i) (mk_bufs w n s)) =
          Inr (take (k - (w - off)) (drop (Suc i * w + 0) s), 0)"
        using True False uw less.prems w by (intro less.IH) auto
      moreover have "take k (drop (i * w + off) s) =
          take (w - off) (drop off (take w (drop (i * w) s))) @ take (k - (w - off)) (drop (Suc i * w) s)"
        using take_split [of "w - off" k "i * w + off" s] True uw less.prems by (simp add: drop_take add.commute)
      ultimately show ?thesis using True False iw full uw off by (simp add: bs)
    next
      case le: False
      have "read_loop_buf woff (Suc i) 0 0 (drop (Suc i) (mk_bufs w n s)) = Inr ([], 0)"
        by (cases "drop (Suc i) (mk_bufs w n s)") simp_all
      moreover have "k \<le> w - off" using le u by simp
      ultimately show ?thesis
        using le False iw full off by (simp add: bs drop_take add.commute min_def)
    qed
  qed
qed

theorem ReadBuffer_stream:
  assumes "0 < w" and "length s \<le> n * w" and "off + sz \<le> length s"
  shows "ReadBuffer w (mk_bufs w n s) (length s div w) off sz = Inr (take sz (drop off s))"
proof -
  have "off div w \<le> length s div w" using assms(3) by (intro div_le_mono) simp
  moreover have "read_loop_buf (length s div w) (off div w) sz (off mod w)
      (drop (off div w) (mk_bufs w n s)) = Inr (take sz (drop off s), 0)"
    using read_loop_stream [OF assms(1) refl, of "off div w" "off mod w" sz s n] assms by simp
  ultimately show ?thesis using assms(1) by (simp add: ReadBuffer_def)
qed

end
