(* ===== verification/FileIO.thy ===== *)
theory FileIO
  imports WriteBuffer
begin

text \<open>
  The loops around \<open>write(2)\<close> and \<open>pread(2)\<close> in \<open>flashcache.cc\<close>, against an operating
  system that may do part of the work, be interrupted or fail, and the contract of an
  append-only log of bytes that the file and the write buffers both provide.
\<close>

section \<open>What the environment decides\<close>

text \<open>
  The replies of \<open>write\<close>: a number of bytes taken (at most what is offered), \<open>EINTR\<close>,
  another error. The replies of \<open>pread\<close>: a number of bytes it is willing to deliver, a
  return value 0 or below with \<open>errno\<close> equal to \<open>EINTR\<close>, another error.
\<close>

datatype write_reply = WDone nat | WEintr | WError
datatype read_reply = RDone nat | REintr | RError

text \<open>
  \<open>env_crc\<close> is \<open>boost::crc_32_type\<close> on a byte sequence; \<open>env_tail\<close> the memory that follows
  a heap buffer; the replies are given per call, for the bytes to write and for the offset
  and length to read.
\<close>

record env =
  env_crc :: "byte list \<Rightarrow> u32"
  env_tail :: "byte list"
  env_write :: "byte list \<Rightarrow> write_reply list"
  env_read :: "nat \<Rightarrow> nat \<Rightarrow> read_reply list"

section \<open>The loops\<close>

text \<open>
  The bytes that reach the file. A call that gives no further reply is \<open>Blocked\<close>; an error
  other than \<open>EINTR\<close> ends the process.
\<close>

fun write_loop :: "write_reply list \<Rightarrow> byte list \<Rightarrow> byte list res" where
  "write_loop rs [] = Inr []"
| "write_loop [] (b # bs) = Inl Blocked"
| "write_loop (WDone n # rs) (b # bs) =
     bnd (write_loop rs (drop n (b # bs))) (\<lambda>out. Inr (take n (b # bs) @ out))"
| "write_loop (WEintr # rs) (b # bs) = write_loop rs (b # bs)"
| "write_loop (WError # rs) (b # bs) = Inl ProcessExit"

text \<open>
  The loop of \<open>WriteableCacheFile::Read\<close>: the bytes obtained and whether the last \<open>pread\<close>
  returned a negative value.
\<close>

fun pread_loop :: "read_reply list \<Rightarrow> byte list \<Rightarrow> nat \<Rightarrow> nat \<Rightarrow> (byte list \<times> bool) res" where
  "pread_loop rs file off 0 = Inr ([], False)"
| "pread_loop [] file off (Suc left) = Inl Blocked"
| "pread_loop (RDone n # rs) file off (Suc left) =
     (let got = take (min n (Suc left)) (drop off file) in
      if got = [] then Inr ([], False)
      else bnd (pread_loop rs file (off + length got) (Suc left - length got))
        (\<lambda>(out, neg). Inr (got @ out, neg)))"
| "pread_loop (REintr # rs) file off (Suc left) = pread_loop rs file off (Suc left)"
| "pread_loop (RError # rs) file off (Suc left) = Inr ([], True)"

text \<open>Replies that finish the job: no error, and enough bytes in all.\<close>

fun delivers_write :: "write_reply list \<Rightarrow> nat \<Rightarrow> bool" where
  "delivers_write [] n = (n = 0)"
| "delivers_write (WDone k # rs) n = delivers_write rs (n - k)"
| "delivers_write (WEintr # rs) n = delivers_write rs n"
| "delivers_write (WError # rs) n = (n = 0)"

fun delivers_read :: "read_reply list \<Rightarrow> nat \<Rightarrow> bool" where
  "delivers_read [] n = (n = 0)"
| "delivers_read (RDone k # rs) n = (n = 0 \<or> (0 < k \<and> delivers_read rs (n - k)))"
| "delivers_read (REintr # rs) n = delivers_read rs n"
| "delivers_read (RError # rs) n = (n = 0)"

definition env_ok :: "env \<Rightarrow> bool" where
  "env_ok e \<longleftrightarrow>
     (\<forall>d. delivers_write (env_write e d) (length d)) \<and>
     (\<forall>off n. delivers_read (env_read e off n) n) \<and>
     NUL \<in> set (env_tail e)"

text \<open>However the work is split, what is written is what was to be written.\<close>

lemma write_loop_exact: "write_loop rs d = Inr out \<Longrightarrow> out = d"
proof (induction rs d arbitrary: out rule: write_loop.induct)
  case (3 n rs b bs)
  then obtain o' where "write_loop rs (drop n (b # bs)) = Inr o'" "out = take n (b # bs) @ o'"
    by (auto simp: bnd_eq_Inr)
  with 3 show ?case by (metis append_take_drop_id)
qed auto

lemma write_loop_delivers: "delivers_write rs (length d) \<Longrightarrow> write_loop rs d = Inr d"
proof (induction rs d rule: write_loop.induct)
  case (3 n rs b bs)
  then have "write_loop rs (drop n (b # bs)) = Inr (drop n (b # bs))" by simp
  then show ?case by (simp del: drop.simps take.simps)
qed simp_all

lemma pread_loop_delivers:
  "delivers_read rs n \<Longrightarrow> off + n \<le> length fl \<Longrightarrow>
   pread_loop rs fl off n = Inr (take n (drop off fl), False)"
proof (induction rs fl off n rule: pread_loop.induct)
  case (3 k rs fl off left)
  define got where "got = take (min k (Suc left)) (drop off fl)"
  have k: "0 < k" and l: "length got = min k (Suc left)" using 3 by (auto simp: got_def)
  then have ne: "got \<noteq> []" by (cases got) auto
  have "Suc left - length got = Suc left - k" using l by simp
  then have "delivers_read rs (Suc left - length got)" using "3.prems"(1) by simp
  then have IH: "pread_loop rs fl (off + length got) (Suc left - length got) =
      Inr (take (Suc left - length got) (drop (off + length got) fl), False)"
    using "3.prems"(2) ne l got_def by (intro "3.IH") auto
  have "take (Suc left) (drop off fl) =
      take (length got + (Suc left - length got)) (drop off fl)" using l by simp
  also have "\<dots> = take (length got) (drop off fl) @
      take (Suc left - length got) (drop (length got) (drop off fl))" by (rule take_add)
  also have "\<dots> = got @ take (Suc left - length got) (drop (off + length got) fl)"
    using l by (simp add: got_def add.commute)
  finally have eq: "take (Suc left) (drop off fl) =
      got @ take (Suc left - length got) (drop (off + length got) fl)" .
  show ?case
    by (simp only: pread_loop.simps Let_def got_def [symmetric] ne if_False IH bnd_simps
        prod.case eq)
qed auto

section \<open>An append-only log of bytes\<close>

fun put_list :: "(byte list \<Rightarrow> 's \<Rightarrow> 's res) \<Rightarrow> byte list list \<Rightarrow> 's \<Rightarrow> 's res" where
  "put_list put [] s = Inr s"
| "put_list put (d # ds) s = bnd (put d s) (put_list put ds)"

locale byte_log =
  fixes inv :: "'s \<Rightarrow> bool"
    and stream :: "'s \<Rightarrow> byte list"
    and put :: "byte list \<Rightarrow> 's \<Rightarrow> 's res"
    and get :: "nat \<Rightarrow> nat \<Rightarrow> 's \<Rightarrow> byte list res"
  assumes put_law: "inv s \<Longrightarrow> \<exists>s'. put d s = Inr s' \<and> inv s' \<and> stream s' = stream s @ d"
    and get_law: "inv s \<Longrightarrow> off + n \<le> length (stream s) \<Longrightarrow>
      get off n s = Inr (take n (drop off (stream s)))"
begin

lemma put_list_stream:
  "inv s \<Longrightarrow> \<exists>s'. put_list put ds s = Inr s' \<and> inv s' \<and> stream s' = stream s @ concat ds"
proof (induction ds arbitrary: s)
  case (Cons d ds)
  from put_law [OF Cons.prems, of d] obtain s1 where s1:
    "put d s = Inr s1" "inv s1" "stream s1 = stream s @ d" by blast
  with Cons.IH [OF s1(2)] show ?case by auto
qed simp

text \<open>Every entry of a series reads back at the offset at which it was put, whatever follows.\<close>

lemma put_list_get:
  assumes "inv s" "i < length ds"
  shows "\<exists>s'. put_list put ds s = Inr s' \<and>
    get (length (stream s) + length (concat (take i ds))) (length (ds ! i)) s' = Inr (ds ! i)"
proof -
  from put_list_stream [OF assms(1), of ds] obtain s' where s': "put_list put ds s = Inr s'"
    "inv s'" "stream s' = stream s @ concat ds" by blast
  have "concat ds = concat (take i ds) @ ds ! i @ concat (drop (Suc i) ds)"
    using id_take_nth_drop [OF assms(2)] by (metis concat.simps(2) concat_append)
  then have "stream s' = (stream s @ concat (take i ds)) @ ds ! i @ concat (drop (Suc i) ds)"
    using s'(3) by simp
  with get_law [OF s'(2), of "length (stream s @ concat (take i ds))" "length (ds ! i)"] s'(1)
  show ?thesis by simp
qed

end

text \<open>The file: a log whenever the system calls deliver.\<close>

definition file_put :: "byte list \<Rightarrow> env \<times> byte list \<Rightarrow> (env \<times> byte list) res" where
  "file_put d s = bnd (write_loop (env_write (fst s) d) d) (\<lambda>out. Inr (fst s, snd s @ out))"

definition file_get :: "nat \<Rightarrow> nat \<Rightarrow> env \<times> byte list \<Rightarrow> byte list res" where
  "file_get off n s =
     bnd (pread_loop (env_read (fst s) off n) (snd s) off n)
       (\<lambda>(out, neg). Inr (if neg then [] else out))"

interpretation file_log: byte_log "\<lambda>s. env_ok (fst s)" snd file_put file_get
  by unfold_locales (simp_all add: file_put_def file_get_def env_ok_def
      write_loop_delivers pread_loop_delivers)

text \<open>
  The buffers: \<open>ExpandBuffer\<close> followed by the appends. The state is the buffer size, the
  buffers and \<open>buf_woff_\<close>.
\<close>

definition bufs_put ::
  "byte list \<Rightarrow> nat \<times> CacheWriteBuffer list \<times> nat \<Rightarrow> (nat \<times> CacheWriteBuffer list \<times> nat) res" where
  "bufs_put d s = (case s of (w, bufs, woff) \<Rightarrow>
     bnd (ExpandBuffer w (length d) bufs woff) (\<lambda>bufs.
     bnd (CacheRecord_Append d bufs woff) (\<lambda>(ok, bufs, woff). Inr (w, bufs, woff))))"

definition bufs_get :: "nat \<Rightarrow> nat \<Rightarrow> nat \<times> CacheWriteBuffer list \<times> nat \<Rightarrow> byte list res" where
  "bufs_get off n s = (case s of (w, bufs, woff) \<Rightarrow> ReadBuffer w bufs woff off n)"

definition bufs_stream :: "nat \<times> CacheWriteBuffer list \<times> nat \<Rightarrow> byte list" where
  "bufs_stream s = (case s of (w, bufs, woff) \<Rightarrow> concat (map wb_data bufs))"

definition bufs_ok :: "nat \<times> CacheWriteBuffer list \<times> nat \<Rightarrow> bool" where
  "bufs_ok s = (case s of (w, bufs, woff) \<Rightarrow>
     0 < w \<and> (let st = concat (map wb_data bufs); n = length bufs in
       length st \<le> n * w \<and> bufs = mk_bufs w n st \<and> woff = length st div w))"

lemma mk_bufs_stream:
  "length s \<le> n * w \<Longrightarrow> concat (map wb_data (mk_bufs w n s)) = s"
proof (induction n arbitrary: s)
  case (Suc n)
  have "mk_bufs w (Suc n) s = \<lparr>wb_size = w, wb_data = take w s\<rparr> # mk_bufs w n (drop w s)"
    by (simp add: mk_bufs_def upt_conv_Cons map_Suc_upt [symmetric] add.commute
        del: upt_Suc)
  then show ?case using Suc.IH [of "drop w s"] Suc.prems by (cases "length s \<le> w") auto
qed (simp add: mk_bufs_def)

lemma bufs_ok_iff:
  "bufs_ok (w, bufs, woff) \<longleftrightarrow>
     0 < w \<and> (\<exists>n s. length s \<le> n * w \<and> bufs = mk_bufs w n s \<and> woff = length s div w)"
  by (auto simp: bufs_ok_def Let_def mk_bufs_stream)

interpretation buffer_log: byte_log bufs_ok bufs_stream bufs_put bufs_get
proof unfold_locales
  fix s and d :: "byte list"
  assume "bufs_ok s"
  then obtain w n t where w: "0 < w" and t: "length t \<le> n * w"
    and s: "s = (w, mk_bufs w n t, length t div w)" by (cases s) (auto simp: bufs_ok_iff)
  from ExpandBuffer_mk_bufs [OF w t, of "length d"] obtain n' where
    n': "ExpandBuffer w (length d) (mk_bufs w n t) (length t div w) = Inr (mk_bufs w n' t)"
    "length t + length d \<le> n' * w" by blast
  let ?s' = "(w, mk_bufs w n' (t @ d), length (t @ d) div w)"
  have "bufs_put d s = Inr ?s'"
    by (simp add: s bufs_put_def n' CacheRecord_Append_stream [OF w n'(2)])
  moreover have "bufs_ok ?s'"
    unfolding bufs_ok_iff using w n'(2) by (intro conjI exI [of _ n'] exI [of _ "t @ d"]) simp_all
  moreover have "bufs_stream ?s' = bufs_stream s @ d"
    using t n'(2) by (simp add: bufs_stream_def s mk_bufs_stream)
  ultimately show "\<exists>s'. bufs_put d s = Inr s' \<and> bufs_ok s' \<and> bufs_stream s' = bufs_stream s @ d"
    by blast
next
  fix s off n
  assume "bufs_ok s" "off + n \<le> length (bufs_stream s)"
  moreover from this obtain w m t where "0 < w" "length t \<le> m * w"
    "s = (w, mk_bufs w m t, length t div w)" by (cases s) (auto simp: bufs_ok_iff)
  ultimately show "bufs_get off n s = Inr (take n (drop off (bufs_stream s)))"
    by (simp add: bufs_get_def bufs_stream_def mk_bufs_stream ReadBuffer_stream)
qed

section \<open>Properties\<close>

text \<open>An environment in which every call does all of its work at once.\<close>

definition sample_env :: env where
  "sample_env = \<lparr>env_crc = (\<lambda>bs. word_of_nat (sum_list (map of_char bs))), env_tail = [NUL],
     env_write = (\<lambda>d. [WEintr, WDone (length d)]), env_read = (\<lambda>off n. [RDone n, RDone 1])\<rparr>"

lemma env_ok_sample [simp]: "env_ok sample_env"
proof -
  have "delivers_read [RDone n, RDone 1] n" for n by (cases n) simp_all
  then show ?thesis by (simp add: env_ok_def sample_env_def)
qed

text \<open>
  C32: the in-memory buffers of a file are a log. Any records appended one after the other,
  each after \<open>ExpandBuffer\<close> has made room for it, lie one behind the other in the stream of
  the buffers, whatever the size of the buffers and wherever a record is split, and
  \<open>ReadBuffer\<close> with the offset and the length of a record returns exactly its bytes.
\<close>

theorem buffers_return_records:
  assumes "0 < w" and "i < length ds"
  shows "\<exists>s. put_list bufs_put ds (w, [], 0) = Inr s \<and> bufs_ok s \<and> bufs_stream s = concat ds \<and>
    bufs_get (length (concat (take i ds))) (length (ds ! i)) s = Inr (ds ! i)"
proof -
  have ok: "bufs_ok (w, [], 0)" and e: "bufs_stream (w, [], 0) = []"
    using assms(1) by (simp_all add: bufs_ok_def bufs_stream_def mk_bufs_def)
  from buffer_log.put_list_stream [OF ok, of ds] buffer_log.put_list_get [OF ok assms(2)] e
  show ?thesis by auto
qed

theorem buffers_return_records_witness:
  "\<exists>s. put_list bufs_put [''abc'', ''defgh'', ''ij''] (4, [], 0) = Inr s \<and>
    bufs_stream s = ''abcdefghij'' \<and> bufs_get 3 5 s = Inr ''defgh''"
  using buffers_return_records [of 4 1 "[''abc'', ''defgh'', ''ij'']"] by (auto simp: eval_nat_numeral)

text \<open>
  Short writes, short reads and interrupted calls do not show. A file written by
  \<open>WritableFile::Write\<close>'s loop, piece by piece as the kernel takes the bytes, holds the
  records one behind the other, and the loop of \<open>Read\<close> gets each of them back, as long as the
  replies of the kernel deliver the bytes asked for and none is an error.
\<close>

lemma file_returns_records:
  assumes "env_ok e" and "i < length ds"
  shows "\<exists>file. put_list file_put ds (e, []) = Inr (e, file) \<and> file = concat ds \<and>
    file_get (length (concat (take i ds))) (length (ds ! i)) (e, file) = Inr (ds ! i)"
proof -
  have keep: "put_list file_put ds s = Inr s' \<Longrightarrow> fst s' = fst s" for s s'
    by (induction ds arbitrary: s) (auto simp: bnd_eq_Inr file_put_def)
  have ok: "env_ok (fst (e, []))" using assms(1) by simp
  from file_log.put_list_stream [OF ok, of ds] file_log.put_list_get [OF ok assms(2)] keep
  show ?thesis by fastforce
qed

end
