(* ===== verification/CacheFile.thy ===== *)
theory CacheFile
  imports FileIO Util
begin

text \<open>
  A cache file (\<open>WriteableCacheFile\<close> of \<open>flashcache.h\<close>, \<open>flashcache.cc\<close>). The bytes of the
  file on disk are an argument and a result of the operations that touch it; the object is
  the record below. \<open>wbmode\<close> is \<open>server.flashcache_mode == MODE_FLASH_WRITEBUFFER\<close>.
\<close>

section \<open>State\<close>

record LBA =
  lba_cache_id :: u32
  lba_off :: u32
  lba_size :: u32

definition lba_zero :: LBA where
  "lba_zero = \<lparr>lba_cache_id = 0, lba_off = 0, lba_size = 0\<rparr>"

text \<open>
  The file descriptor member, and the writer thread: none to join, \<open>Running\<close> while it waits for
  its semaphore or is in the loop of \<open>Write()\<close>, \<open>Leaving\<close> from the failed test of that loop to the
  test of \<open>eof_\<close>, \<open>Finished\<close> when it has returned and is not joined yet.
\<close>

datatype fd_state = FdUninit | FdOpen | FdClosed
datatype thread_state = NoThread | Running | Leaving | Finished

record cache_file =
  cf_id :: u32
  cf_max_size :: u32
  cf_wbs :: u32
  filesize :: u32
  cf_fd :: fd_state
  key_lists :: "byte list list"
  eof :: bool
  disk_woff :: u32
  cf_bufs :: "CacheWriteBuffer list"
  buf_woff :: nat
  buf_doff :: nat
  is_writer_running :: bool
  sem_writer :: nat
  tid :: thread_state

definition cf_new :: "u32 \<Rightarrow> u32 \<Rightarrow> u32 \<Rightarrow> cache_file" where
  "cf_new cid max_size wbs =
     \<lparr>cf_id = cid, cf_max_size = max_size, cf_wbs = wbs, filesize = 0, cf_fd = FdUninit,
      key_lists = [], eof = False, disk_woff = 0, cf_bufs = [], buf_woff = 0, buf_doff = 0,
      is_writer_running = False, sem_writer = 0, tid = NoThread\<rparr>"

text \<open>The name of the file inside the cache directory.\<close>

definition cf_name :: "u32 \<Rightarrow> byte list" where
  "cf_name cid = dec (unat cid) @ ''.rc''"

section \<open>Opening and creating\<close>

text \<open>
  \<open>FileExists\<close> on the result of \<open>access\<close>, \<open>None\<close> standing for success and \<open>EOTHER\<close> for every
  value of \<open>errno\<close> that the switch does not name: 0 when the file is there, 1 when it is not. For
  \<open>EOTHER\<close> a message is formatted with \<open>%s\<close> for the integer \<open>-1\<close>; the level \<open>LOG_ERROR\<close> is never
  filtered.
\<close>

datatype errno = EACCES | ELOOP | ENAMETOOLONG | ENOENT | ENOTDIR | EOTHER

definition FileExists :: "errno option \<Rightarrow> int res" where
  "FileExists r =
     (case r of None \<Rightarrow> Inr 0 | Some EOTHER \<Rightarrow> Inl OutOfBounds | Some _ \<Rightarrow> Inr 1)"

text \<open>\<open>access\<close> for a name in the directory of the cache, and the list of its names.\<close>

definition dir_access :: "(byte list \<times> byte list) list \<Rightarrow> byte list \<Rightarrow> errno option" where
  "dir_access dir name = (if map_of dir name = None then Some ENOENT else None)"

lemma FileExists_dir [simp]:
  "FileExists (dir_access dir name) = Inr (if map_of dir name = None then 1 else 0)"
  by (simp add: FileExists_def dir_access_def)

definition GetMultiFiles :: "(byte list \<times> byte list) list option \<Rightarrow> int \<times> byte list list" where
  "GetMultiFiles d = (case d of None \<Rightarrow> (- 1, []) | Some dir \<Rightarrow> (0, map fst dir))"

lemma GetMultiFiles_Some [simp]: "GetMultiFiles (Some dir) = (0, map fst dir)"
  by (simp add: GetMultiFiles_def)

text \<open>\<open>open\<close> with \<open>O_TRUNC\<close>; a failed call leaves a descriptor that every later call refuses.\<close>

definition cf_NewWritableFile :: "bool \<Rightarrow> cache_file \<Rightarrow> int \<times> cache_file" where
  "cf_NewWritableFile opened f = (0, f\<lparr>cf_fd := (if opened then FdOpen else FdClosed)\<rparr>)"

text \<open>
  \<open>Create\<close>: an existing file is reported and nothing is opened, and the result is still
  \<open>true\<close>. \<open>present\<close> says whether the file exists; the new content is the second result. The
  semaphore is that of the branch for systems other than Apple's (\<open>sem_init\<close>), and does not fail.
\<close>

definition cf_Create :: "bool \<Rightarrow> cache_file \<Rightarrow> bool \<times> cache_file \<times> byte list option" where
  "cf_Create present f =
     (if present then (True, f, None)
      else (True, f\<lparr>cf_fd := FdOpen, tid := Running, sem_writer := 0\<rparr>, Some []))"

definition cf_Open :: "byte list \<Rightarrow> cache_file \<Rightarrow> bool \<times> cache_file" where
  "cf_Open content f =
     (True, f\<lparr>filesize := word_of_nat (length content), cf_fd := FdOpen, eof := True\<rparr>)"

section \<open>Appending\<close>

text \<open>\<open>Write(src, size)\<close>: the whole record through \<open>write\<close>.\<close>

definition cf_Write_direct ::
  "env \<Rightarrow> byte list \<Rightarrow> cache_file \<Rightarrow> byte list \<Rightarrow> (cache_file \<times> byte list) res" where
  "cf_Write_direct e src f content =
     (case cf_fd f of
        FdUninit \<Rightarrow> Inl Uninitialised
      | FdClosed \<Rightarrow> Inl ProcessExit
      | FdOpen \<Rightarrow>
          bnd (write_loop (env_write e src) src) (\<lambda>out.
            Inr (f\<lparr>filesize := filesize f + word_of_nat (length src)\<rparr>, content @ out)))"

definition cf_DispatchBuffer :: "cache_file \<Rightarrow> cache_file" where
  "cf_DispatchBuffer f =
     (if is_writer_running f then f
      else if \<not> eof f \<and> buf_doff f = buf_woff f then f
      else
        (let f1 = (if eof f then f\<lparr>buf_woff := buf_woff f + 1\<rparr> else f)
         in f1\<lparr>sem_writer := sem_writer f1 + 1, is_writer_running := True\<rparr>))"

definition cf_Append ::
  "bool \<Rightarrow> env \<Rightarrow> byte list \<Rightarrow> byte list \<Rightarrow> cache_file \<Rightarrow> byte list \<Rightarrow>
   (bool \<times> LBA \<times> cache_file \<times> byte list) res" where
  "cf_Append wbmode e key val f content =
     (if eof f then Inr (False, lba_zero, f, content)
      else
        (let rec_size = CalcSize key val;
             lba = \<lparr>lba_cache_id = cf_id f, lba_off = disk_woff f, lba_size = rec_size\<rparr>;
             r = mk_record (env_crc e) key val
         in
         if wbmode then
           bnd (ExpandBuffer (unat (cf_wbs f)) (unat rec_size) (cf_bufs f) (buf_woff f)) (\<lambda>bufs.
           bnd (Serialize r bufs (buf_woff f)) (\<lambda>(ok, bufs, woff).
             let f1 = f\<lparr>cf_bufs := bufs, buf_woff := woff\<rparr> in
             if \<not> ok then Inr (False, lba, f1, content)
             else
               (let f2 = f1\<lparr>key_lists := key_lists f1 @ [key], disk_woff := disk_woff f1 + rec_size\<rparr>;
                    f3 = f2\<lparr>eof := (disk_woff f2 \<ge> cf_max_size f2)\<rparr>
                in Inr (True, lba, cf_DispatchBuffer f3, content))))
         else if unat rec_size \<noteq> length (record_bytes r) \<or> sint rec_size < 0 then Inl OutOfBounds
         else
           bnd (cf_Write_direct e (record_bytes r) f content) (\<lambda>(f1, content1).
             let f2 = f1\<lparr>disk_woff := disk_woff f1 + rec_size\<rparr>;
                 f3 = (if filesize f2 \<ge> cf_max_size f2 then f2\<lparr>eof := True\<rparr> else f2)
             in Inr (True, lba, f3\<lparr>key_lists := key_lists f3 @ [key]\<rparr>, content1))))"

section \<open>Reading\<close>

definition cf_Read ::
  "bool \<Rightarrow> env \<Rightarrow> LBA \<Rightarrow> cache_file \<Rightarrow> byte list \<Rightarrow> (byte list \<times> byte list) option res" where
  "cf_Read wbmode e lba f content =
     (let closed = (if wbmode then eof f \<and> cf_bufs f = [] else True);
          off = unat (lba_off lba); sz = unat (lba_size lba)
      in
      bnd (if \<not> closed then ReadBuffer (unat (cf_wbs f)) (cf_bufs f) (buf_woff f) off sz
           else
             (case cf_fd f of
                FdUninit \<Rightarrow> Inl Uninitialised
              | FdClosed \<Rightarrow> Inr []
              | FdOpen \<Rightarrow> file_get off sz (e, content)))
        (\<lambda>scratch.
          bnd (Deserialize (env_crc e) (scratch @ env_tail e) (length scratch)) (\<lambda>r.
            Inr (map_option (\<lambda>r. (rec_key r, rec_val r)) r))))"

section \<open>The writer thread and closing\<close>

text \<open>
  The body of the loop of \<open>Write()\<close>: one buffer goes to the file. Before it the thread calls
  \<open>FlashCache::Evict\<close>; \<open>over n\<close> says that this call would have to take
  \<open>fcache_mutex\<close>, which does not return while the mutex is held.
\<close>

definition cf_write_one ::
  "env \<Rightarrow> (nat \<Rightarrow> bool) \<Rightarrow> cache_file \<Rightarrow> byte list \<Rightarrow> (cache_file \<times> byte list) res" where
  "cf_write_one e over f content =
     (if \<not> buf_doff f < length (cf_bufs f) then Inl OutOfBounds
      else
        (let b = cf_bufs f ! buf_doff f in
         if over (wb_used b) then Inl Blocked
         else if wb_data b \<noteq> [] \<and> cf_fd f = FdUninit then Inl Uninitialised
         else if wb_data b \<noteq> [] \<and> cf_fd f = FdClosed then Inl ProcessExit
         else
           bnd (write_loop (env_write e (wb_data b)) (wb_data b)) (\<lambda>out.
             Inr (f\<lparr>filesize := filesize f + word_of_nat (wb_used b),
                    buf_doff := buf_doff f + 1\<rparr>, content @ out))))"

lemma cf_write_one_Inr:
  assumes "cf_write_one e over f c = Inr (f', c')"
  shows "buf_doff f < length (cf_bufs f) \<and>
    (let d = wb_data (cf_bufs f ! buf_doff f) in
     \<not> over (length d) \<and> c' = c @ d \<and>
     f' = f\<lparr>filesize := filesize f + word_of_nat (length d), buf_doff := buf_doff f + 1\<rparr>)"
  using assms by (auto simp: cf_write_one_def Let_def bnd_eq_Inr wb_used_def dest: write_loop_exact
      split: if_splits fd_state.splits)

text \<open>The loop: the buffers from \<open>buf_doff\<close> up to \<open>buf_woff\<close>.\<close>

function cf_write_bufs ::
  "env \<Rightarrow> (nat \<Rightarrow> bool) \<Rightarrow> cache_file \<Rightarrow> byte list \<Rightarrow> (cache_file \<times> byte list) res" where
  "cf_write_bufs e over f content =
     (if buf_doff f < buf_woff f then
        bnd (cf_write_one e over f content) (\<lambda>(f1, content1). cf_write_bufs e over f1 content1)
      else Inr (f\<lparr>is_writer_running := False\<rparr>, content))"
  by pat_completeness auto
termination
proof (relation "measure (\<lambda>(e, over, f, content). buf_woff f - buf_doff f)", goal_cases)
  case (2 e over f content x f1 c1)
  then show ?case using cf_write_one_Inr [of e over f content f1 c1]
    by (cases x) (auto simp: Let_def)
qed simp

declare cf_write_bufs.simps [simp del]

definition cf_ClearBuffers :: "cache_file \<Rightarrow> cache_file" where
  "cf_ClearBuffers f = f\<lparr>cf_bufs := []\<rparr>"

text \<open>
  \<open>tid.join()\<close> after \<open>eof_\<close> has been set and the semaphore posted: a thread that still runs
  wakes up once more, writes what is left, leaves its loop and clears the buffers. A thread that
  is past its loop finds \<open>eof_\<close> set and leaves without another turn.
\<close>

definition cf_join ::
  "env \<Rightarrow> (nat \<Rightarrow> bool) \<Rightarrow> cache_file \<Rightarrow> byte list \<Rightarrow> (cache_file \<times> byte list) res" where
  "cf_join e over f content =
     (case tid f of
        Running \<Rightarrow>
          bnd (cf_write_bufs e over (f\<lparr>sem_writer := sem_writer f - 1\<rparr>) content) (\<lambda>(f1, content1).
            Inr ((cf_ClearBuffers f1)\<lparr>tid := NoThread\<rparr>, content1))
      | Leaving \<Rightarrow> Inr ((cf_ClearBuffers f)\<lparr>tid := NoThread\<rparr>, content)
      | _ \<Rightarrow> Inr (f\<lparr>tid := NoThread\<rparr>, content))"

text \<open>What \<open>Close\<close> does to wake a thread that still runs, and the whole of \<open>Close\<close>.\<close>

definition cf_Close_post :: "bool \<Rightarrow> cache_file \<Rightarrow> cache_file" where
  "cf_Close_post wbmode f =
     (let f1 = f\<lparr>eof := True\<rparr>;
          f2 = (if wbmode then f1\<lparr>buf_woff := buf_woff f1 + 1\<rparr> else f1)
      in f2\<lparr>sem_writer := sem_writer f2 + 1\<rparr>)"

definition cf_Close ::
  "bool \<Rightarrow> env \<Rightarrow> (nat \<Rightarrow> bool) \<Rightarrow> cache_file \<Rightarrow> byte list \<Rightarrow> (cache_file \<times> byte list) res" where
  "cf_Close wbmode e over f content =
     bnd (if tid f \<noteq> NoThread then cf_join e over (cf_Close_post wbmode f) content
          else Inr (f, content))
       (\<lambda>(f, content). Inr ((cf_ClearBuffers f)\<lparr>cf_fd := FdClosed\<rparr>, content))"

text \<open>
  \<open>Delete\<close> closes the file and unlinks it; \<open>unlinked\<close> says whether \<open>unlink\<close> succeeds. The
  result is the size, as an \<open>int\<close>.
\<close>

definition cf_Delete ::
  "bool \<Rightarrow> env \<Rightarrow> (nat \<Rightarrow> bool) \<Rightarrow> bool \<Rightarrow> cache_file \<Rightarrow> byte list \<Rightarrow> (int \<times> cache_file \<times> byte list) res" where
  "cf_Delete wbmode e over unlinked f content =
     bnd (cf_Close wbmode e over f content) (\<lambda>(f1, content1).
       Inr (if unlinked then sint (filesize f1) else 0, f1, content1))"

section \<open>Recovery\<close>

text \<open>
  \<open>Repair\<close>: the file is walked record by record; every key found is given to the block
  index (the result lists the pairs in order) and to the key list. Each part is read by
  one \<open>pread\<close> whose result is not looked at: header bytes that do not arrive keep their
  previous value, key bytes that do not arrive are those of a fresh \<open>new char[]\<close>. A walk
  that does not end within the fuel is \<open>Spins\<close>.
\<close>

definition pread_once :: "env \<Rightarrow> byte list \<Rightarrow> nat \<Rightarrow> nat \<Rightarrow> byte list" where
  "pread_once e content off n =
     (case env_read e off n of RDone k # _ \<Rightarrow> take (min k n) (drop off content) | _ \<Rightarrow> [])"

fun repair_loop ::
  "nat \<Rightarrow> env \<Rightarrow> cache_file \<Rightarrow> byte list \<Rightarrow> nat \<Rightarrow> CacheRecordHeader \<Rightarrow> (byte list \<times> LBA) list res" where
  "repair_loop 0 e f content start_pos h = Inl Spins"
| "repair_loop (Suc fuel) e f content start_pos h =
     (if start_pos < unat (filesize f) then
        (let got = pread_once e content start_pos sizeof_hdr;
             h1 = hdr_of_bytes (got @ drop (length got) (hdr_bytes h));
             ks = unat (hdr_key_size h1);
             key = pread_once e content (start_pos + sizeof_hdr) ks;
             lsz = hdr_key_size h1 + hdr_val_size h1 + word_of_nat sizeof_hdr;
             lba = \<lparr>lba_cache_id = cf_id f, lba_off = word_of_nat start_pos, lba_size = lsz\<rparr>
         in if length key \<noteq> ks then Inl Uninitialised
            else bnd (repair_loop fuel e f content (start_pos + unat lsz) h1)
                   (\<lambda>es. Inr ((key, lba) # es)))
      else Inr [])"

definition hdr_init :: CacheRecordHeader where
  "hdr_init = \<lparr>hdr_magic = 0, hdr_crc = 0, hdr_key_size = 0, hdr_val_size = 0\<rparr>"

definition cf_Repair ::
  "nat \<Rightarrow> env \<Rightarrow> cache_file \<Rightarrow> byte list \<Rightarrow> (cache_file \<times> (byte list \<times> LBA) list) res" where
  "cf_Repair fuel e f content =
     bnd (repair_loop fuel e f content 0 hdr_init)
       (\<lambda>es. Inr (f\<lparr>key_lists := key_lists f @ map fst es\<rparr>, es))"

section \<open>A record inside a stream\<close>

text \<open>\<open>stored\<close>: the address is that of a record of the key and the value in the stream.\<close>

definition stored :: "env \<Rightarrow> byte list \<Rightarrow> LBA \<Rightarrow> byte list \<Rightarrow> byte list \<Rightarrow> bool" where
  "stored e st lba k v \<longleftrightarrow> no_nul k \<and> no_nul v \<and> rec_len k v < 2 ^ 31 \<and>
     unat (lba_size lba) = rec_len k v \<and>
     unat (lba_off lba) + rec_len k v \<le> length st \<and>
     take (rec_len k v) (drop (unat (lba_off lba)) st) = record_bytes (mk_record (env_crc e) k v)"

lemma stored_append: "stored e st lba k v \<Longrightarrow> stored e (st @ ext) lba k v"
  by (auto simp: stored_def)

lemma stored_new:
  assumes "no_nul k" "no_nul v" "rec_len k v < 2 ^ 31" "length st < 2 ^ 32"
    and "lba_off lba = word_of_nat (length st)" "lba_size lba = word_of_nat (rec_len k v)"
  shows "stored e (st @ record_bytes (mk_record (env_crc e) k v)) lba k v"
  using assms by (simp add: stored_def unsigned_of_nat take_bit_nat_eq_self)

lemma stored_decode:
  assumes "env_ok e" "stored e st lba k v"
  shows "Deserialize (env_crc e)
      (take (unat (lba_size lba)) (drop (unat (lba_off lba)) st) @ env_tail e) (unat (lba_size lba)) =
    Inr (Some (mk_record (env_crc e) k v))"
  using assms Deserialize_record [of k v "env_tail e" "env_crc e"]
  by (simp add: stored_def env_ok_def rec_len_def)

section \<open>Direct writing\<close>

lemma cf_Read_direct:
  assumes "env_ok e" "stored e content lba k v" "cf_fd f = FdOpen"
  shows "cf_Read False e lba f content = Inr (Some (k, v))"
proof -
  have "file_get (unat (lba_off lba)) (unat (lba_size lba)) (e, content) =
      Inr (take (unat (lba_size lba)) (drop (unat (lba_off lba)) content))"
    using assms by (intro file_log.get_law [where s = "(e, content)", simplified])
      (auto simp: stored_def)
  moreover have "length (take (unat (lba_size lba)) (drop (unat (lba_off lba)) content)) =
      unat (lba_size lba)"
    using assms(2) by (simp add: stored_def)
  ultimately show ?thesis
    using assms stored_decode [OF assms(1,2)] by (simp add: cf_Read_def)
qed

lemma cf_Append_direct:
  assumes "env_ok e" "cf_fd f = FdOpen" "\<not> eof f" "rec_len k v < 2 ^ 31"
  shows "cf_Append False e k v f content =
    (let lba = \<lparr>lba_cache_id = cf_id f, lba_off = disk_woff f, lba_size = word_of_nat (rec_len k v)\<rparr>;
         sz = filesize f + word_of_nat (rec_len k v)
     in Inr (True, lba,
          f\<lparr>filesize := sz, disk_woff := disk_woff f + word_of_nat (rec_len k v),
            eof := (cf_max_size f \<le> sz), key_lists := key_lists f @ [k]\<rparr>,
          content @ record_bytes (mk_record (env_crc e) k v)))"
proof -
  let ?bs = "record_bytes (mk_record (env_crc e) k v)"
  have w: "write_loop (env_write e ?bs) ?bs = Inr ?bs"
    using assms(1) unfolding env_ok_def by (blast intro: write_loop_delivers)
  have n: "unat (word_of_nat (rec_len k v) :: u32) = rec_len k v"
    using assms(4) by (simp add: unsigned_of_nat take_bit_nat_eq_self)
  have s: "\<not> sint (word_of_nat (rec_len k v) :: u32) < 0"
    using assms(4) by (simp add: sint_small_nat)
  show ?thesis
    using assms(2,3) w n s
    by (auto simp: cf_Append_def cf_Write_direct_def Let_def CalcSize_rec_len)
qed

end
