(* ===== verification/Floats.thy ===== *)
theory Floats
  imports Prelude
begin

text \<open>
  The two floating-point comparisons of the program, on non-negative integers: the
  conversion of an unsigned integer to \<open>float\<close> (24 significant bits) or \<open>double\<close> (53) and
  a division of two of them, rounded to nearest with ties to even as IEEE 754 has it.
\<close>

fun bitlen :: "nat \<Rightarrow> nat" where
  "bitlen n = (if n = 0 then 0 else Suc (bitlen (n div 2)))"

declare bitlen.simps [simp del]

text \<open>\<open>q\<close> whole steps and a remainder \<open>r\<close> of a step \<open>d\<close>: the nearer neighbour.\<close>

definition nearest :: "nat \<Rightarrow> nat \<Rightarrow> nat \<Rightarrow> nat" where
  "nearest q r d = (if 2 * r > d \<or> (2 * r = d \<and> odd q) then q + 1 else q)"

definition round_bits :: "nat \<Rightarrow> nat \<Rightarrow> nat" where
  "round_bits p n =
     (let e = bitlen n - p in nearest (n div 2 ^ e) (n mod 2 ^ e) (2 ^ e) * 2 ^ e)"

text \<open>\<open>a / b\<close> rounded to \<open>p\<close> bits, times \<open>2 ^ 64\<close>.\<close>

definition quot_scaled :: "nat \<Rightarrow> nat \<Rightarrow> nat \<Rightarrow> nat" where
  "quot_scaled p a b =
     (let n = a * 2 ^ 64; e = bitlen (n div b) - p;
          q = n div b div 2 ^ e; r = n - q * (2 ^ e * b)
      in nearest q r (2 ^ e * b) * 2 ^ e)"

lemma bitlen_less: "n < 2 ^ bitlen n"
proof (induction n rule: bitlen.induct)
  case (1 n)
  show ?case
  proof (cases "n = 0")
    case False
    with 1 have "n div 2 < 2 ^ bitlen (n div 2)" by simp
    then have "n < 2 * 2 ^ bitlen (n div 2)" by linarith
    with False show ?thesis by (subst bitlen.simps) simp
  qed simp
qed

lemma bitlen_le: "n < 2 ^ p \<Longrightarrow> bitlen n \<le> p"
proof (induction n arbitrary: p rule: bitlen.induct)
  case (1 n)
  show ?case
  proof (cases "n = 0")
    case False
    with 1 obtain p' where p: "p = Suc p'" by (cases p) auto
    with 1 False have "bitlen (n div 2) \<le> p'" by simp
    with False p show ?thesis by (subst bitlen.simps) simp
  qed (simp add: bitlen.simps)
qed

lemma bitlen_0 [simp]: "bitlen 0 = 0"
  by (subst bitlen.simps) simp

lemma nearest_0 [simp]: "0 < d \<Longrightarrow> nearest q 0 d = q"
  by (simp add: nearest_def)

lemma round_bits_exact: "n < 2 ^ p \<Longrightarrow> round_bits p n = n"
  using bitlen_le [of n p] by (simp add: round_bits_def)

lemma nearest_bounds:
  assumes "r < d"
  shows "2 * (nearest q r d * d) \<le> 2 * (q * d + r) + d"
    and "2 * (q * d + r) \<le> 2 * (nearest q r d * d) + d"
  using assms by (auto simp: nearest_def algebra_simps)

text \<open>A conversion to \<open>p\<close> bits is off by at most one part in \<open>2 ^ p\<close>.\<close>

lemma bitlen_ge: "0 < n \<Longrightarrow> 2 ^ (bitlen n - 1) \<le> n"
proof (induction n rule: bitlen.induct)
  case (1 n)
  show ?case
  proof (cases "n = 1")
    case False
    with 1 have "2 ^ (bitlen (n div 2) - 1) \<le> n div 2" by simp
    moreover have "0 < bitlen (n div 2)" using False 1 by (subst bitlen.simps) simp
    ultimately have "2 ^ bitlen (n div 2) \<le> 2 * (n div 2)"
      by (cases "bitlen (n div 2)") simp_all
    also have "\<dots> \<le> n" by simp
    finally show ?thesis using 1 by (subst bitlen.simps) simp
  qed (simp add: bitlen.simps)
qed

lemma round_bits_error:
  assumes "0 < p"
  shows "2 ^ p * round_bits p n \<le> 2 ^ p * n + n"
    and "2 ^ p * n \<le> 2 ^ p * round_bits p n + n"
proof -
  let ?e = "bitlen n - p" and ?r = "round_bits p n"
  have r: "2 * ?r \<le> 2 * n + 2 ^ ?e" "2 * n \<le> 2 * ?r + 2 ^ ?e"
    using nearest_bounds [of "n mod 2 ^ ?e" "2 ^ ?e" "n div 2 ^ ?e", unfolded div_mult_mod_eq]
    unfolding round_bits_def Let_def by simp_all
  have "2 ^ p * ?r \<le> 2 ^ p * n + n \<and> 2 ^ p * n \<le> 2 ^ p * ?r + n"
  proof (cases "bitlen n \<le> p")
    case True
    then have "n < 2 ^ p" using bitlen_less [of n] power_increasing [of "bitlen n" p "2::nat"]
      by (meson less_le_trans numeral_One one_le_numeral)
    then show ?thesis by (simp add: round_bits_exact)
  next
    case False
    then have "0 < n" by (cases "n = 0") simp_all
    have "2 ^ p * 2 ^ ?e = (2::nat) ^ bitlen n" using False by (simp flip: power_add)
    also have "\<dots> = 2 * 2 ^ (bitlen n - 1)" using False by (cases "bitlen n") simp_all
    also have "\<dots> \<le> 2 * n" using bitlen_ge [OF \<open>0 < n\<close>] by simp
    finally have e: "2 ^ p * 2 ^ ?e \<le> 2 * n" .
    have "2 ^ p * (2 * ?r) \<le> 2 ^ p * (2 * n + 2 ^ ?e)" "2 ^ p * (2 * n) \<le> 2 ^ p * (2 * ?r + 2 ^ ?e)"
      using r by (simp_all only: mult_le_mono2)
    with e show ?thesis by (simp add: algebra_simps)
  qed
  then show "2 ^ p * ?r \<le> 2 ^ p * n + n" "2 ^ p * n \<le> 2 ^ p * ?r + n" by blast+
qed

text \<open>
  The quotient lies within half a step of the exact one, and a step is at most
  \<open>2 ^ (k - p)\<close> where the scaled quotient has \<open>k\<close> bits.
\<close>

lemma quot_scaled_bounds:
  fixes a b p :: nat
  defines "e \<equiv> bitlen (a * 2 ^ 64 div b) - p"
  assumes "0 < b"
  shows "2 * (quot_scaled p a b * b) \<le> 2 * (a * 2 ^ 64) + 2 ^ e * b"
    and "2 * (a * 2 ^ 64) \<le> 2 * (quot_scaled p a b * b) + 2 ^ e * b"
proof -
  let ?n = "a * 2 ^ 64"
  let ?d = "2 ^ e * b"
  let ?q = "?n div b div 2 ^ e"
  have q: "?q = ?n div ?d" by (simp add: div_mult2_eq mult.commute)
  then have r: "?n - ?q * ?d = ?n mod ?d" by (simp add: minus_div_mult_eq_mod)
  have "?n mod ?d < ?d" using assms by simp
  from nearest_bounds [OF this, of ?q] have
    "2 * (nearest ?q (?n - ?q * ?d) ?d * ?d) \<le> 2 * ?n + ?d"
    "2 * ?n \<le> 2 * (nearest ?q (?n - ?q * ?d) ?d * ?d) + ?d"
    unfolding r unfolding q div_mult_mod_eq by blast+
  then show "2 * (quot_scaled p a b * b) \<le> 2 * ?n + ?d" "2 * ?n \<le> 2 * (quot_scaled p a b * b) + ?d"
    by (simp_all add: quot_scaled_def Let_def e_def mult.assoc)
qed

lemma quot_scaled_exact:
  fixes a b p :: nat
  assumes "0 < b" and "a = c * b" and "bitlen (c * 2 ^ 64) \<le> p + 64"
  shows "quot_scaled p a b = c * 2 ^ 64"
proof -
  define e where "e = bitlen (c * 2 ^ 64) - p"
  have n: "a * 2 ^ 64 div b = c * 2 ^ 64"
    using assms(1,2) by (simp add: mult.assoc mult.left_commute [of b])
  have "e \<le> 64" using assms(3) by (simp add: e_def)
  then have pow: "(2::nat) ^ 64 = 2 ^ e * 2 ^ (64 - e)" by (simp flip: power_add)
  have q: "c * 2 ^ 64 div 2 ^ e = c * 2 ^ (64 - e)" by (simp only: pow) simp
  have "a * 2 ^ 64 = c * 2 ^ (64 - e) * (2 ^ e * b)" by (simp only: pow assms(2)) simp
  then have r: "a * 2 ^ 64 - c * 2 ^ (64 - e) * (2 ^ e * b) = 0" by simp
  have "quot_scaled p a b = c * 2 ^ (64 - e) * 2 ^ e"
    unfolding quot_scaled_def Let_def n e_def [symmetric] q r using assms(1) by simp
  then show ?thesis by (simp only: pow) simp
qed

end
