(* ===== verification/FlashCache.thy ===== *)
theory FlashCache
  imports CacheFile LruCache Dictionary Floats
begin

text \<open>
  The metadata of the flash cache (\<open>Metadata\<close>) and the cache itself (\<open>FlashCache\<close>), both of
  \<open>flashcache.h\<close>, \<open>flashcache.cc\<close>, with the directory of the cache as an association list
  from file names to contents. \<open>WriteableCacheFile *\<close> is an address in \<open>fc_objs\<close>. The mutex
  is the flag \<open>fcache_mutex\<close>: locking it while it is held is \<open>Blocked\<close>.
\<close>

section \<open>Metadata\<close>

record metadata =
  cache_file_index :: "(u32, nat) lru_cache"
  block_index :: "(byte list \<times> LBA) list"

definition meta_new :: metadata where
  "meta_new = \<lparr>cache_file_index = lru_new, block_index = []\<rparr>"

definition meta_Insert_file :: "u32 \<Rightarrow> nat \<Rightarrow> metadata \<Rightarrow> metadata" where
  "meta_Insert_file cid p m = m\<lparr>cache_file_index := lru_insert cid p (cache_file_index m)\<rparr>"

text \<open>\<open>std::unordered_map::insert\<close>: nothing happens when the key is present.\<close>

definition meta_Insert :: "byte list \<Rightarrow> LBA \<Rightarrow> metadata \<Rightarrow> metadata" where
  "meta_Insert key lba m =
     (case map_of (block_index m) key of
        None \<Rightarrow> m\<lparr>block_index := AList.update key lba (block_index m)\<rparr>
      | Some _ \<Rightarrow> m)"

definition meta_Lookup :: "byte list \<Rightarrow> metadata \<Rightarrow> LBA option" where
  "meta_Lookup key m = map_of (block_index m) key"

definition meta_Lookup_file :: "u32 \<Rightarrow> metadata \<Rightarrow> (nat option \<times> metadata) res" where
  "meta_Lookup_file cid m =
     bnd (lru_get cid (cache_file_index m)) (\<lambda>(r, idx). Inr (r, m\<lparr>cache_file_index := idx\<rparr>))"

text \<open>\<open>block_index_[key]\<close> makes an entry if there is none; then the entry is erased.\<close>

definition meta_Erase :: "byte list \<Rightarrow> metadata \<Rightarrow> metadata" where
  "meta_Erase key m =
     (let bi = (case map_of (block_index m) key of
                  None \<Rightarrow> AList.update key lba_zero (block_index m)
                | Some _ \<Rightarrow> block_index m)
      in m\<lparr>block_index := AList.delete key bi\<rparr>)"

definition meta_Evict :: "(nat \<times> cache_file) list \<Rightarrow> metadata \<Rightarrow> (nat \<times> metadata) res" where
  "meta_Evict objs m =
     bnd (lru_evict (cache_file_index m)) (\<lambda>(p, idx).
       (case map_of objs p of
          None \<Rightarrow> Inl UseAfterFree
        | Some f \<Rightarrow> Inr (p, m\<lparr>cache_file_index := lru_erase (cf_id f) idx\<rparr>)))"

section \<open>The cache\<close>

record flash_cache =
  fc_objs :: "(nat \<times> cache_file) list"
  fc_next :: nat
  fc_dir :: "(byte list \<times> byte list) list"
  fc_size :: u64
  writer_cache_id :: u32
  fc_cur :: nat
  fc_meta :: metadata
  fcache_mutex :: bool
  opt_cache_size :: u64
  opt_file_size :: u32
  opt_wbs :: u32

text \<open>
  The object the constructor leaves: \<open>size_\<close> and \<open>cache_file_\<close> have no initialiser, so their
  first values are whatever the memory held.
\<close>

definition fc_construct :: "u64 \<Rightarrow> u32 \<Rightarrow> u32 \<Rightarrow> u64 \<Rightarrow> nat \<Rightarrow> (byte list \<times> byte list) list \<Rightarrow> flash_cache" where
  "fc_construct cache_size file_size wbs garbage_size garbage_file dir =
     \<lparr>fc_objs = [], fc_next = 0, fc_dir = dir, fc_size = garbage_size, writer_cache_id = 0,
      fc_cur = garbage_file, fc_meta = meta_new, fcache_mutex = False,
      opt_cache_size = cache_size, opt_file_size = file_size, opt_wbs = wbs\<rparr>"

definition fc_obj :: "nat \<Rightarrow> flash_cache \<Rightarrow> cache_file res" where
  "fc_obj p fc = (case map_of (fc_objs fc) p of None \<Rightarrow> Inl UseAfterFree | Some f \<Rightarrow> Inr f)"

definition fc_content :: "cache_file \<Rightarrow> flash_cache \<Rightarrow> byte list" where
  "fc_content f fc = (case map_of (fc_dir fc) (cf_name (cf_id f)) of None \<Rightarrow> [] | Some c \<Rightarrow> c)"

definition fc_put :: "nat \<Rightarrow> cache_file \<Rightarrow> byte list \<Rightarrow> flash_cache \<Rightarrow> flash_cache" where
  "fc_put p f content fc =
     fc\<lparr>fc_objs := AList.update p f (fc_objs fc),
        fc_dir := AList.update (cf_name (cf_id f)) content (fc_dir fc)\<rparr>"

text \<open>\<open>pthread_mutex_lock(&fcache_mutex)\<close> and the unlock.\<close>

definition fc_lock :: "flash_cache \<Rightarrow> flash_cache res" where
  "fc_lock fc = (if fcache_mutex fc then Inl Blocked else Inr (fc\<lparr>fcache_mutex := True\<rparr>))"

definition fc_unlock :: "flash_cache \<Rightarrow> flash_cache" where
  "fc_unlock fc = fc\<lparr>fcache_mutex := False\<rparr>"

definition fc_NewCacheFile :: "flash_cache \<Rightarrow> (int \<times> flash_cache) res" where
  "fc_NewCacheFile fc =
     (let cid = writer_cache_id fc;
          f = cf_new cid (opt_file_size fc) (opt_wbs fc);
          p = fc_next fc
      in
      bnd (FileExists (dir_access (fc_dir fc) (cf_name cid))) (\<lambda>r.
        let (ok, f1, c) = cf_Create (r = 0) f in
         if \<not> ok then Inl ProcessExit
         else
           Inr (0, fc\<lparr>fc_objs := (p, f1) # fc_objs fc, fc_next := Suc p,
                      fc_dir := (case c of None \<Rightarrow> fc_dir fc
                                 | Some bytes \<Rightarrow> AList.update (cf_name cid) bytes (fc_dir fc)),
                      fc_cur := p, fc_meta := meta_Insert_file cid p (fc_meta fc),
                      writer_cache_id := cid + 1\<rparr>)))"

text \<open>
  \<open>while (!cache_file_->Append(key, value, &lba))\<close>. \<open>Inr (None, _)\<close> is the \<open>return -1\<close> of the
  body. The fuel bounds the iterations; two are enough.
\<close>

fun fc_append_loop ::
  "nat \<Rightarrow> bool \<Rightarrow> env \<Rightarrow> byte list \<Rightarrow> byte list \<Rightarrow> flash_cache \<Rightarrow> (LBA option \<times> flash_cache) res" where
  "fc_append_loop 0 wbmode e key val fc = Inl Spins"
| "fc_append_loop (Suc fuel) wbmode e key val fc =
     bnd (fc_obj (fc_cur fc) fc) (\<lambda>f.
     bnd (cf_Append wbmode e key val f (fc_content f fc)) (\<lambda>(ok, lba, f1, c1).
       let fc1 = fc_put (fc_cur fc) f1 c1 fc in
       if ok then Inr (Some lba, fc1)
       else if \<not> eof f1 then Inr (None, fc1)
       else
         bnd (fc_NewCacheFile fc1) (\<lambda>(r, fc2).
           if r \<noteq> 0 then Inr (None, fc2) else fc_append_loop fuel wbmode e key val fc2)))"

text \<open>The early returns leave \<open>fcache_mutex\<close> locked.\<close>

definition fc_Insert ::
  "bool \<Rightarrow> env \<Rightarrow> byte list \<Rightarrow> byte list \<Rightarrow> flash_cache \<Rightarrow> (int \<times> flash_cache) res" where
  "fc_Insert wbmode e key val fc =
     bnd (fc_lock fc) (\<lambda>fc.
     bnd (fc_append_loop 2 wbmode e key val fc) (\<lambda>(r, fc).
       (case r of
          None \<Rightarrow> Inr (- 1, fc)
        | Some lba \<Rightarrow>
            Inr (0, fc_unlock (fc\<lparr>fc_size := fc_size fc + ucast (lba_size lba),
                                  fc_meta := meta_Insert key lba (fc_meta fc)\<rparr>)))))"

text \<open>
  \<open>Lookup\<close>: \<open>None\<close> is the null pointer. The status of the read is assigned and not tested,
  so a record that cannot be read gives an empty value.
\<close>

definition fc_Lookup ::
  "bool \<Rightarrow> env \<Rightarrow> byte list \<Rightarrow> flash_cache \<Rightarrow> (byte list option \<times> flash_cache) res" where
  "fc_Lookup wbmode e key fc =
     bnd (fc_lock fc) (\<lambda>fc.
       (case meta_Lookup key (fc_meta fc) of
          None \<Rightarrow> Inr (None, fc)
        | Some lba \<Rightarrow>
            bnd (meta_Lookup_file (lba_cache_id lba) (fc_meta fc)) (\<lambda>(p, m).
              let fc = fc\<lparr>fc_meta := m\<rparr> in
              (case p of
                 None \<Rightarrow> Inr (None, fc)
               | Some p \<Rightarrow>
                   bnd (fc_obj p fc) (\<lambda>f.
                   bnd (cf_Read wbmode e lba f (fc_content f fc)) (\<lambda>r.
                     let blk_val = (case r of None \<Rightarrow> [] | Some (k, v) \<Rightarrow> v)
                     in Inr (Some blk_val, fc_unlock fc)))))))"

definition fc_DeleteMetaData :: "byte list \<Rightarrow> flash_cache \<Rightarrow> flash_cache" where
  "fc_DeleteMetaData key fc = fc\<lparr>fc_meta := meta_Erase key (fc_meta fc)\<rparr>"

text \<open>\<open>size + size_ > opt_.cache_size * 1.0f\<close>: both sides are converted to \<open>float\<close>.\<close>

definition fc_over :: "u64 \<Rightarrow> flash_cache \<Rightarrow> bool" where
  "fc_over sz fc \<longleftrightarrow>
     round_bits 24 (unat (sz + fc_size fc)) > round_bits 24 (unat (opt_cache_size fc))"

text \<open>
  The body of the loop of \<open>Evict\<close>, between lock and unlock. \<open>caller\<close> is the file whose writer
  thread makes the call: joining a thread from itself throws and ends the process.
  \<open>delete f\<close> runs \<open>Close\<close> again on the closed file.
\<close>

definition fc_evict_one ::
  "bool \<Rightarrow> env \<Rightarrow> nat option \<Rightarrow> flash_cache \<Rightarrow> flash_cache res" where
  "fc_evict_one wbmode e caller fc =
     bnd (meta_Evict (fc_objs fc) (fc_meta fc)) (\<lambda>(p, m).
     bnd (fc_obj p fc) (\<lambda>f.
       if caller = Some p then Inl ProcessExit
       else
         bnd (cf_Delete wbmode e (\<lambda>n. fc_over (word_of_nat n) fc)
                (map_of (fc_dir fc) (cf_name (cf_id f)) \<noteq> None) f (fc_content f fc))
           (\<lambda>(n, f1, c1).
             Inr (fc\<lparr>fc_size := fc_size fc - word_of_int n,
                     fc_meta := fold meta_Erase (key_lists f1) m,
                     fc_dir := AList.delete (cf_name (cf_id f)) (fc_dir fc),
                     fc_objs := AList.delete p (fc_objs fc)\<rparr>))))"

lemma meta_Evict_shrinks:
  "meta_Evict objs m = Inr (p, m') \<Longrightarrow>
   length (m_list (cache_file_index m')) < length (m_list (cache_file_index m))"
  by (auto simp: meta_Evict_def bnd_eq_Inr lru_evict_def lru_erase_def split: option.splits if_splits)

lemma fold_meta_Erase_index [simp]:
  "cache_file_index (fold meta_Erase ks m) = cache_file_index m"
  by (induction ks arbitrary: m) (simp_all add: meta_Erase_def Let_def)

lemma fc_evict_one_shrinks:
  "fc_evict_one wbmode e caller fc = Inr fc' \<Longrightarrow>
   length (m_list (cache_file_index (fc_meta fc'))) < length (m_list (cache_file_index (fc_meta fc)))"
  by (auto simp: fc_evict_one_def bnd_eq_Inr split: if_splits dest: meta_Evict_shrinks)

function fc_Evict :: "bool \<Rightarrow> env \<Rightarrow> nat option \<Rightarrow> u64 \<Rightarrow> flash_cache \<Rightarrow> flash_cache res" where
  "fc_Evict wbmode e caller sz fc =
     (if fc_over sz fc then
        bnd (fc_lock fc) (\<lambda>fc1.
        bnd (fc_evict_one wbmode e caller fc1) (\<lambda>fc2.
          fc_Evict wbmode e caller sz (fc_unlock fc2)))
      else Inr fc)"
  by pat_completeness auto
termination
proof (relation "measure (\<lambda>(wbmode, e, caller, sz, fc). length (m_list (cache_file_index (fc_meta fc))))",
    goal_cases)
  case (2 wbmode e caller sz fc fc1 fc2)
  then show ?case
    using fc_evict_one_shrinks [of wbmode e caller fc1 fc2]
    by (auto simp: fc_lock_def fc_unlock_def split: if_splits)
qed simp

declare fc_Evict.simps [simp del]

section \<open>Opening and closing\<close>

definition ends_with_rc :: "byte list \<Rightarrow> bool" where
  "ends_with_rc s \<longleftrightarrow> length s > 3 \<and> drop (length s - 3) s = ''.rc''"

text \<open>
  The body of the loop of \<open>Open\<close> for one directory entry. The file that is opened is the
  one named after the number, which need not be the entry; \<open>fopen\<close> of a missing file gives
  a null pointer and \<open>fseek\<close> dereferences it.
\<close>

definition fc_open_entry :: "env \<Rightarrow> byte list \<Rightarrow> flash_cache \<Rightarrow> flash_cache res" where
  "fc_open_entry e name fc =
     (if \<not> ends_with_rc name then Inr fc
      else
        (let cid = c_atoi (take (length name - 3) name); f = cf_new cid 0 0 in
         (case map_of (fc_dir fc) (cf_name cid) of
            None \<Rightarrow> Inl NullDeref
          | Some content \<Rightarrow>
              (let f1 = snd (cf_Open content f) in
               bnd (cf_Repair (length content + 1) e f1 content) (\<lambda>(f2, es).
                 let p = fc_next fc;
                     m = fold (\<lambda>(k, lba). meta_Insert k lba) es (fc_meta fc)
                 in Inr (fc\<lparr>fc_objs := (p, f2) # fc_objs fc, fc_next := Suc p,
                            fc_size := fc_size fc + scast (filesize f1),
                            fc_meta := meta_Insert_file cid p m,
                            writer_cache_id := (if cid \<ge> writer_cache_id fc then cid + 1
                                                else writer_cache_id fc)\<rparr>))))))"

fun fc_open_entries :: "env \<Rightarrow> byte list list \<Rightarrow> flash_cache \<Rightarrow> flash_cache res" where
  "fc_open_entries e [] fc = Inr fc"
| "fc_open_entries e (n # ns) fc = bnd (fc_open_entry e n fc) (fc_open_entries e ns)"

definition fc_Open :: "env \<Rightarrow> flash_cache \<Rightarrow> (int \<times> flash_cache) res" where
  "fc_Open e fc =
     bnd (fc_open_entries e (snd (GetMultiFiles (Some (fc_dir fc)))) fc) (\<lambda>fc1.
     bnd (fc_NewCacheFile fc1) (\<lambda>(r, fc2). Inr (if r \<noteq> 0 then - 1 else 0, fc2)))"

text \<open>
  \<open>FlashCache::Close\<close> closes the files without taking the mutex, so the writer thread of a file
  that has buffers left may evict other files before it writes each of them.
\<close>

definition fc_set_obj :: "nat \<Rightarrow> cache_file \<Rightarrow> flash_cache \<Rightarrow> flash_cache" where
  "fc_set_obj p f fc = fc\<lparr>fc_objs := AList.update p f (fc_objs fc)\<rparr>"

lemma fc_set_obj_simps [simp]:
  "map_of (fc_objs (fc_set_obj p f fc)) = (map_of (fc_objs fc))(p \<mapsto> f)"
  "fc_meta (fc_set_obj p f fc) = fc_meta fc" "fc_dir (fc_set_obj p f fc) = fc_dir fc"
  by (simp_all add: fc_set_obj_def update_conv')

lemma fc_evict_one_caller:
  "fc_evict_one wbmode e (Some p) fc = Inr fc' \<Longrightarrow> map_of (fc_objs fc') p = map_of (fc_objs fc) p"
  by (auto simp: fc_evict_one_def bnd_eq_Inr delete_conv' split: if_splits)

lemma fc_Evict_caller:
  "fc_Evict wbmode e (Some p) sz fc = Inr fc' \<Longrightarrow>
   map_of (fc_objs fc') p = map_of (fc_objs fc) p \<and>
   length (m_list (cache_file_index (fc_meta fc'))) \<le> length (m_list (cache_file_index (fc_meta fc)))"
proof (induction wbmode e "Some p" sz fc rule: fc_Evict.induct)
  case (1 wbmode e sz fc)
  show ?case
  proof (cases "fc_over sz fc")
    case False
    with "1.prems" show ?thesis by (simp add: fc_Evict.simps [of wbmode e _ sz fc])
  next
    case True
    with "1.prems" obtain fc1 fc2 where st: "fc_lock fc = Inr fc1"
      "fc_evict_one wbmode e (Some p) fc1 = Inr fc2"
      "fc_Evict wbmode e (Some p) sz (fc_unlock fc2) = Inr fc'"
      by (auto simp: fc_Evict.simps [of wbmode e _ sz fc] bnd_eq_Inr)
    from "1.hyps" [OF True st(1,2,3)] fc_evict_one_caller [OF st(2)] fc_evict_one_shrinks [OF st(2)] st(1)
    show ?thesis by (auto simp: fc_lock_def fc_unlock_def split: if_splits)
  qed
qed

function fc_writer_loop :: "bool \<Rightarrow> env \<Rightarrow> nat \<Rightarrow> flash_cache \<Rightarrow> flash_cache res" where
  "fc_writer_loop wbmode e p fc =
     bnd (fc_obj p fc) (\<lambda>f.
       if buf_doff f < buf_woff f then
         if \<not> buf_doff f < length (cf_bufs f) then Inl OutOfBounds
         else
           bnd (fc_Evict wbmode e (Some p) (word_of_nat (wb_used (cf_bufs f ! buf_doff f))) fc) (\<lambda>fc1.
           bnd (cf_write_one e (\<lambda>_. False) f (fc_content f fc1)) (\<lambda>(f1, c1).
             fc_writer_loop wbmode e p (fc_put p f1 c1 fc1)))
       else Inr (fc_set_obj p (f\<lparr>is_writer_running := False\<rparr>) fc))"
  by pat_completeness auto
termination
proof (relation "measure (\<lambda>(wbmode, e, p, fc).
    case map_of (fc_objs fc) p of None \<Rightarrow> 0 | Some f \<Rightarrow> buf_woff f - buf_doff f)", goal_cases)
  case (2 wbmode e p fc f fc1 x f1 c1)
  then show ?case using cf_write_one_Inr [of e _ f "fc_content f fc1" f1 c1]
    by (auto simp: fc_obj_def fc_put_def update_conv' Let_def split: option.splits)
qed simp

declare fc_writer_loop.simps [simp del]

lemma fc_writer_loop_shrinks:
  "fc_writer_loop wbmode e p fc = Inr fc' \<Longrightarrow>
   length (m_list (cache_file_index (fc_meta fc'))) \<le> length (m_list (cache_file_index (fc_meta fc)))"
proof (induction wbmode e p fc rule: fc_writer_loop.induct)
  case (1 wbmode e p fc)
  from "1.prems" obtain f where f: "fc_obj p fc = Inr f"
    by (auto simp: fc_writer_loop.simps [of wbmode e p fc] bnd_eq_Inr)
  show ?case
  proof (cases "buf_doff f < buf_woff f")
    case False
    with "1.prems" f show ?thesis by (auto simp: fc_writer_loop.simps [of wbmode e p fc])
  next
    case True
    with "1.prems" f obtain fc1 f1 c1 where st: "buf_doff f < length (cf_bufs f)"
      "fc_Evict wbmode e (Some p) (word_of_nat (wb_used (cf_bufs f ! buf_doff f))) fc = Inr fc1"
      "cf_write_one e (\<lambda>_. False) f (fc_content f fc1) = Inr (f1, c1)"
      "fc_writer_loop wbmode e p (fc_put p f1 c1 fc1) = Inr fc'"
      by (auto simp: fc_writer_loop.simps [of wbmode e p fc] bnd_eq_Inr split: if_splits)
    from "1.IH" [OF f True _ st(2,3) refl st(4)] st(1) fc_Evict_caller [OF st(2)] show ?thesis
      by (simp add: fc_put_def)
  qed
qed

text \<open>\<open>WriteableCacheFile::Close\<close> of the object at \<open>p\<close>, called with the mutex free.\<close>

definition fc_close_file :: "bool \<Rightarrow> env \<Rightarrow> nat \<Rightarrow> flash_cache \<Rightarrow> flash_cache res" where
  "fc_close_file wbmode e p fc =
     bnd (fc_obj p fc) (\<lambda>f.
     bnd (let g = cf_Close_post wbmode f in
          case tid f of
            NoThread \<Rightarrow> Inr fc
          | Finished \<Rightarrow> Inr (fc_set_obj p (g\<lparr>tid := NoThread\<rparr>) fc)
          | Leaving \<Rightarrow> Inr (fc_set_obj p ((cf_ClearBuffers g)\<lparr>tid := NoThread\<rparr>) fc)
          | Running \<Rightarrow>
              bnd (fc_writer_loop wbmode e p (fc_set_obj p (g\<lparr>sem_writer := sem_writer g - 1\<rparr>) fc)) (\<lambda>fc1.
              bnd (fc_obj p fc1) (\<lambda>f1. Inr (fc_set_obj p ((cf_ClearBuffers f1)\<lparr>tid := NoThread\<rparr>) fc1))))
       (\<lambda>fc2. bnd (fc_obj p fc2) (\<lambda>f2.
          Inr (fc_set_obj p ((cf_ClearBuffers f2)\<lparr>cf_fd := FdClosed\<rparr>) fc2))))"

lemma fc_close_file_shrinks:
  "fc_close_file wbmode e p fc = Inr fc' \<Longrightarrow>
   length (m_list (cache_file_index (fc_meta fc'))) \<le> length (m_list (cache_file_index (fc_meta fc)))"
  by (auto simp: fc_close_file_def bnd_eq_Inr Let_def split: thread_state.splits
      dest!: fc_writer_loop_shrinks) (metis thread_state.exhaust)

function fc_Close :: "bool \<Rightarrow> env \<Rightarrow> flash_cache \<Rightarrow> flash_cache res" where
  "fc_Close wbmode e fc =
     (if lru_size (cache_file_index (fc_meta fc)) > 0 then
        bnd (lru_evict (cache_file_index (fc_meta fc))) (\<lambda>(p, idx).
        bnd (fc_close_file wbmode e p (fc\<lparr>fc_meta := (fc_meta fc)\<lparr>cache_file_index := idx\<rparr>\<rparr>))
          (fc_Close wbmode e))
      else Inr fc)"
  by pat_completeness auto
termination
proof (relation "measure (\<lambda>(wbmode, e, fc). length (m_list (cache_file_index (fc_meta fc))))", goal_cases)
  case (2 wbmode e fc x p idx fc1)
  then have ev: "lru_evict (cache_file_index (fc_meta fc)) = Inr (p, idx)"
    and cl: "fc_close_file wbmode e p (fc\<lparr>fc_meta := (fc_meta fc)\<lparr>cache_file_index := idx\<rparr>\<rparr>) = Inr fc1"
    by auto
  from ev have "length (m_list idx) < length (m_list (cache_file_index (fc_meta fc)))"
    by (auto simp: lru_evict_def split: if_splits option.splits)
  with fc_close_file_shrinks [OF cl] show ?case by simp
qed simp

declare fc_Close.simps [simp del]

end
