(* ===== verification/FlashIndex.thy ===== *)
theory FlashIndex
  imports FlashCache
begin

text \<open>
  The flash cache as a dictionary, for direct writing: the invariant that ties the block
  index, the index of the files, the file objects and the bytes in the directory together,
  its preservation by \<open>Insert\<close>, \<open>Lookup\<close> and \<open>DeleteMetaData\<close>, and what they return.
\<close>

section \<open>Reading the state\<close>

abbreviation fc_idx :: "flash_cache \<Rightarrow> (u32, nat) lru_cache" where
  "fc_idx fc \<equiv> cache_file_index (fc_meta fc)"

definition fc_bytes :: "flash_cache \<Rightarrow> u32 \<Rightarrow> byte list" where
  "fc_bytes fc cid = (case map_of (fc_dir fc) (cf_name cid) of None \<Rightarrow> [] | Some c \<Rightarrow> c)"

text \<open>What the index promises for a key: the value of the record at its address.\<close>

definition fc_look :: "env \<times> flash_cache \<Rightarrow> byte list \<Rightarrow> byte list option" where
  "fc_look s k =
     (case meta_Lookup k (fc_meta (snd s)) of
        None \<Rightarrow> None
      | Some lba \<Rightarrow>
          (case Deserialize (env_crc (fst s))
                  (take (unat (lba_size lba))
                     (drop (unat (lba_off lba)) (fc_bytes (snd s) (lba_cache_id lba))) @ env_tail (fst s))
                  (unat (lba_size lba)) of
             Inr (Some r) \<Rightarrow> Some (rec_val r)
           | _ \<Rightarrow> None))"

definition good_entry :: "byte list \<Rightarrow> byte list \<Rightarrow> bool" where
  "good_entry k v \<longleftrightarrow> no_nul k \<and> no_nul v \<and> rec_len k v < 2 ^ 31"

definition fc_room :: "flash_cache \<Rightarrow> nat \<Rightarrow> bool" where
  "fc_room fc n \<longleftrightarrow> unat (writer_cache_id fc) + n < 2 ^ 32"

section \<open>The invariant\<close>

text \<open>\<open>cur_ok\<close>: the file being written; its two offsets count the bytes on disk.\<close>

definition cur_ok :: "flash_cache \<Rightarrow> cache_file \<Rightarrow> bool" where
  "cur_ok fc f \<longleftrightarrow>
     (let n = length (fc_bytes fc (cf_id f)) in
      cf_max_size f = opt_file_size fc \<and> n < 2 ^ 32 \<and> filesize f = word_of_nat n \<and>
      disk_woff f = word_of_nat n \<and> (\<not> eof f \<longrightarrow> n \<le> unat (opt_file_size fc)))"

definition files_ok :: "flash_cache \<Rightarrow> bool" where
  "files_ok fc \<longleftrightarrow>
     (\<forall>p f. map_of (fc_objs fc) p = Some f \<longrightarrow> p < fc_next fc) \<and>
     (\<forall>cid p. lru_value (fc_idx fc) cid = Some p \<longrightarrow> cid < writer_cache_id fc \<and>
        (\<exists>f. map_of (fc_objs fc) p = Some f \<and> cf_id f = cid \<and> cf_fd f = FdOpen)) \<and>
     (\<forall>cid \<ge> writer_cache_id fc. map_of (fc_dir fc) (cf_name cid) = None)"

definition fc_base :: "env \<Rightarrow> flash_cache \<Rightarrow> bool" where
  "fc_base e fc \<longleftrightarrow>
     env_ok e \<and> lru.settled (fc_idx fc) \<and> unat (opt_file_size fc) \<le> 2 ^ 31 \<and> files_ok fc \<and>
     (\<forall>k lba. map_of (block_index (fc_meta fc)) k = Some lba \<longrightarrow>
        lru_value (fc_idx fc) (lba_cache_id lba) \<noteq> None \<and>
        (\<exists>v. stored e (fc_bytes fc (lba_cache_id lba)) lba k v)) \<and>
     (\<forall>p f. map_of (fc_objs fc) p = Some f \<longrightarrow> buf_doff f = buf_woff f)"

definition fc_wf :: "env \<Rightarrow> flash_cache \<Rightarrow> bool" where
  "fc_wf e fc \<longleftrightarrow> fc_base e fc \<and>
     (\<exists>f. map_of (fc_objs fc) (fc_cur fc) = Some f \<and>
        lru_value (fc_idx fc) (cf_id f) = Some (fc_cur fc) \<and> cur_ok fc f)"

text \<open>Between two operations the mutex is free.\<close>

definition fc_inv :: "env \<times> flash_cache \<Rightarrow> bool" where
  "fc_inv s \<longleftrightarrow> fc_wf (fst s) (snd s) \<and> \<not> fcache_mutex (snd s)"

lemma fc_baseD:
  assumes "fc_base e fc"
  shows "env_ok e" "lru.settled (fc_idx fc)" "unat (opt_file_size fc) \<le> 2 ^ 31" "files_ok fc"
    and "\<And>k lba. map_of (block_index (fc_meta fc)) k = Some lba \<Longrightarrow>
        lru_value (fc_idx fc) (lba_cache_id lba) \<noteq> None \<and>
        (\<exists>v. stored e (fc_bytes fc (lba_cache_id lba)) lba k v)"
    and "\<And>p f. map_of (fc_objs fc) p = Some f \<Longrightarrow> buf_doff f = buf_woff f"
  using assms unfolding fc_base_def by blast+

lemma fc_wfD:
  assumes "fc_wf e fc"
  shows "env_ok e" "lru.settled (fc_idx fc)" "unat (opt_file_size fc) \<le> 2 ^ 31" "files_ok fc"
    and "\<exists>f. map_of (fc_objs fc) (fc_cur fc) = Some f \<and>
        lru_value (fc_idx fc) (cf_id f) = Some (fc_cur fc) \<and> cur_ok fc f"
    and "\<And>k lba. map_of (block_index (fc_meta fc)) k = Some lba \<Longrightarrow>
        lru_value (fc_idx fc) (lba_cache_id lba) \<noteq> None \<and>
        (\<exists>v. stored e (fc_bytes fc (lba_cache_id lba)) lba k v)"
    and "\<And>p f. map_of (fc_objs fc) p = Some f \<Longrightarrow> buf_doff f = buf_woff f"
  using assms unfolding fc_wf_def fc_base_def by blast+

lemma fc_wf_base: "fc_wf e fc \<Longrightarrow> fc_base e fc"
  by (simp add: fc_wf_def)

lemma files_okD:
  assumes "files_ok fc"
  shows "\<And>p f. map_of (fc_objs fc) p = Some f \<Longrightarrow> p < fc_next fc"
    and "\<And>cid p. lru_value (fc_idx fc) cid = Some p \<Longrightarrow> cid < writer_cache_id fc \<and>
        (\<exists>f. map_of (fc_objs fc) p = Some f \<and> cf_id f = cid \<and> cf_fd f = FdOpen)"
    and "\<And>cid. writer_cache_id fc \<le> cid \<Longrightarrow> map_of (fc_dir fc) (cf_name cid) = None"
  using assms unfolding files_ok_def by blast+

lemma cf_name_inject [simp]: "cf_name a = cf_name b \<longleftrightarrow> a = b"
  by (simp add: cf_name_def word_unat_eq_iff)

text \<open>The components the invariant does not read.\<close>

lemma fc_bytes_frame [simp]:
  "fc_bytes (fc\<lparr>fc_size := n\<rparr>) = fc_bytes fc"
  "fc_bytes (fc\<lparr>fcache_mutex := b\<rparr>) = fc_bytes fc"
  "fc_bytes (fc\<lparr>fc_meta := m\<rparr>) = fc_bytes fc"
  by (simp_all add: fc_bytes_def fun_eq_iff)

lemma fc_wf_frame [simp]:
  "fc_wf e (fc\<lparr>fc_size := n\<rparr>) \<longleftrightarrow> fc_wf e fc"
  "fc_wf e (fc\<lparr>fcache_mutex := b\<rparr>) \<longleftrightarrow> fc_wf e fc"
  by (simp_all add: fc_wf_def fc_base_def files_ok_def cur_ok_def)

lemma fc_look_cong:
  assumes "map_of (block_index (fc_meta fc')) k = map_of (block_index (fc_meta fc)) k"
    and "fc_bytes fc' = fc_bytes fc"
  shows "fc_look (e, fc') k = fc_look (e, fc) k"
  using assms
  by (cases "map_of (block_index (fc_meta fc)) k") (simp_all add: fc_look_def meta_Lookup_def)

lemma fc_look_frame [simp]:
  "fc_look (e, fc\<lparr>fc_size := n\<rparr>) = fc_look (e, fc)"
  "fc_look (e, fc\<lparr>fcache_mutex := b\<rparr>) = fc_look (e, fc)"
  by (rule ext, rule fc_look_cong; simp)+

lemma fc_look_eq:
  assumes "fc_wf e fc"
  shows "fc_look (e, fc) k = None \<longleftrightarrow> map_of (block_index (fc_meta fc)) k = None"
    and "map_of (block_index (fc_meta fc)) k = Some lba \<Longrightarrow>
      stored e (fc_bytes fc (lba_cache_id lba)) lba k v \<Longrightarrow> fc_look (e, fc) k = Some v"
proof -
  have dec: "fc_look (e, fc) k = Some v" if "map_of (block_index (fc_meta fc)) k = Some lba"
    "stored e (fc_bytes fc (lba_cache_id lba)) lba k v" for lba v
    using that stored_decode [OF fc_wfD(1) [OF assms] that(2)]
    by (simp add: fc_look_def meta_Lookup_def)
  then show "map_of (block_index (fc_meta fc)) k = Some lba \<Longrightarrow>
      stored e (fc_bytes fc (lba_cache_id lba)) lba k v \<Longrightarrow> fc_look (e, fc) k = Some v" .
  show "fc_look (e, fc) k = None \<longleftrightarrow> map_of (block_index (fc_meta fc)) k = None"
  proof (cases "map_of (block_index (fc_meta fc)) k")
    case None
    then show ?thesis by (simp add: fc_look_def meta_Lookup_def)
  next
    case (Some lba)
    with fc_wfD(6) [OF assms Some] obtain v where
      "stored e (fc_bytes fc (lba_cache_id lba)) lba k v" by blast
    from dec [OF Some this] Some show ?thesis by simp
  qed
qed

lemma fc_look_good:
  assumes "fc_wf e fc" "fc_look (e, fc) k = Some v"
  shows "good_entry k v"
proof -
  from assms(2) obtain lba where lba: "map_of (block_index (fc_meta fc)) k = Some lba"
    using fc_look_eq(1) [OF assms(1), of k] by auto
  from fc_wfD(6) [OF assms(1) lba] obtain w where
    w: "stored e (fc_bytes fc (lba_cache_id lba)) lba k w" by blast
  with fc_look_eq(2) [OF assms(1) lba w] assms(2) show ?thesis
    by (simp add: stored_def good_entry_def)
qed

section \<open>Growing\<close>

text \<open>
  \<open>fc_grows\<close>: every file stays under its number and its bytes are continued. A record that
  is stored stays stored.
\<close>

definition fc_grows :: "flash_cache \<Rightarrow> flash_cache \<Rightarrow> bool" where
  "fc_grows fc fc' \<longleftrightarrow>
     (\<forall>cid p. lru_value (fc_idx fc) cid = Some p \<longrightarrow>
        lru_value (fc_idx fc') cid = Some p \<and>
        (\<exists>d. fc_bytes fc' cid = fc_bytes fc cid @ d))"

lemma fc_grows_stored:
  assumes "fc_grows fc fc'" "lru_value (fc_idx fc) (lba_cache_id lba) \<noteq> None"
    and "stored e (fc_bytes fc (lba_cache_id lba)) lba k v"
  shows "lru_value (fc_idx fc') (lba_cache_id lba) \<noteq> None \<and>
    stored e (fc_bytes fc' (lba_cache_id lba)) lba k v"
  using assms stored_append by (fastforce simp: fc_grows_def)

lemma fc_grows_trans: "fc_grows a b \<Longrightarrow> fc_grows b c \<Longrightarrow> fc_grows a c"
  unfolding fc_grows_def by (metis append.assoc)

lemma fc_look_grows:
  assumes "fc_wf e fc" "fc_wf e fc'" "fc_grows fc fc'"
    and "block_index (fc_meta fc') = block_index (fc_meta fc)"
  shows "fc_look (e, fc') = fc_look (e, fc)"
proof
  fix k
  show "fc_look (e, fc') k = fc_look (e, fc) k"
  proof (cases "map_of (block_index (fc_meta fc)) k")
    case None
    then show ?thesis by (simp add: fc_look_def meta_Lookup_def assms(4))
  next
    case (Some lba)
    with fc_wfD(6) [OF assms(1) Some] obtain v where v:
      "lru_value (fc_idx fc) (lba_cache_id lba) \<noteq> None"
      "stored e (fc_bytes fc (lba_cache_id lba)) lba k v" by blast
    with fc_grows_stored [OF assms(3)] have
      "stored e (fc_bytes fc' (lba_cache_id lba)) lba k v" by blast
    with v Some show ?thesis
      using fc_look_eq(2) [OF assms(1)] fc_look_eq(2) [OF assms(2)] assms(4) by metis
  qed
qed

text \<open>An entry for a record that is stored may be added to the index.\<close>

lemma map_of_meta_Insert:
  "map_of (block_index (meta_Insert k lba m)) =
     (if map_of (block_index m) k = None then (map_of (block_index m))(k \<mapsto> lba)
      else map_of (block_index m))"
  by (auto simp: meta_Insert_def update_conv' split: option.splits)

lemma meta_Insert_index [simp]: "cache_file_index (meta_Insert k lba m) = cache_file_index m"
  by (simp add: meta_Insert_def split: option.splits)

lemma fc_wf_meta:
  assumes "fc_wf e fc" "cache_file_index m = fc_idx fc"
    and "\<And>k lba. map_of (block_index m) k = Some lba \<Longrightarrow>
      map_of (block_index (fc_meta fc)) k \<noteq> Some lba \<Longrightarrow>
      lru_value (fc_idx fc) (lba_cache_id lba) \<noteq> None \<and>
      (\<exists>v. stored e (fc_bytes fc (lba_cache_id lba)) lba k v)"
  shows "fc_wf e (fc\<lparr>fc_meta := m\<rparr>)"
proof -
  have "files_ok (fc\<lparr>fc_meta := m\<rparr>)"
    using fc_wfD(4) [OF assms(1)] assms(2) by (simp add: files_ok_def)
  moreover have "lru_value (fc_idx fc) (lba_cache_id lba) \<noteq> None \<and>
      (\<exists>v. stored e (fc_bytes fc (lba_cache_id lba)) lba k v)"
    if "map_of (block_index m) k = Some lba" for k lba
    using that assms(3) [of k lba] fc_wfD(6) [OF assms(1), of k lba] by blast
  moreover have "cur_ok (fc\<lparr>fc_meta := m\<rparr>) f = cur_ok fc f" for f by (simp add: cur_ok_def)
  ultimately show ?thesis
    using fc_wfD(1-5,7) [OF assms(1)] assms(2) unfolding fc_wf_def fc_base_def by simp
qed

text \<open>
  What happens in the directory: \<open>dir_step fc fc'\<close> says that at most files of known numbers
  are added; \<open>appended\<close> that beyond this one record is put at the end of one file.
\<close>

definition dir_step :: "flash_cache \<Rightarrow> flash_cache \<Rightarrow> bool" where
  "dir_step fc fc' \<longleftrightarrow>
     (distinct (map fst (fc_dir fc)) \<longrightarrow> distinct (map fst (fc_dir fc'))) \<and>
     writer_cache_id fc \<le> writer_cache_id fc' \<and>
     (\<forall>n. map_of (fc_dir fc') n \<noteq> None \<longrightarrow>
        map_of (fc_dir fc) n \<noteq> None \<or> (\<exists>cid < writer_cache_id fc'. n = cf_name cid))"

definition appended :: "env \<Rightarrow> byte list \<Rightarrow> byte list \<Rightarrow> flash_cache \<Rightarrow> flash_cache \<Rightarrow> bool" where
  "appended e k v fc fc' \<longleftrightarrow> dir_step fc fc' \<and>
     (\<exists>cid. length (fc_bytes fc' cid) < 2 ^ 32 \<and> fc_bytes fc' = (fc_bytes fc)
        (cid := fc_bytes fc cid @ record_bytes (mk_record (env_crc e) k v)))"

lemma dir_step_trans: "dir_step a b \<Longrightarrow> dir_step b c \<Longrightarrow> dir_step a c"
  unfolding dir_step_def by (meson order_less_le_trans order_trans)

section \<open>A new file\<close>

text \<open>The file that \<open>NewCacheFile\<close> makes, and the cache that has it.\<close>

definition fresh_file :: "flash_cache \<Rightarrow> cache_file" where
  "fresh_file fc = (cf_new (writer_cache_id fc) (opt_file_size fc) (opt_wbs fc))
     \<lparr>cf_fd := FdOpen, tid := Running, sem_writer := 0\<rparr>"

definition with_new_file :: "flash_cache \<Rightarrow> flash_cache" where
  "with_new_file fc = fc\<lparr>fc_objs := (fc_next fc, fresh_file fc) # fc_objs fc, fc_next := Suc (fc_next fc),
     fc_dir := AList.update (cf_name (writer_cache_id fc)) [] (fc_dir fc), fc_cur := fc_next fc,
     fc_meta := meta_Insert_file (writer_cache_id fc) (fc_next fc) (fc_meta fc),
     writer_cache_id := writer_cache_id fc + 1\<rparr>"

lemma fresh_file_simps [simp]:
  "cf_id (fresh_file fc) = writer_cache_id fc" "cf_fd (fresh_file fc) = FdOpen" "\<not> eof (fresh_file fc)"
  "buf_doff (fresh_file fc) = 0" "buf_woff (fresh_file fc) = 0" "key_lists (fresh_file fc) = []"
  by (simp_all add: fresh_file_def cf_new_def)

lemma with_new_file_simps [simp]:
  "fc_cur (with_new_file fc) = fc_next fc" "writer_cache_id (with_new_file fc) = writer_cache_id fc + 1"
  "opt_file_size (with_new_file fc) = opt_file_size fc" "fcache_mutex (with_new_file fc) = fcache_mutex fc"
  "opt_wbs (with_new_file fc) = opt_wbs fc"
  "block_index (fc_meta (with_new_file fc)) = block_index (fc_meta fc)"
  "map_of (fc_objs (with_new_file fc)) = (map_of (fc_objs fc))(fc_next fc \<mapsto> fresh_file fc)"
  by (simp_all add: with_new_file_def meta_Insert_file_def)

lemma new_file_absent:
  assumes "files_ok fc"
  shows "map_of (fc_dir fc) (cf_name (writer_cache_id fc)) = None"
    "lru_value (fc_idx fc) (writer_cache_id fc) = None"
  using files_okD(3) [OF assms] files_okD(2) [OF assms, of "writer_cache_id fc"] by fastforce+

lemma fc_NewCacheFile_new: "files_ok fc \<Longrightarrow> fc_NewCacheFile fc = Inr (0, with_new_file fc)"
  by (simp add: fc_NewCacheFile_def new_file_absent cf_Create_def with_new_file_def fresh_file_def Let_def)

lemma new_file_bytes: "files_ok fc \<Longrightarrow> fc_bytes (with_new_file fc) = fc_bytes fc"
  by (simp add: fc_bytes_def with_new_file_def update_conv' new_file_absent fun_eq_iff)

lemma new_file_index:
  assumes "lru.settled (fc_idx fc)" "files_ok fc"
  shows "lru_value (fc_idx (with_new_file fc)) = (lru_value (fc_idx fc))(writer_cache_id fc \<mapsto> fc_next fc)"
    "lru.settled (fc_idx (with_new_file fc))"
  using assms(1) lru.ins_absent [of "fc_idx fc" "writer_cache_id fc" "fc_next fc"] new_file_absent(2) [OF assms(2)]
  by (auto simp: with_new_file_def meta_Insert_file_def lru_settled_def)

lemma new_file_number:
  assumes "fc_room fc (Suc n)"
  shows "cid < writer_cache_id fc \<Longrightarrow> cid < writer_cache_id fc + 1"
    "writer_cache_id fc < writer_cache_id fc + 1"
    "writer_cache_id fc + 1 \<le> cid \<Longrightarrow> writer_cache_id fc \<le> cid \<and> cid \<noteq> writer_cache_id fc"
    "fc_room (with_new_file fc) n"
proof -
  have "unat (writer_cache_id fc + 1) = Suc (unat (writer_cache_id fc))"
    using assms by (simp add: fc_room_def unat_word_ariths)
  then show "cid < writer_cache_id fc \<Longrightarrow> cid < writer_cache_id fc + 1"
    "writer_cache_id fc < writer_cache_id fc + 1"
    "writer_cache_id fc + 1 \<le> cid \<Longrightarrow> writer_cache_id fc \<le> cid \<and> cid \<noteq> writer_cache_id fc"
    "fc_room (with_new_file fc) n"
    using assms by (auto simp: word_less_nat_alt word_le_nat_alt fc_room_def)
qed

lemma new_file_files_ok:
  assumes settled: "lru.settled (fc_idx fc)" and files: "files_ok fc" and room: "fc_room fc (Suc n)"
  shows "files_ok (with_new_file fc)"
proof -
  note F = files_okD [OF files] and N = new_file_number [OF room] and val = new_file_index(1) [OF settled files]
  let ?fc = "with_new_file fc"
  have "q < fc_next ?fc" if "map_of (fc_objs ?fc) q = Some g" for q g
    using that F(1) [of q g] by (auto simp: with_new_file_def less_Suc_eq split: if_splits)
  moreover have "cid < writer_cache_id ?fc \<and>
      (\<exists>g. map_of (fc_objs ?fc) q = Some g \<and> cf_id g = cid \<and> cf_fd g = FdOpen)"
    if "lru_value (fc_idx ?fc) cid = Some q" for cid q
  proof (cases "cid = writer_cache_id fc")
    case True
    with that show ?thesis using N(2) by (auto simp: val)
  next
    case False
    with that have "lru_value (fc_idx fc) cid = Some q" by (simp add: val)
    with F(2) [OF this] F(1) [of q] N(1) show ?thesis by auto
  qed
  moreover have "map_of (fc_dir ?fc) (cf_name cid) = None" if "writer_cache_id ?fc \<le> cid" for cid
    using that N(3) [of cid] F(3) [of cid] by (auto simp: with_new_file_def update_conv')
  ultimately show ?thesis unfolding files_ok_def by blast
qed

lemma fc_NewCacheFile_wf:
  assumes "fc_base e fc" "fc_room fc (Suc n)"
  shows "\<exists>fc'. fc_NewCacheFile fc = Inr (0, fc') \<and> fc_wf e fc' \<and> fc_grows fc fc' \<and>
    fc_room fc' n \<and> block_index (fc_meta fc') = block_index (fc_meta fc) \<and>
    fcache_mutex fc' = fcache_mutex fc \<and> fc_bytes fc' = fc_bytes fc \<and> dir_step fc fc' \<and>
    (\<exists>f. map_of (fc_objs fc') (fc_cur fc') = Some f \<and> \<not> eof f)"
proof -
  let ?fc = "with_new_file fc"
  note W = fc_baseD [OF assms(1)] and N = new_file_number [OF assms(2)]
  note absent = new_file_absent [OF W(4)] and bytes = new_file_bytes [OF W(4)] and val = new_file_index [OF W(2,4)]
  have cur: "cur_ok ?fc (fresh_file fc)"
    by (simp add: cur_ok_def bytes) (simp add: fc_bytes_def absent cf_new_def fresh_file_def)
  have "fc_wf e ?fc"
    unfolding fc_wf_def fc_base_def
  proof (intro conjI allI impI)
    show "\<exists>f. map_of (fc_objs ?fc) (fc_cur ?fc) = Some f \<and>
        lru_value (fc_idx ?fc) (cf_id f) = Some (fc_cur ?fc) \<and> cur_ok ?fc f"
      using cur by (intro exI [of _ "fresh_file fc"]) (simp add: val)
    show "files_ok ?fc" by (rule new_file_files_ok [OF W(2,4) assms(2)])
    show "buf_doff f = buf_woff f" if "map_of (fc_objs ?fc) p = Some f" for p f
      using that W(6) by (auto split: if_splits)
  qed (use W(1,3,5) val in \<open>auto simp: bytes\<close>)
  moreover have "fc_grows fc ?fc" using absent(2) by (auto simp: fc_grows_def val(1) bytes)
  moreover have "dir_step fc ?fc"
    using N(2) by (auto simp: dir_step_def with_new_file_def update_conv' distinct_update split: if_splits)
  ultimately show ?thesis
    using fc_NewCacheFile_new [OF W(4)] N(4) bytes by (intro exI [of _ ?fc]) simp
qed

section \<open>Appending to the current file\<close>

lemma fc_bytes_put:
  "fc_bytes (fc_put p f c fc) cid = (if cid = cf_id f then c else fc_bytes fc cid)"
  by (auto simp: fc_bytes_def fc_put_def update_conv')

lemma fc_put_simps [simp]:
  "fc_meta (fc_put p f c fc) = fc_meta fc" "fc_cur (fc_put p f c fc) = fc_cur fc"
  "fcache_mutex (fc_put p f c fc) = fcache_mutex fc"
  "writer_cache_id (fc_put p f c fc) = writer_cache_id fc"
  "opt_file_size (fc_put p f c fc) = opt_file_size fc"
  "map_of (fc_objs (fc_put p f c fc)) = (map_of (fc_objs fc))(p \<mapsto> f)"
  "fc_next (fc_put p f c fc) = fc_next fc"
  by (simp_all add: fc_put_def update_conv' fun_eq_iff)

lemma fc_content_bytes: "fc_content f fc = fc_bytes fc (cf_id f)"
  by (simp add: fc_content_def fc_bytes_def)

lemma fc_put_wf:
  assumes wf: "fc_wf e fc" and f: "map_of (fc_objs fc) (fc_cur fc) = Some f"
    and g: "cf_id g = cf_id f" "cf_fd g = FdOpen" "buf_doff g = buf_woff g"
    and cur: "cur_ok (fc_put (fc_cur fc) g (fc_bytes fc (cf_id f) @ d) fc) g"
  shows "fc_wf e (fc_put (fc_cur fc) g (fc_bytes fc (cf_id f) @ d) fc)" (is "fc_wf e ?fc")
    and "fc_grows fc (fc_put (fc_cur fc) g (fc_bytes fc (cf_id f) @ d) fc)"
proof -
  note W = fc_wfD [OF wf] and F = files_okD [OF fc_wfD(4) [OF wf]]
  from W(5) f have idx: "lru_value (fc_idx fc) (cf_id f) = Some (fc_cur fc)" by simp
  show gr: "fc_grows fc ?fc" by (simp add: fc_grows_def fc_bytes_put g)
  have below: "cf_id f < writer_cache_id fc" using F(2) [OF idx] by blast
  have files: "files_ok ?fc"
    unfolding files_ok_def
  proof (intro conjI allI impI)
    fix p h assume "map_of (fc_objs ?fc) p = Some h"
    then show "p < fc_next ?fc" using F(1) f by (auto split: if_splits)
  next
    fix cid p assume "lru_value (fc_idx ?fc) cid = Some p"
    then have c: "lru_value (fc_idx fc) cid = Some p" by simp
    from F(2) [OF this] show "cid < writer_cache_id ?fc" by simp
    from F(2) [OF c] show "\<exists>h. map_of (fc_objs ?fc) p = Some h \<and> cf_id h = cid \<and> cf_fd h = FdOpen"
      using f g by (cases "p = fc_cur fc") auto
  next
    fix cid assume "writer_cache_id ?fc \<le> cid"
    then show "map_of (fc_dir ?fc) (cf_name cid) = None"
      using F(3) [of cid] below g by (auto simp: fc_put_def update_conv')
  qed
  have "lru_value (fc_idx ?fc) (lba_cache_id lba) \<noteq> None \<and>
      (\<exists>v. stored e (fc_bytes ?fc (lba_cache_id lba)) lba k v)"
    if "map_of (block_index (fc_meta ?fc)) k = Some lba" for k lba
    using that W(6) [of k lba] fc_grows_stored [OF gr] by fastforce
  then show "fc_wf e ?fc"
    using W(1-3,7) files cur idx g unfolding fc_wf_def fc_base_def by simp
qed

lemma fc_append_cur:
  assumes wf: "fc_wf e fc" and good: "good_entry k v"
    and f: "map_of (fc_objs fc) (fc_cur fc) = Some f" "\<not> eof f"
  shows "\<exists>lba fc'. fc_append_loop (Suc fuel) False e k v fc = Inr (Some lba, fc') \<and>
    fc_wf e fc' \<and> fc_grows fc fc' \<and> fc_meta fc' = fc_meta fc \<and>
    fcache_mutex fc' = fcache_mutex fc \<and> writer_cache_id fc' = writer_cache_id fc \<and>
    lru_value (fc_idx fc') (lba_cache_id lba) \<noteq> None \<and>
    stored e (fc_bytes fc' (lba_cache_id lba)) lba k v \<and> appended e k v fc fc'"
proof -
  note W = fc_wfD [OF wf] and F = files_okD [OF fc_wfD(4) [OF wf]]
  from W(5) f have idx: "lru_value (fc_idx fc) (cf_id f) = Some (fc_cur fc)" and cur: "cur_ok fc f"
    by auto
  from F(2) [OF idx] f have fd: "cf_fd f = FdOpen" by auto
  let ?c = "fc_bytes fc (cf_id f)" and ?r = "record_bytes (mk_record (env_crc e) k v)"
  let ?n = "rec_len k v"
  have len: "length ?c \<le> 2 ^ 31" and n: "?n < 2 ^ 31"
    using cur f(2) W(3) good by (auto simp: cur_ok_def Let_def good_entry_def)
  define lba where "lba = \<lparr>lba_cache_id = cf_id f, lba_off = disk_woff f, lba_size = word_of_nat ?n\<rparr>"
  define g where "g = f\<lparr>filesize := filesize f + word_of_nat ?n,
    disk_woff := disk_woff f + word_of_nat ?n,
    eof := (cf_max_size f \<le> filesize f + word_of_nat ?n), key_lists := key_lists f @ [k]\<rparr>"
  let ?fc = "fc_put (fc_cur fc) g (?c @ ?r) fc"
  have g: "cf_id g = cf_id f" "cf_fd g = FdOpen" "buf_doff g = buf_woff g"
    using fd W(7) [OF f(1)] by (simp_all add: g_def)
  have "cf_Append False e k v f (fc_content f fc) = Inr (True, lba, g, ?c @ ?r)"
    using cf_Append_direct [OF W(1) fd f(2) n, of "fc_content f fc"]
    by (simp add: Let_def lba_def g_def fc_content_bytes)
  then have app: "fc_append_loop (Suc fuel) False e k v fc = Inr (Some lba, ?fc)"
    using f by (simp add: fc_obj_def Let_def)
  have "cur_ok ?fc g"
  proof -
    have sz: "filesize g = word_of_nat (length ?c + ?n)" "disk_woff g = word_of_nat (length ?c + ?n)"
      using cur by (simp_all add: g_def cur_ok_def Let_def)
    have "unat (word_of_nat (length ?c + ?n) :: u32) = length ?c + ?n"
      using len n by (simp add: unsigned_of_nat take_bit_nat_eq_self del: of_nat_add)
    then have "\<not> eof g \<longrightarrow> length ?c + ?n \<le> unat (opt_file_size fc)"
      using cur sz by (auto simp: g_def cur_ok_def Let_def word_le_nat_alt)
    moreover have "length ?c + ?n < 2 ^ 32" using len n by simp
    ultimately show ?thesis
      using cur sz by (simp add: cur_ok_def Let_def fc_bytes_put g) (simp add: g_def)
  qed
  from fc_put_wf [OF wf f(1) g this] have "fc_wf e ?fc" "fc_grows fc ?fc" .
  moreover have "stored e (?c @ ?r) lba k v"
    using good cur len n by (intro stored_new) (auto simp: good_entry_def lba_def cur_ok_def Let_def)
  moreover have "appended e k v fc ?fc"
  proof -
    have "cf_id f < writer_cache_id fc" using F(2) [OF idx] by blast
    then have "dir_step fc ?fc" using g
      by (auto simp: dir_step_def) (auto simp: fc_put_def update_conv' distinct_update split: if_splits)
    moreover have "fc_bytes ?fc = (fc_bytes fc)(cf_id f := ?c @ ?r)"
      by (auto simp: fc_bytes_put g fun_eq_iff)
    ultimately show ?thesis using len n unfolding appended_def by (intro conjI exI [of _ "cf_id f"]) simp_all
  qed
  ultimately show ?thesis
    using app idx by (intro exI [of _ lba] exI [of _ ?fc]) (simp add: fc_bytes_put g lba_def)
qed

text \<open>
  At most one new file is needed: a new file is not full. So two rounds of the loop of
  \<open>Insert\<close> are enough.
\<close>

lemma fc_append_loop_wf:
  assumes wf: "fc_wf e fc" and good: "good_entry k v" and room: "fc_room fc (Suc n)"
  shows "\<exists>lba fc'. fc_append_loop (Suc (Suc fuel)) False e k v fc = Inr (Some lba, fc') \<and>
    fc_wf e fc' \<and> fc_grows fc fc' \<and> block_index (fc_meta fc') = block_index (fc_meta fc) \<and>
    fcache_mutex fc' = fcache_mutex fc \<and> fc_room fc' n \<and>
    lru_value (fc_idx fc') (lba_cache_id lba) \<noteq> None \<and>
    stored e (fc_bytes fc' (lba_cache_id lba)) lba k v \<and> appended e k v fc fc'"
proof -
  note W = fc_wfD [OF wf]
  from W(5) obtain f where f: "map_of (fc_objs fc) (fc_cur fc) = Some f" "cur_ok fc f"
    "lru_value (fc_idx fc) (cf_id f) = Some (fc_cur fc)" by blast
  show ?thesis
  proof (cases "eof f")
    case False
    have "fc_room fc n" using room by (simp add: fc_room_def)
    with fc_append_cur [OF wf good f(1) False, of "Suc fuel"] show ?thesis
      by (force simp: fc_room_def)
  next
    case True
    let ?fc = "fc_put (fc_cur fc) f (fc_bytes fc (cf_id f) @ []) fc"
    from files_okD(2) [OF W(4) f(3)] f(1) have fd: "cf_fd f = FdOpen" by auto
    have "cur_ok ?fc f" using f(2) by (simp add: cur_ok_def fc_bytes_put)
    from fc_put_wf [OF wf f(1) refl fd W(7) [OF f(1)] this] have 1: "fc_wf e ?fc" "fc_grows fc ?fc" .
    have "fc_room ?fc (Suc n)" using room by (simp add: fc_room_def)
    from fc_NewCacheFile_wf [OF fc_wf_base [OF 1(1)] this] obtain fc2 f2 where 2:
      "fc_NewCacheFile ?fc = Inr (0, fc2)" "fc_wf e fc2" "fc_grows ?fc fc2" "fc_room fc2 n"
      "block_index (fc_meta fc2) = block_index (fc_meta fc)"
      "fcache_mutex fc2 = fcache_mutex fc"
      "map_of (fc_objs fc2) (fc_cur fc2) = Some f2" "\<not> eof f2"
      "fc_bytes fc2 = fc_bytes ?fc" "dir_step ?fc fc2" by auto
    have step: "fc_append_loop (Suc (Suc fuel)) False e k v fc = fc_append_loop (Suc fuel) False e k v fc2"
      using f(1) True 2(1) by (simp add: fc_obj_def cf_Append_def Let_def fc_content_bytes)
    from fc_append_cur [OF 2(2) good 2(7,8), of fuel] obtain lba fc3 where 3:
      "fc_append_loop (Suc fuel) False e k v fc2 = Inr (Some lba, fc3)" "fc_wf e fc3"
      "fc_grows fc2 fc3" "fc_meta fc3 = fc_meta fc2" "fcache_mutex fc3 = fcache_mutex fc2"
      "writer_cache_id fc3 = writer_cache_id fc2"
      "lru_value (fc_idx fc3) (lba_cache_id lba) \<noteq> None"
      "stored e (fc_bytes fc3 (lba_cache_id lba)) lba k v" "appended e k v fc2 fc3" by blast
    have "cf_id f < writer_cache_id fc" using files_okD(2) [OF W(4) f(3)] by blast
    then have "dir_step fc ?fc"
      by (auto simp: dir_step_def) (auto simp: fc_put_def update_conv' distinct_update split: if_splits)
    then have "dir_step fc fc3" using 2(10) 3(9) dir_step_trans by (auto simp: appended_def)
    moreover have "fc_bytes ?fc = fc_bytes fc" by (auto simp: fc_bytes_put)
    ultimately have "appended e k v fc fc3" using 3(9) 2(9) by (simp add: appended_def)
    moreover have "fc_grows fc fc3"
      using fc_grows_trans [OF fc_grows_trans [OF 1(2) 2(3)] 3(3)] .
    moreover have "fc_room fc3 n" using 2(4) 3(6) by (simp add: fc_room_def)
    ultimately show ?thesis
      unfolding step using 2(5,6) 3 by (intro exI [of _ lba] exI [of _ fc3]) simp
  qed
qed

section \<open>The operations\<close>

lemma fc_Insert_wf:
  assumes inv: "fc_inv (e, fc)" and good: "good_entry k v" and room: "fc_room fc (Suc n)"
  shows "\<exists>fc'. fc_Insert False e k v fc = Inr (0, fc') \<and> fc_inv (e, fc') \<and> fc_room fc' n \<and>
    fc_look (e, fc') =
      (if fc_look (e, fc) k = None then (fc_look (e, fc))(k \<mapsto> v) else fc_look (e, fc)) \<and>
    appended e k v fc fc'"
proof -
  let ?fc0 = "fc\<lparr>fcache_mutex := True\<rparr>"
  have wf: "fc_wf e fc" "fc_wf e ?fc0" and lock: "fc_lock fc = Inr ?fc0"
    using inv by (simp_all add: fc_inv_def fc_lock_def)
  have "fc_room ?fc0 (Suc n)" using room by (simp add: fc_room_def)
  from fc_append_loop_wf [OF wf(2) good this, of 0] obtain lba fc1 where 1:
    "fc_append_loop 2 False e k v ?fc0 = Inr (Some lba, fc1)" "fc_wf e fc1" "fc_grows ?fc0 fc1"
    "block_index (fc_meta fc1) = block_index (fc_meta fc)" "fc_room fc1 n"
    "lru_value (fc_idx fc1) (lba_cache_id lba) \<noteq> None"
    "stored e (fc_bytes fc1 (lba_cache_id lba)) lba k v" "appended e k v ?fc0 fc1"
    by (auto simp: numeral_2_eq_2)
  have "fc_grows fc fc1" using 1(3) by (simp add: fc_grows_def)
  from fc_look_grows [OF wf(1) 1(2) this 1(4)] have look1: "fc_look (e, fc1) = fc_look (e, fc)" .
  let ?m = "meta_Insert k lba (fc_meta fc1)"
  have wf2: "fc_wf e (fc1\<lparr>fc_meta := ?m\<rparr>)"
    using 1(6,7) by (intro fc_wf_meta [OF 1(2)]) (auto simp: map_of_meta_Insert split: if_splits)
  define fc2 where "fc2 = fc_unlock (fc1\<lparr>fc_size := fc_size fc1 + ucast (lba_size lba), fc_meta := ?m\<rparr>)"
  have fc2: "fc2 = (fc1\<lparr>fc_meta := ?m\<rparr>)\<lparr>fc_size := fc_size fc1 + ucast (lba_size lba)\<rparr>\<lparr>fcache_mutex := False\<rparr>"
    by (simp add: fc2_def fc_unlock_def)
  then have same: "fc_look (e, fc2) = fc_look (e, fc1\<lparr>fc_meta := ?m\<rparr>)"
    by (simp only: fc_look_frame)
  have "fc_look (e, fc2) j =
      (if fc_look (e, fc) k = None then (fc_look (e, fc))(k \<mapsto> v) else fc_look (e, fc)) j" for j
  proof (cases "j = k \<and> map_of (block_index (fc_meta fc1)) k = None")
    case True
    then have "fc_look (e, fc1\<lparr>fc_meta := ?m\<rparr>) k = Some v"
      using fc_look_eq(2) [OF wf2, of k lba v] 1(7) by (simp add: map_of_meta_Insert)
    with True same show ?thesis using fc_look_eq(1) [OF wf(1)] 1(4) by simp
  next
    case False
    then have "map_of (block_index ?m) j = map_of (block_index (fc_meta fc1)) j"
      by (auto simp: map_of_meta_Insert)
    then have "fc_look (e, fc1\<lparr>fc_meta := ?m\<rparr>) j = fc_look (e, fc1) j"
      by (intro fc_look_cong) simp_all
    with False same look1 show ?thesis
      using fc_look_eq(1) [OF wf(1), of k] 1(4) by auto
  qed
  moreover have "fc_Insert False e k v fc = Inr (0, fc2)"
    by (simp add: fc_Insert_def lock 1(1) fc2_def)
  moreover have "fc_inv (e, fc2)"
    using wf2 by (simp only: fc2 fc_inv_def fst_conv snd_conv fc_wf_frame) simp
  moreover have "fc_room fc2 n" using 1(5) by (simp add: fc_room_def fc2_def fc_unlock_def)
  moreover have "appended e k v fc fc2" using 1(8) by (simp add: appended_def dir_step_def fc2)
  ultimately show ?thesis by (intro exI [of _ fc2]) (simp add: fun_eq_iff)
qed

lemma fc_Lookup_hit:
  assumes inv: "fc_inv (e, fc)" and hit: "fc_look (e, fc) k = Some v"
  shows "\<exists>fc'. fc_Lookup False e k fc = Inr (Some v, fc') \<and> fc_inv (e, fc') \<and>
    fc_look (e, fc') = fc_look (e, fc) \<and> (\<forall>n. fc_room fc' n = fc_room fc n)"
proof -
  have wf: "fc_wf e fc" and lock: "fc_lock fc = Inr (fc\<lparr>fcache_mutex := True\<rparr>)"
    using inv by (simp_all add: fc_inv_def fc_lock_def)
  note W = fc_wfD [OF wf]
  from hit obtain lba where lba: "map_of (block_index (fc_meta fc)) k = Some lba"
    using fc_look_eq(1) [OF wf, of k] by auto
  from W(6) [OF lba] obtain p w where p: "lru_value (fc_idx fc) (lba_cache_id lba) = Some p"
    and st: "stored e (fc_bytes fc (lba_cache_id lba)) lba k w" by auto
  from fc_look_eq(2) [OF wf lba st] hit have w: "w = v" by simp
  from files_okD(2) [OF W(4) p] obtain f where f: "map_of (fc_objs fc) p = Some f"
    "cf_id f = lba_cache_id lba" "cf_fd f = FdOpen" by blast
  from W(2) p have "lba_cache_id lba \<in> set (lru_order (fc_idx fc))" "lru_inv (fc_idx fc)"
    by (simp_all add: lru_settled_def)
  with lru.get_present p obtain idx where idx: "lru_get (lba_cache_id lba) (fc_idx fc) = Inr (Some p, idx)"
    "lru_inv idx" "set (lru_order idx) = set (lru_order (fc_idx fc))"
    "lru_value idx = lru_value (fc_idx fc)"
    by (metis (no_types, lifting) in_set_remove1 list.set(2) lru.order_distinct option.inject
        insert_absorb set_remove1_eq insert_Diff)
  let ?m = "(fc_meta fc)\<lparr>cache_file_index := idx\<rparr>"
  have "fc_wf e (fc\<lparr>fc_meta := ?m\<rparr>)"
    using W idx by (simp add: fc_wf_def fc_base_def files_ok_def cur_ok_def lru_settled_def)
  moreover have "fc_look (e, fc\<lparr>fc_meta := ?m\<rparr>) = fc_look (e, fc)"
    by (rule ext) (rule fc_look_cong; simp)
  moreover have "fc_Lookup False e k fc = Inr (Some v, fc\<lparr>fc_meta := ?m\<rparr>)"
    using lba idx(1) f st w cf_Read_direct [OF W(1), of "fc_bytes fc (lba_cache_id lba)" lba k v f]
    by (simp add: fc_Lookup_def lock meta_Lookup_def meta_Lookup_file_def fc_obj_def
        fc_content_def fc_bytes_def fc_unlock_def Let_def)
      (use inv in \<open>simp add: fc_inv_def\<close>)
  ultimately show ?thesis using inv by (auto simp: fc_inv_def fc_room_def)
qed

text \<open>A miss returns the null pointer and keeps the lock.\<close>

lemma fc_Lookup_miss:
  assumes "fc_inv (e, fc)" and "fc_look (e, fc) k = None"
  shows "fc_Lookup wbmode e k fc = Inr (None, fc\<lparr>fcache_mutex := True\<rparr>)"
  using assms fc_look_eq(1) [of e fc k]
  by (simp add: fc_inv_def fc_Lookup_def fc_lock_def meta_Lookup_def)

lemma fc_locked_blocks:
  assumes "fcache_mutex fc"
  shows "fc_Insert wbmode e k v fc = Inl Blocked" and "fc_Lookup wbmode e k fc = Inl Blocked"
    and "fc_over sz fc \<Longrightarrow> fc_Evict wbmode e caller sz fc = Inl Blocked"
  using assms by (simp_all add: fc_Insert_def fc_Lookup_def fc_lock_def fc_Evict.simps [of wbmode])

lemma map_of_meta_Erase:
  "map_of (block_index (meta_Erase k m)) = (map_of (block_index m))(k := None)"
  by (auto simp: meta_Erase_def Let_def delete_conv' update_conv' split: option.splits)

lemma meta_Erase_index [simp]: "cache_file_index (meta_Erase k m) = cache_file_index m"
  by (simp add: meta_Erase_def Let_def)

lemma fc_DeleteMetaData_wf:
  assumes inv: "fc_inv (e, fc)"
  shows "fc_inv (e, fc_DeleteMetaData k fc)"
    and "fc_look (e, fc_DeleteMetaData k fc) = (fc_look (e, fc))(k := None)"
    and "fc_room (fc_DeleteMetaData k fc) n = fc_room fc n"
proof -
  have wf: "fc_wf e fc" using inv by (simp add: fc_inv_def)
  have wf2: "fc_wf e (fc_DeleteMetaData k fc)"
    unfolding fc_DeleteMetaData_def
    by (rule fc_wf_meta [OF wf]) (auto simp: map_of_meta_Erase split: if_splits)
  with inv show "fc_inv (e, fc_DeleteMetaData k fc)"
    by (simp add: fc_inv_def) (simp add: fc_DeleteMetaData_def)
  have "fc_look (e, fc_DeleteMetaData k fc) j = ((fc_look (e, fc))(k := None)) j" for j
  proof (cases "j = k")
    case True
    then show ?thesis using fc_look_eq(1) [OF wf2, of k]
      by (simp add: fc_DeleteMetaData_def map_of_meta_Erase)
  next
    case False
    then show ?thesis
      unfolding fc_DeleteMetaData_def by (simp, intro fc_look_cong) (simp_all add: map_of_meta_Erase)
  qed
  then show "fc_look (e, fc_DeleteMetaData k fc) = (fc_look (e, fc))(k := None)" by blast
  show "fc_room (fc_DeleteMetaData k fc) n = fc_room fc n"
    by (simp add: fc_room_def fc_DeleteMetaData_def)
qed

section \<open>Closing\<close>

text \<open>
  With direct writing nothing is left to write when the cache is closed: every listed file is
  closed, and the directory stays as it is.
\<close>

lemma fc_close_file_direct:
  assumes "map_of (fc_objs fc) p = Some f" "buf_doff f = buf_woff f"
  shows "\<exists>g. fc_close_file False e p fc = Inr (fc_set_obj p g fc) \<and> cf_fd g = FdClosed \<and>
    buf_doff g = buf_woff g"
proof -
  have twice: "fc_set_obj p a (fc_set_obj p b fc) = fc_set_obj p a fc" for a b
    by (simp add: fc_set_obj_def)
  show ?thesis
    using assms
    by (cases "tid f") (auto simp: fc_close_file_def fc_obj_def cf_Close_post_def cf_ClearBuffers_def
        Let_def twice fc_writer_loop.simps)
qed

lemma fc_Close_direct:
  "lru_inv (fc_idx fc) \<Longrightarrow>
   (\<And>cid p. lru_value (fc_idx fc) cid = Some p \<Longrightarrow> map_of (fc_objs fc) p \<noteq> None) \<Longrightarrow>
   (\<And>p f. map_of (fc_objs fc) p = Some f \<Longrightarrow> buf_doff f = buf_woff f) \<Longrightarrow>
   \<exists>fc'. fc_Close False e fc = Inr fc' \<and> fc_dir fc' = fc_dir fc \<and> lru_order (fc_idx fc') = []"
proof (induction "length (lru_order (fc_idx fc))" arbitrary: fc)
  case 0
  then have "m_list (fc_idx fc) = []" by (simp add: lru_order_def)
  with 0 show ?case by (intro exI [of _ fc]) (simp add: fc_Close.simps lru_size_def)
next
  case (Suc n)
  let ?k = "last (lru_order (fc_idx fc))"
  have "lru_order (fc_idx fc) \<noteq> []" using Suc.hyps(2) by auto
  from lru_evict_last [OF Suc.prems(1) this] obtain p idx where ev: "lru_evict (fc_idx fc) = Inr (p, idx)"
    "lru_value (fc_idx fc) ?k = Some p" "lru_inv idx" "lru_order idx = butlast (lru_order (fc_idx fc))"
    "lru_value idx = lru_value (fc_idx fc)" by blast
  let ?fc = "fc\<lparr>fc_meta := (fc_meta fc)\<lparr>cache_file_index := idx\<rparr>\<rparr>"
  from Suc.prems(2) [OF ev(2)] obtain f where f: "map_of (fc_objs ?fc) p = Some f" by auto
  from fc_close_file_direct [OF f, of e] Suc.prems(3) f obtain g where
    g: "fc_close_file False e p ?fc = Inr (fc_set_obj p g ?fc)" "buf_doff g = buf_woff g" by auto
  have "lru_size (fc_idx fc) > 0" using Suc.hyps(2) unfolding lru_size_def lru_order_def by auto
  then have "fc_Close False e fc = fc_Close False e (fc_set_obj p g ?fc)"
    using ev(1) g(1) by (simp add: fc_Close.simps [of False e fc])
  moreover have "\<exists>fc'. fc_Close False e (fc_set_obj p g ?fc) = Inr fc' \<and>
      fc_dir fc' = fc_dir (fc_set_obj p g ?fc) \<and> lru_order (fc_idx fc') = []"
    using Suc.prems Suc.hyps(2) ev g(2) by (intro Suc.hyps(1)) (auto split: if_splits)
  ultimately show ?case by simp
qed

lemma fc_Close_wf:
  assumes "fc_wf e fc"
  shows "\<exists>fc'. fc_Close False e fc = Inr fc' \<and> fc_dir fc' = fc_dir fc"
  using fc_Close_direct [of fc e] fc_wfD(2,7) [OF assms] files_okD(2) [OF fc_wfD(4) [OF assms]]
  by (fastforce simp: lru.settled_def)

section \<open>The contract\<close>

definition flash_put :: "byte list \<Rightarrow> byte list \<Rightarrow> env \<times> flash_cache \<Rightarrow> (env \<times> flash_cache) res" where
  "flash_put k v s = bnd (fc_Insert False (fst s) k v (snd s)) (\<lambda>(r, fc). Inr (fst s, fc))"

definition flash_del :: "byte list \<Rightarrow> env \<times> flash_cache \<Rightarrow> env \<times> flash_cache" where
  "flash_del k s = (fst s, fc_DeleteMetaData k (snd s))"

interpretation flash: insert_once_delete fc_inv good_entry "\<lambda>s n. fc_room (snd s) n"
  fc_look flash_put flash_del
proof unfold_locales
  fix s k v n
  assume "fc_inv s" "good_entry k v" "fc_room (snd s) (Suc n)"
  with fc_Insert_wf [of "fst s" "snd s" k v n]
  show "\<exists>s'. flash_put k v s = Inr s' \<and> fc_inv s' \<and> fc_room (snd s') n \<and>
      fc_look s' = (if fc_look s k = None then (fc_look s)(k \<mapsto> v) else fc_look s)"
    by (cases s) (auto simp: flash_put_def)
qed (auto simp: flash_del_def fc_DeleteMetaData_wf split_paired_all)

end
