(* ===== verification/Command.thy ===== *)
theory Command
  imports Hash Containers Protocol Config FlashIndex
begin

text \<open>
  The commands (\<open>command.c\<close>) on the two-level store: a memory cache, which is either the
  hash table with a list (FIFO) or the recency cache (LRU), a queue of entries on their way
  to flash, and the flash cache. Entries of the recency cache and of the queue are
  addresses in \<open>db_ents\<close>; the list of the FIFO mode holds pointers, \<open>None\<close> being null.
\<close>

section \<open>State\<close>

record kvDb =
  memCache :: kvht
  memLRU :: "nat str_lru"
  memList :: "nat option list"
  memQueue :: "nat list"
  db_ents :: "(nat \<times> hashEntry) list"
  db_next :: nat
  flashCache :: flash_cache
  flash_live :: bool
  db_used :: u32
  sem_bworker :: nat

definition db_ent :: "nat \<Rightarrow> kvDb \<Rightarrow> hashEntry res" where
  "db_ent p db = (case map_of (db_ents db) p of None \<Rightarrow> Inl UseAfterFree | Some he \<Rightarrow> Inr he)"

definition db_set_ent :: "nat \<Rightarrow> hashEntry \<Rightarrow> kvDb \<Rightarrow> kvDb" where
  "db_set_ent p he db = db\<lparr>db_ents := AList.update p he (db_ents db)\<rparr>"

text \<open>Whether the flash cache writes through buffers.\<close>

definition wbmode :: "kvServer \<Rightarrow> bool" where
  "wbmode sv \<longleftrightarrow> flashcache_mode sv = MODE_FLASH_WRITEBUFFER"

definition mem_used :: "kvDb \<Rightarrow> nat" where
  "mem_used db = unat (scast (db_used db) :: u64)"

section \<open>Memory pressure\<close>

text \<open>
  \<open>mem_used > server.maxmemory * 90.0 / 100\<close>, in \<open>double\<close>; the right-hand side is kept
  times \<open>2 ^ 64\<close>.
\<close>

definition over_90 :: "nat \<Rightarrow> u64 \<Rightarrow> bool" where
  "over_90 n maxm \<longleftrightarrow>
     quot_scaled 53 (round_bits 53 (round_bits 53 (unat maxm) * 90)) 100 < round_bits 53 n * 2 ^ 64"

definition pool_size :: "kvServer \<Rightarrow> kvDb \<Rightarrow> int res" where
  "pool_size sv db =
     (if cache_mode sv = MODE_MEM_FIFO then Inr (ListSize (memList db))
      else if cache_mode sv = MODE_MEM_LRU then Inr (LRUCacheSize (memLRU db))
      else Inl Uninitialised)"

text \<open>
  Taking one entry out of the memory cache and handing it to the tiering thread, the part
  that \<open>memUsedCheck\<close> and \<open>evictAllCommand\<close> share.
\<close>

definition evict_to_queue :: "kvServer \<Rightarrow> kvDb \<Rightarrow> kvDb res" where
  "evict_to_queue sv db =
     bnd (if cache_mode sv = MODE_MEM_FIFO
          then bnd (ListPopBack (memList db)) (\<lambda>(he, l). Inr (he, db\<lparr>memList := l\<rparr>))
          else if cache_mode sv = MODE_MEM_LRU
          then bnd (LRUCacheEvict (memLRU db)) (\<lambda>(he, c). Inr (he, db\<lparr>memLRU := c\<rparr>))
          else Inl Uninitialised)
       (\<lambda>(he, db).
         (case he of
            None \<Rightarrow> Inl NullDeref
          | Some p \<Rightarrow>
              bnd (db_ent p db) (\<lambda>en.
                if kv_where (he_val en) = KV_LOC_MEM then
                  Inr ((db_set_ent p (en\<lparr>he_val := (he_val en)\<lparr>kv_where := KV_LOC_FLUSHING\<rparr>\<rparr>) db)
                    \<lparr>memQueue := QueueEnqueue (memQueue db) p, sem_bworker := sem_bworker db + 1\<rparr>)
                else Inr db)))"

text \<open>An entry never moves back: taking one out leaves every entry where it was, or further on.\<close>

lemma evict_to_queue_forward:
  assumes "evict_to_queue sv db = Inr db'" "map_of (db_ents db) p = Some en"
  shows "\<exists>en'. map_of (db_ents db') p = Some en' \<and> he_key en' = he_key en \<and>
    ptr (he_val en') = ptr (he_val en) \<and> kv_where (he_val en) \<le> kv_where (he_val en')"
  using assms
  by (auto simp: evict_to_queue_def bnd_eq_Inr db_ent_def db_set_ent_def update_conv' less_eq_kv_loc_def
      split: if_splits option.splits)

text \<open>
  \<open>memUsedCheck\<close>; the flag says that the memory is full and the caller now waits for the
  queue to drain.
\<close>

definition memUsedCheck :: "kvServer \<Rightarrow> kvDb \<Rightarrow> (bool \<times> kvDb) res" where
  "memUsedCheck sv db =
     bnd (pool_size sv db) (\<lambda>n.
     bnd (if over_90 (mem_used db) (maxmemory sv) \<and> n > 0 then evict_to_queue sv db else Inr db)
       (\<lambda>db. Inr (unat (maxmemory sv) \<le> mem_used db \<and> QueueSize (memQueue db) > 0, db)))"

section \<open>Set and get\<close>

definition cacheAdd :: "kvServer \<Rightarrow> kvObject \<Rightarrow> kvObject \<Rightarrow> kvDb \<Rightarrow> kvDb res" where
  "cacheAdd sv key val db =
     (let kbuf = msg_buf (ptr key); copy = msgdup (ptr key); um = charge (length copy) (db_used db) in
      if cache_mode sv = MODE_MEM_FIFO then
        bnd (entryFind (memCache db) kbuf) (\<lambda>he.
          (case he of
             None \<Rightarrow>
               bnd (hashAdd (memCache db) copy val um) (\<lambda>(_, mc, um).
                 Inr (db\<lparr>memCache := mc, db_used := um, memList := ListPushFront (memList db) None\<rparr>))
           | Some _ \<Rightarrow>
               bnd (entrySetVal (memCache db) kbuf val) (\<lambda>mc. Inr (db\<lparr>memCache := mc\<rparr>))))
      else if cache_mode sv = MODE_MEM_LRU then
        bnd (LRUCacheGet (memLRU db) kbuf) (\<lambda>(he, c).
          (case he of
             None \<Rightarrow>
               (let p = db_next db in
                Inr (db\<lparr>db_ents := (p, \<lparr>he_key = copy, he_val = val\<rparr>) # db_ents db,
                        db_next := Suc p, db_used := charge sizeof_hashEntry um,
                        memLRU := LRUCacheInsert c kbuf p\<rparr>))
           | Some p \<Rightarrow>
               bnd (db_ent p db) (\<lambda>en.
                 Inr ((db_set_ent p (en\<lparr>he_val := val\<rparr>) db)\<lparr>memLRU := c\<rparr>))))
      else Inr db)"

text \<open>
  A reply written into the client's buffer with its terminator; \<open>sprintf\<close> does not look at
  the size of the buffer.
\<close>

definition reply :: "byte list \<Rightarrow> kvClient \<Rightarrow> kvClient res" where
  "reply s c =
     (if length s < length (cl_buf c)
      then Inr (c\<lparr>cl_buf := s @ NUL # drop (Suc (length s)) (cl_buf c), cl_len := word_of_nat (length s)\<rparr>)
      else Inl OutOfBounds)"

text \<open>\<open>sprintf(buf, "$%d\r\n%s\r\n", n, mem)\<close> with the memory that \<open>mem\<close> points to.\<close>

definition bulk_reply :: "int \<Rightarrow> byte list \<Rightarrow> kvClient \<Rightarrow> kvClient res" where
  "bulk_reply n mem c =
     (case cstr mem of
        None \<Rightarrow> Inl OutOfBounds
      | Some s \<Rightarrow> reply (''$'' @ dec_int n @ [CR, LF] @ s @ [CR, LF]) c)"

definition empty_reply :: "kvClient \<Rightarrow> kvClient res" where
  "empty_reply c = reply (''$7'' @ [CR, LF] @ ''+Empty!'' @ [CR, LF]) c"

text \<open>
  The C interface of the flash cache (\<open>util_c++.cc\<close>). After \<open>flashCacheDestroy\<close> the pointer
  dangles.
\<close>

definition flashCacheCreate :: "kvServer \<Rightarrow> env \<Rightarrow> u64 \<Rightarrow> nat \<Rightarrow> (byte list \<times> byte list) list \<Rightarrow> flash_cache res" where
  "flashCacheCreate sv e gsize gfile dir =
     bnd (if flashCache_dir sv = None then Inl NullDeref
          else fc_Open e (fc_construct (flashCache_size sv) (flashCache_file_size sv)
            (ucast (flashCache_writebuffer_size sv)) gsize gfile dir))
       (\<lambda>(r, fc). if r \<noteq> 0 then Inl ProcessExit else Inr fc)"

definition flashCacheDestroy :: "kvServer \<Rightarrow> env \<Rightarrow> kvDb \<Rightarrow> kvDb res" where
  "flashCacheDestroy sv e db =
     (if \<not> flash_live db then Inl UseAfterFree
      else bnd (fc_Close (wbmode sv) e (flashCache db)) (\<lambda>fc.
        Inr (db\<lparr>flashCache := fc, flash_live := False\<rparr>)))"

definition flashCacheInsert :: "kvServer \<Rightarrow> env \<Rightarrow> byte list \<Rightarrow> byte list \<Rightarrow> kvDb \<Rightarrow> kvDb res" where
  "flashCacheInsert sv e key data db =
     (if \<not> flash_live db then Inl UseAfterFree
      else bnd (fc_Insert (wbmode sv) e (until_nul key) (until_nul data) (flashCache db))
        (\<lambda>(r, fc). Inr (db\<lparr>flashCache := fc\<rparr>)))"

definition flashCacheLookup ::
  "kvServer \<Rightarrow> env \<Rightarrow> byte list \<Rightarrow> kvDb \<Rightarrow> (byte list option \<times> kvDb) res" where
  "flashCacheLookup sv e key db =
     (if \<not> flash_live db then Inl UseAfterFree
      else bnd (fc_Lookup (wbmode sv) e (until_nul key) (flashCache db))
        (\<lambda>(r, fc). Inr (r, db\<lparr>flashCache := fc\<rparr>)))"

definition flashCacheMetakeyDelete :: "byte list \<Rightarrow> kvDb \<Rightarrow> kvDb res" where
  "flashCacheMetakeyDelete key db =
     (if \<not> flash_live db then Inl UseAfterFree
      else Inr (db\<lparr>flashCache := fc_DeleteMetaData (until_nul key) (flashCache db)\<rparr>))"

definition setCommand ::
  "kvServer \<Rightarrow> env \<Rightarrow> kvObject \<Rightarrow> kvObject \<Rightarrow> kvClient \<times> kvDb \<Rightarrow> (kvClient \<times> kvDb) res" where
  "setCommand sv e key val s = (case s of (c, db) \<Rightarrow>
     bnd (if cache_mode sv = MODE_ONLY_FLASH
          then flashCacheInsert sv e (msg_buf (ptr key)) (msg_buf (ptr val)) db
          else cacheAdd sv key val db)
       (\<lambda>db. bnd (reply (''+OK'' @ [CR, LF]) c) (\<lambda>c. Inr (c, db))))"

text \<open>
  \<open>getCommand\<close>. The size goes through a pointer to \<open>int\<close>, of which the low half is kept;
  the value from flash has no terminator of its own.
\<close>

definition flash_size :: "byte list \<Rightarrow> int" where
  "flash_size v = int_of_size (length v)"

definition mem_find :: "kvServer \<Rightarrow> byte list \<Rightarrow> kvDb \<Rightarrow> (kvObject option \<times> kvDb) res" where
  "mem_find sv kbuf db =
     (if cache_mode sv = MODE_MEM_FIFO then
        bnd (entryFind (memCache db) kbuf) (\<lambda>he. Inr (map_option he_val he, db))
      else if cache_mode sv = MODE_MEM_LRU then
        bnd (LRUCacheGet (memLRU db) kbuf) (\<lambda>(he, c).
          (case he of
             None \<Rightarrow> Inr (None, db\<lparr>memLRU := c\<rparr>)
           | Some p \<Rightarrow> bnd (db_ent p db) (\<lambda>en. Inr (Some (he_val en), db\<lparr>memLRU := c\<rparr>))))
      else Inl Uninitialised)"

definition getCommand ::
  "kvServer \<Rightarrow> env \<Rightarrow> kvObject \<Rightarrow> kvClient \<times> kvDb \<Rightarrow> (kvClient \<times> kvDb) res" where
  "getCommand sv e key s = (case s of (c, db) \<Rightarrow>
     (let kbuf = msg_buf (ptr key) in
      if cache_mode sv = MODE_ONLY_FLASH then
        bnd (flashCacheLookup sv e kbuf db) (\<lambda>(r, db).
          (case r of
             Some v \<Rightarrow> bnd (bulk_reply (flash_size v) (v @ env_tail e) c) (\<lambda>c. Inr (c, db))
           | None \<Rightarrow> bnd (empty_reply c) (\<lambda>c. Inr (c, db))))
      else
        bnd (mem_find sv kbuf db) (\<lambda>(he, db).
          (case he of
             Some v \<Rightarrow>
               bnd (bulk_reply (sint (msg_len (ptr v))) (msg_buf (ptr v)) c) (\<lambda>c. Inr (c, db))
           | None \<Rightarrow>
               bnd (flashCacheLookup sv e kbuf db) (\<lambda>(r, db).
                 (case r of
                    Some v \<Rightarrow>
                      bnd (createObject (Some v) (length v)) (\<lambda>new_val.
                      bnd (cacheAdd sv key new_val
                             (db\<lparr>db_used := charge (object_bytes (length v)) (db_used db)\<rparr>)) (\<lambda>db.
                      bnd (flashCacheMetakeyDelete kbuf db) (\<lambda>db.
                      bnd (bulk_reply (flash_size v) (v @ env_tail e) c) (\<lambda>c. Inr (c, db)))))
                  | None \<Rightarrow> bnd (empty_reply c) (\<lambda>c. Inr (c, db))))))))"

section \<open>Evicting everything, and the dispatcher\<close>

fun evict_n :: "kvServer \<Rightarrow> nat \<Rightarrow> kvDb \<Rightarrow> kvDb res" where
  "evict_n sv 0 db = Inr db"
| "evict_n sv (Suc n) db = bnd (evict_to_queue sv db) (evict_n sv n)"

text \<open>
  The first loop of \<open>evictAllCommand\<close> and the condition on which its second loop leaves.
\<close>

definition evictAllCommand :: "kvServer \<Rightarrow> kvDb \<Rightarrow> kvDb res" where
  "evictAllCommand sv db = bnd (pool_size sv db) (\<lambda>n. evict_n sv (nat n) db)"

definition evict_done :: "kvServer \<Rightarrow> kvDb \<Rightarrow> bool" where
  "evict_done sv db \<longleftrightarrow>
     (cache_mode sv = MODE_MEM_FIFO \<and> used (memCache db) = 0) \<or>
     (cache_mode sv = MODE_MEM_LRU \<and> LRUCacheSize (memLRU db) = 0)"

text \<open>
  \<open>processCMD\<close>. The result says whether the command is done, has to wait for the queue to
  drain before it goes on with \<open>set\<close>, or spins in \<open>evictAllCommand\<close>.
\<close>

datatype cmd_result = CmdDone | CmdWaitQueue | CmdWaitEvict

definition cmd_set :: "kvServer \<Rightarrow> env \<Rightarrow> kvClient \<times> kvDb \<Rightarrow> (kvClient \<times> kvDb) res" where
  "cmd_set sv e s =
     bnd (client_arg 1 (fst s)) (\<lambda>key. bnd (client_arg 2 (fst s)) (\<lambda>val. setCommand sv e key val s))"

definition processCMD ::
  "kvServer \<Rightarrow> env \<Rightarrow> kvClient \<times> kvDb \<Rightarrow> (cmd_result \<times> kvClient \<times> kvDb) res" where
  "processCMD sv e s = (case s of (c, db) \<Rightarrow>
     bnd (client_arg 0 c) (\<lambda>a0.
       let is = msgcmp (ptr a0) in
       if is ''set'' then
         bnd (if cache_mode sv \<noteq> MODE_ONLY_FLASH then memUsedCheck sv db else Inr (False, db))
           (\<lambda>(busy, db).
             if busy then Inr (CmdWaitQueue, c, db)
             else bnd (cmd_set sv e (c, db)) (\<lambda>s. Inr (CmdDone, s)))
       else if is ''get'' then
         bnd (client_arg 1 c) (\<lambda>key. bnd (getCommand sv e key (c, db)) (\<lambda>s. Inr (CmdDone, s)))
       else if is ''scan'' then Inr (CmdDone, c, db)
       else if is ''kill'' then
         bnd (flashCacheDestroy sv e db) (\<lambda>db. Inr (CmdDone, c, db))
       else if is ''evict'' then
         bnd (evictAllCommand sv db) (\<lambda>db.
           Inr (if evict_done sv db then CmdDone else CmdWaitEvict, c, db))
       else
         (if length (cl_buf c) < 5 then Inl OutOfBounds
          else Inr (CmdDone, c\<lparr>cl_buf := ''+OK'' @ [CR, NUL] @ drop 5 (cl_buf c), cl_len := 5\<rparr>, db))))"

section \<open>The threshold is exact\<close>

text \<open>
  Below 64 TiB the comparison in floating point is the comparison of the integers: the
  quotient is less than a tenth off an integer or equal to it.
\<close>

lemma over_90_exact:
  assumes m: "unat maxm < 2 ^ 46" and n: "n < 2 ^ 53"
  shows "over_90 n maxm \<longleftrightarrow> 9 * unat maxm < 10 * n"
proof -
  let ?m = "unat maxm" and ?a = "unat maxm * 90"
  define q where "q = quot_scaled 53 ?a 100"
  have a: "?a < 2 ^ 53" using m by simp
  have over: "over_90 n maxm \<longleftrightarrow> q < n * 2 ^ 64"
    using m n a by (simp add: over_90_def q_def round_bits_exact)
  define e where "e = bitlen (?a * 2 ^ 64 div 100) - 53"
  have "?a * 2 ^ 64 div 100 < 2 ^ 111" using a by (simp add: div_less_iff_less_mult)
  then have "e \<le> 58" using bitlen_le [of "?a * 2 ^ 64 div 100" 111] by (simp add: e_def)
  then have e: "2 ^ e \<le> (2::nat) ^ 58" by (rule power_increasing) simp
  have b: "2 * (q * 100) \<le> 2 * (?a * 2 ^ 64) + 2 ^ e * 100"
    "2 * (?a * 2 ^ 64) \<le> 2 * (q * 100) + 2 ^ e * 100"
    unfolding q_def e_def by (rule quot_scaled_bounds; simp)+
  consider "9 * ?m < 10 * n" | "9 * ?m = 10 * n" | "10 * n < 9 * ?m" by linarith
  then show ?thesis
  proof cases
    case 1
    then have "9 * ?m + 1 \<le> 10 * n" by simp
    with b(1) e have "q < n * 2 ^ 64" by simp
    with 1 over show ?thesis by blast
  next
    case 2
    then have an: "?a = n * 100" by simp
    have "n < 2 ^ 47" using an a by simp
    then have "n * 2 ^ 64 < 2 ^ 111" by simp
    then have "bitlen (n * 2 ^ 64) \<le> 53 + 64" using bitlen_le [of "n * 2 ^ 64" 111] by simp
    with an have "q = n * 2 ^ 64" unfolding q_def by (intro quot_scaled_exact) simp_all
    with 2 over show ?thesis by simp
  next
    case 3
    then have "10 * n + 1 \<le> 9 * ?m" by simp
    with b(2) e have "\<not> q < n * 2 ^ 64" by simp
    with 3 over show ?thesis by simp
  qed
qed

section \<open>Properties\<close>

text \<open>
  C40: the threshold at which \<open>memUsedCheck\<close> evicts. The comparison
  \<open>mem_used > server.maxmemory * 90.0 / 100\<close> is in double precision and rounds twice; for
  limits below 64 terabytes and counts below \<open>2 ^ 53\<close> the roundings never change the outcome.
\<close>

theorem eviction_threshold:
  assumes "unat maxm < 2 ^ 46" and "n < 2 ^ 53"
  shows "over_90 n maxm \<longleftrightarrow> 9 * unat maxm < 10 * n"
  using assms by (rule over_90_exact)

theorem eviction_threshold_witness: "over_90 36865 40960 \<and> \<not> over_90 36864 40960"
  using eviction_threshold [of 40960 36865] eviction_threshold [of 40960 36864] by simp

end
