(* ===== verification/Bworker.thy ===== *)
theory Bworker
  imports Command
begin

text \<open>
  The background workers (\<open>bworker.c\<close>) and the network calls they make (\<open>net.c\<close>): the
  tiering thread that moves entries to flash, the thread of a client, the accepting thread.
\<close>

section \<open>The tiering thread\<close>

text \<open>
  \<open>hashDelete\<close> takes a \<open>struct msg *\<close> and is given the \<open>char *\<close> of the key: it looks for the
  bytes four positions further on.
\<close>

definition hashDelete_char :: "kvht \<Rightarrow> byte list \<Rightarrow> u32 \<Rightarrow> (int \<times> kvht \<times> u32) res" where
  "hashDelete_char mc key um =
     (if NUL \<in> set (drop sizeof_msg key) then hashDelete mc (drop sizeof_msg key) um
      else Inl OutOfBounds)"

text \<open>
  One round of the loop for \<open>BPB_TIERING_FLASH\<close>; \<open>Blocked\<close> is a wait on the semaphore.
\<close>

definition bworker_flush :: "kvServer \<Rightarrow> env \<Rightarrow> kvDb \<Rightarrow> kvDb res" where
  "bworker_flush sv e db =
     (if sem_bworker db = 0 then Inl Blocked
      else
        bnd (QueueDequeue (memQueue db)) (\<lambda>(p, q).
        let db = db\<lparr>memQueue := q, sem_bworker := sem_bworker db - 1\<rparr> in
        bnd (db_ent p db) (\<lambda>en.
        bnd (flashCacheInsert sv e (he_key en) (msg_buf (ptr (he_val en))) db) (\<lambda>db.
          if cache_mode sv = MODE_MEM_FIFO then
            bnd (hashDelete_char (memCache db) (he_key en) (db_used db)) (\<lambda>(_, mc, um).
              Inr (db\<lparr>memCache := mc, db_used := um\<rparr>))
          else if cache_mode sv = MODE_MEM_LRU then
            Inr (db\<lparr>memLRU := LRUCacheErase (memLRU db) (he_key en),
                    db_used := entry_free en (db_used db),
                    db_ents := AList.delete p (db_ents db)\<rparr>)
          else Inr db))))"

fun flush_n :: "kvServer \<Rightarrow> env \<Rightarrow> nat \<Rightarrow> kvDb \<Rightarrow> kvDb res" where
  "flush_n sv e 0 db = Inr db"
| "flush_n sv e (Suc n) db = bnd (bworker_flush sv e db) (flush_n sv e n)"

section \<open>The thread of a client\<close>

text \<open>\<open>tcpRecv\<close>: the bytes that arrive overwrite the start of the buffer.\<close>

definition tcpRecv :: "byte list \<Rightarrow> kvClient \<Rightarrow> kvClient" where
  "tcpRecv bytes c =
     (let bs = take KV_IOBUF_LEN bytes in c\<lparr>cl_buf := bs @ drop (length bs) (cl_buf c)\<rparr>)"

text \<open>\<open>tcpSend\<close>: the bytes handed to \<open>write\<close>.\<close>

definition tcpSend :: "kvClient \<Rightarrow> byte list res" where
  "tcpSend c =
     (if unat (cl_len c) \<le> length (cl_buf c) then Inr (take (unat (cl_len c)) (cl_buf c))
      else Inl OutOfBounds)"

text \<open>\<open>for (i = 0; i < 2; i++) chfree(c->argv[i]);\<close>\<close>

definition free_arg :: "nat \<Rightarrow> kvClient \<times> kvDb \<Rightarrow> (kvClient \<times> kvDb) res" where
  "free_arg i s = (case s of (c, db) \<Rightarrow>
     (case cl_argv c of
        None \<Rightarrow> Inl Uninitialised
      | Some cells \<Rightarrow>
          (if length cells \<le> i then Inl OutOfBounds
           else
             (case cells ! i of
                Live ob \<Rightarrow>
                  Inr (c\<lparr>cl_argv := Some (cells[i := Freed])\<rparr>,
                       db\<lparr>db_used := discharge (object_bytes (unat (msg_len (ptr ob)))) (db_used db)\<rparr>)
              | _ \<Rightarrow> Inl BadFree))))"

definition free_args :: "kvClient \<times> kvDb \<Rightarrow> (kvClient \<times> kvDb) res" where
  "free_args s = bnd (free_arg 0 s) (free_arg 1)"

text \<open>
  One request of \<open>bworkerRecvJobs\<close>: \<open>SessionClosed\<close> when the peer is gone, otherwise what
  is sent, or the wait that \<open>processCMD\<close> is in. A failed receive (\<open>bytes = []\<close> with
  \<open>gone = False\<close>) is processed like a request.
\<close>

datatype session_out = SessionClosed | SessionSent "byte list" | SessionWait cmd_result

definition session_finish :: "kvClient \<times> kvDb \<Rightarrow> (session_out \<times> kvClient \<times> kvDb) res" where
  "session_finish s =
     bnd (free_args s) (\<lambda>(c, db). bnd (tcpSend c) (\<lambda>out. Inr (SessionSent out, c, db)))"

definition sizeof_kvClient :: nat where
  "sizeof_kvClient = 56"

definition session_step ::
  "kvServer \<Rightarrow> env \<Rightarrow> bool \<Rightarrow> byte list \<Rightarrow> kvClient \<times> kvDb \<Rightarrow> (session_out \<times> kvClient \<times> kvDb) res" where
  "session_step sv e gone bytes s = (case s of (c, db) \<Rightarrow>
     if gone then
       Inr (SessionClosed, c,
            db\<lparr>db_used := discharge sizeof_kvClient
                 (discharge (sizeof_msg + KV_IOBUF_LEN) (db_used db))\<rparr>)
     else
       bnd (parsingMessage (tcpRecv bytes c) (db_used db)) (\<lambda>(c, um).
       bnd (processCMD sv e (c, db\<lparr>db_used := um\<rparr>)) (\<lambda>(r, s).
         if r = CmdDone then session_finish s else Inr (SessionWait r, s))))"

text \<open>What the thread does once its wait is over.\<close>

definition session_resume ::
  "kvServer \<Rightarrow> env \<Rightarrow> cmd_result \<Rightarrow> kvClient \<times> kvDb \<Rightarrow> (session_out \<times> kvClient \<times> kvDb) res" where
  "session_resume sv e r s =
     (case r of
        CmdWaitQueue \<Rightarrow>
          if QueueSize (memQueue (snd s)) > 0 then Inr (SessionWait r, s)
          else bnd (cmd_set sv e s) session_finish
      | CmdWaitEvict \<Rightarrow>
          if evict_done sv (snd s) then session_finish s else Inr (SessionWait r, s)
      | CmdDone \<Rightarrow> session_finish s)"

section \<open>The accepting thread\<close>

definition MAX_NUM_CLIENT :: nat where
  "MAX_NUM_CLIENT = 8"

definition NUM_BWORKER :: nat where
  "NUM_BWORKER = 2"

definition MAX_BWORKER :: nat where
  "MAX_BWORKER = 10"

datatype accept_reply = AcceptFd nat | AcceptEintr | AcceptError

text \<open>\<open>tcpAccept\<close>: an interrupted call returns 0, which the caller takes for a descriptor.\<close>

definition tcpAccept :: "accept_reply \<Rightarrow> int res" where
  "tcpAccept r =
     (case r of AcceptFd n \<Rightarrow> Inr (int n) | AcceptEintr \<Rightarrow> Inr 0 | AcceptError \<Rightarrow> Inl ProcessExit)"

text \<open>
  \<open>num_client\<close> is local to the thread, \<open>clients\<close> and \<open>num_connected_client\<close> belong to the
  server. A client is its descriptor and its id.
\<close>

record acceptor =
  num_client :: nat
  num_connected_client :: nat
  clients :: "(int \<times> nat) option list"
  worker_slots :: "bool list"
  acc_used :: u32

definition acceptor_init :: "u32 \<Rightarrow> acceptor" where
  "acceptor_init um =
     \<lparr>num_client = 0, num_connected_client = 0, clients = replicate MAX_NUM_CLIENT None,
      worker_slots = replicate NUM_BWORKER True @ replicate (MAX_BWORKER - NUM_BWORKER) False,
      acc_used = um\<rparr>"

definition accept_step :: "accept_reply \<Rightarrow> acceptor \<Rightarrow> acceptor res" where
  "accept_step r a =
     bnd (tcpAccept r) (\<lambda>cfd.
       if num_client a = MAX_NUM_CLIENT then Inr a
       else if cfd < 0 then Inr a
       else
         (let cid = num_connected_client a in
          if length (clients a) \<le> cid then Inl OutOfBounds
          else if length (worker_slots a) \<le> NUM_BWORKER + cid then Inl OutOfBounds
          else
            Inr (a\<lparr>acc_used := charge (sizeof_msg + KV_IOBUF_LEN) (charge sizeof_kvClient (acc_used a)),
                   clients := (clients a)[cid := Some (cfd, cid)],
                   num_connected_client := Suc cid,
                   worker_slots := (worker_slots a)[NUM_BWORKER + cid := True],
                   num_client := Suc (num_client a)\<rparr>)))"

fun accept_run :: "accept_reply list \<Rightarrow> acceptor \<Rightarrow> acceptor res" where
  "accept_run [] a = Inr a"
| "accept_run (r # rs) a = bnd (accept_step r a) (accept_run rs)"

text \<open>The two counters agree, the arrays are never left, ids are positions.\<close>

definition acceptor_inv :: "acceptor \<Rightarrow> bool" where
  "acceptor_inv a \<longleftrightarrow>
     num_client a = num_connected_client a \<and> num_client a \<le> MAX_NUM_CLIENT \<and>
     length (clients a) = MAX_NUM_CLIENT \<and> length (worker_slots a) = MAX_BWORKER \<and>
     (\<forall>i < MAX_NUM_CLIENT. case clients a ! i of
        None \<Rightarrow> num_connected_client a \<le> i
      | Some (fd, cid) \<Rightarrow> cid = i \<and> i < num_connected_client a \<and> 0 \<le> fd)"

lemma acceptor_inv_init [inv_intros]: "acceptor_inv (acceptor_init um)"
  by (simp add: acceptor_inv_def acceptor_init_def MAX_NUM_CLIENT_def MAX_BWORKER_def NUM_BWORKER_def)

lemma accept_step_inv:
  assumes inv: "acceptor_inv a" and "r \<noteq> AcceptError"
  shows "\<exists>a'. accept_step r a = Inr a' \<and> acceptor_inv a' \<and>
    num_client a' = min MAX_NUM_CLIENT (Suc (num_client a))"
proof -
  obtain cfd where cfd: "tcpAccept r = Inr cfd" "0 \<le> cfd"
    using assms(2) by (cases r) (auto simp: tcpAccept_def)
  show ?thesis
  proof (cases "num_client a = MAX_NUM_CLIENT")
    case True
    then show ?thesis using inv cfd by (simp add: accept_step_def)
  next
    case False
    then have lt: "num_connected_client a < MAX_NUM_CLIENT" "num_client a = num_connected_client a"
      using inv by (auto simp: acceptor_inv_def)
    then have slot: "NUM_BWORKER + num_connected_client a < MAX_BWORKER"
      by (simp add: MAX_NUM_CLIENT_def NUM_BWORKER_def MAX_BWORKER_def)
    then show ?thesis using inv cfd lt False unfolding acceptor_inv_def
      by (auto simp: accept_step_def Let_def nth_list_update split: option.splits)
  qed
qed

lemma accept_run_inv:
  "acceptor_inv a \<Longrightarrow> AcceptError \<notin> set rs \<Longrightarrow>
   \<exists>a'. accept_run rs a = Inr a' \<and> acceptor_inv a' \<and>
     num_client a' = min MAX_NUM_CLIENT (num_client a + length rs)"
proof (induction rs arbitrary: a)
  case Nil
  then show ?case by (auto simp: acceptor_inv_def min_def)
next
  case (Cons r rs)
  from accept_step_inv [OF Cons.prems(1), of r] Cons.prems(2) obtain a1 where
    "accept_step r a = Inr a1" "acceptor_inv a1"
    "num_client a1 = min MAX_NUM_CLIENT (Suc (num_client a))" by auto
  with Cons.IH [of a1] Cons.prems(2) show ?case by auto
qed

section \<open>Properties\<close>

text \<open>
  The accepting thread. However many connections arrive, also with interrupted calls
  between them, the arrays of clients and of threads are never indexed outside, the entries
  are filled from the front with their own index, and eight clients are served: the count never
  goes down, so from the ninth connection on everybody is turned away, whoever has left.
\<close>

lemma acceptor_serves_eight:
  assumes "AcceptError \<notin> set rs"
  shows "\<exists>a. accept_run rs (acceptor_init um) = Inr a \<and> acceptor_inv a \<and>
    num_client a = min 8 (length rs)"
  using accept_run_inv [OF acceptor_inv_init assms, of um]
  by (auto simp: acceptor_init_def MAX_NUM_CLIENT_def)

end
