(* ===== verification/Store.thy ===== *)
theory Store
  imports Bworker
begin

text \<open>
  The two-level store in the mode of the shipped configuration (\<open>MEM-LRU\<close>, flash without
  write buffers): the invariant over the recency cache, the entries, the queue and the flash
  cache, what \<open>set\<close>, \<open>get\<close>, the eviction and the tiering thread do to the dictionary that
  the two levels stand for, and where that is not what a client expects. What these do to the
  memory level is stated for any flash cache (\<open>bworker_flush_memory\<close>, \<open>getCommand_memory\<close>,
  \<open>getCommand_from_flash\<close>), for \<open>Tiered\<close> uses it with write buffers.
\<close>

section \<open>Objects of the store\<close>

definition val_of :: "kvObject \<Rightarrow> byte list" where
  "val_of ob = until_nul (msg_buf (ptr ob))"

text \<open>\<open>holds ob v\<close>: the object carries the bytes \<open>v\<close>, which have no terminator inside.\<close>

definition holds :: "kvObject \<Rightarrow> byte list \<Rightarrow> bool" where
  "holds ob v \<longleftrightarrow> ptr ob = \<lparr>msg_len = word_of_nat (length v), msg_buf = v @ [NUL]\<rparr> \<and> no_nul v"

lemma holds_val [simp]: "holds ob v \<Longrightarrow> val_of ob = v"
  by (simp add: holds_def val_of_def)

lemma holds_arg: "no_nul v \<Longrightarrow> holds (arg_object v) v"
  by (simp add: holds_def arg_object_def)

definition ent_ok :: "hashEntry \<Rightarrow> byte list \<Rightarrow> bool" where
  "ent_ok en k \<longleftrightarrow> he_key en = k @ [NUL] \<and> (\<exists>v. holds (he_val en) v \<and> good_entry k v)"

section \<open>The invariant\<close>

definition lru_mode :: "kvServer \<Rightarrow> bool" where
  "lru_mode sv \<longleftrightarrow> cache_mode sv = MODE_MEM_LRU \<and> \<not> wbmode sv"

lemma lru_modeD: "lru_mode sv \<Longrightarrow> cache_mode sv = MODE_MEM_LRU"
  by (simp add: lru_mode_def)

definition mem_ok :: "kvDb \<Rightarrow> bool" where
  "mem_ok db \<longleftrightarrow> lru_inv (memLRU db) \<and>
     (\<forall>p en. map_of (db_ents db) p = Some en \<longrightarrow> p < db_next db) \<and>
     (\<forall>k p. lru_value (memLRU db) k = Some p \<longrightarrow>
        (\<exists>en. map_of (db_ents db) p = Some en \<and> ent_ok en k \<and>
           kv_where (he_val en) = (if k \<in> set (lru_order (memLRU db)) then KV_LOC_MEM else KV_LOC_FLUSHING)))"

definition queue_ok :: "kvDb \<Rightarrow> bool" where
  "queue_ok db \<longleftrightarrow> distinct (memQueue db) \<and> sem_bworker db = length (memQueue db) \<and>
     (\<forall>p. p \<in> set (memQueue db) \<longleftrightarrow>
        (\<exists>k. lru_value (memLRU db) k = Some p \<and> k \<notin> set (lru_order (memLRU db))))"

definition store_inv :: "env \<Rightarrow> kvDb \<Rightarrow> bool" where
  "store_inv e db \<longleftrightarrow> mem_ok db \<and> queue_ok db \<and> fc_inv (e, flashCache db) \<and> flash_live db"

text \<open>The same while the lock of the flash cache is held.\<close>

definition store_wf :: "env \<Rightarrow> kvDb \<Rightarrow> bool" where
  "store_wf e db \<longleftrightarrow> mem_ok db \<and> queue_ok db \<and> fc_wf e (flashCache db) \<and> flash_live db"

lemma store_inv_wf: "store_inv e db \<longleftrightarrow> store_wf e db \<and> \<not> fcache_mutex (flashCache db)"
  by (auto simp: store_inv_def store_wf_def fc_inv_def)

text \<open>What the two levels hold.\<close>

definition mem_look :: "kvDb \<Rightarrow> byte list \<Rightarrow> byte list option" where
  "mem_look db k =
     (case lru_value (memLRU db) k of
        None \<Rightarrow> None
      | Some p \<Rightarrow> map_option (\<lambda>en. val_of (he_val en)) (map_of (db_ents db) p))"

definition kv_look :: "env \<Rightarrow> kvDb \<Rightarrow> byte list \<Rightarrow> byte list option" where
  "kv_look e db k = (case mem_look db k of None \<Rightarrow> fc_look (e, flashCache db) k | Some v \<Rightarrow> Some v)"

lemma mem_look_cong:
  "lru_value (memLRU db') = lru_value (memLRU db) \<Longrightarrow> db_ents db' = db_ents db \<Longrightarrow>
   mem_look db' = mem_look db"
  by (rule ext) (auto simp: mem_look_def split: option.splits)

lemma mem_okD:
  assumes "mem_ok db"
  shows "lru_inv (memLRU db)"
    and "\<And>p en. map_of (db_ents db) p = Some en \<Longrightarrow> p < db_next db"
    and "\<And>k p. lru_value (memLRU db) k = Some p \<Longrightarrow>
        \<exists>en. map_of (db_ents db) p = Some en \<and> ent_ok en k \<and>
           kv_where (he_val en) = (if k \<in> set (lru_order (memLRU db)) then KV_LOC_MEM else KV_LOC_FLUSHING)"
  using assms unfolding mem_ok_def by blast+

lemma mem_look_None: "mem_ok db \<Longrightarrow> mem_look db k = None \<longleftrightarrow> lru_value (memLRU db) k = None"
  by (cases "lru_value (memLRU db) k") (auto simp: mem_look_def dest: mem_okD(3))

text \<open>Distinct keys have distinct entries, for an entry records its key.\<close>

lemma mem_ok_inj:
  assumes "mem_ok db" "lru_value (memLRU db) k = Some p" "lru_value (memLRU db) j = Some p"
  shows "k = j"
  using mem_okD(3) [OF assms(1,2)] mem_okD(3) [OF assms(1,3)] by (auto simp: ent_ok_def)

lemma kv_look_upd:
  assumes "mem_look db' = (mem_look db)(k \<mapsto> v)" "flashCache db' = flashCache db"
  shows "kv_look e db' = (kv_look e db)(k \<mapsto> v)"
  using assms by (auto simp: kv_look_def fun_eq_iff split: option.splits)

lemma kv_look_cong:
  "mem_look db' = mem_look db \<Longrightarrow> flashCache db' = flashCache db \<Longrightarrow> kv_look e db' = kv_look e db"
  by (rule ext) (auto simp: kv_look_def split: option.splits)

section \<open>One entry changes\<close>

text \<open>
  Every operation of the memory level stores one entry or frees one, beside what it does to
  the recency list. These lemmas say what has to be checked of such a step.
\<close>

lemma mem_ok_put:
  assumes ok: "mem_ok db" and p: "p < db_next db'" "db_next db \<le> db_next db'"
    and ents: "map_of (db_ents db') = (map_of (db_ents db))(p \<mapsto> en)"
    and val: "lru_value (memLRU db') = (lru_value (memLRU db))(k \<mapsto> p)"
    and other: "\<And>j q. j \<noteq> k \<Longrightarrow> lru_value (memLRU db) j = Some q \<Longrightarrow> q \<noteq> p"
    and order: "\<And>j. j \<noteq> k \<Longrightarrow> j \<in> set (lru_order (memLRU db')) \<longleftrightarrow> j \<in> set (lru_order (memLRU db))"
    and en: "ent_ok en k" "kv_where (he_val en) =
      (if k \<in> set (lru_order (memLRU db')) then KV_LOC_MEM else KV_LOC_FLUSHING)"
    and inv: "lru_inv (memLRU db')"
  shows "mem_ok db'" "mem_look db' = (mem_look db)(k \<mapsto> val_of (he_val en))"
proof -
  show "mem_ok db'"
    unfolding mem_ok_def
  proof (intro conjI allI impI inv)
    show "q < db_next db'" if "map_of (db_ents db') q = Some en'" for q en'
      using that p mem_okD(2) [OF ok, of q] by (auto simp: ents split: if_splits)
    show "\<exists>en. map_of (db_ents db') q = Some en \<and> ent_ok en j \<and> kv_where (he_val en) =
        (if j \<in> set (lru_order (memLRU db')) then KV_LOC_MEM else KV_LOC_FLUSHING)"
      if "lru_value (memLRU db') j = Some q" for j q
    proof (cases "j = k")
      case True
      then show ?thesis using that en by (auto simp: ents val)
    next
      case False
      then have "lru_value (memLRU db) j = Some q" using that by (simp add: val)
      from mem_okD(3) [OF ok this] other [OF False this] order [OF False] show ?thesis
        by (auto simp: ents)
    qed
  qed
  show "mem_look db' = (mem_look db)(k \<mapsto> val_of (he_val en))"
    using other by (auto simp: mem_look_def val ents fun_eq_iff split: option.splits)
qed

lemma mem_ok_drop:
  assumes ok: "mem_ok db" and k: "lru_value (memLRU db) k = Some p"
    and next_same: "db_next db' = db_next db"
    and ents: "map_of (db_ents db') = (map_of (db_ents db))(p := None)"
    and val: "lru_value (memLRU db') = (lru_value (memLRU db))(k := None)"
    and order: "lru_order (memLRU db') = lru_order (memLRU db)" and inv: "lru_inv (memLRU db')"
  shows "mem_ok db'" "mem_look db' = (mem_look db)(k := None)"
proof -
  have other: "q \<noteq> p" if "lru_value (memLRU db) j = Some q" "j \<noteq> k" for j q
    using mem_ok_inj [OF ok that(1), of k] k that(2) by auto
  show "mem_ok db'"
    unfolding mem_ok_def next_same order
  proof (intro conjI allI impI inv)
    show "q < db_next db" if "map_of (db_ents db') q = Some en" for q en
      using that mem_okD(2) [OF ok, of q] by (auto simp: ents split: if_splits)
    show "\<exists>en. map_of (db_ents db') q = Some en \<and> ent_ok en j \<and> kv_where (he_val en) =
        (if j \<in> set (lru_order (memLRU db)) then KV_LOC_MEM else KV_LOC_FLUSHING)"
      if "lru_value (memLRU db') j = Some q" for j q
    proof -
      from that have j: "lru_value (memLRU db) j = Some q" "j \<noteq> k" by (auto simp: val split: if_splits)
      from mem_okD(3) [OF ok j(1)] other [OF j] show ?thesis by (auto simp: ents)
    qed
  qed
  show "mem_look db' = (mem_look db)(k := None)"
    using other by (auto simp: mem_look_def val ents fun_eq_iff split: option.splits)
qed

text \<open>
  The queue holds the entries that have left the recency list: nothing to check while the
  list keeps its keys, one more after an eviction, one less after a flush.
\<close>

lemma queue_ok_enqueue:
  assumes ok: "mem_ok db" "queue_ok db" and k: "lru_value (memLRU db) k = Some p"
    and kin: "k \<in> set (lru_order (memLRU db))"
    and new: "memQueue db' = memQueue db @ [p]" "sem_bworker db' = Suc (sem_bworker db)"
      "lru_value (memLRU db') = lru_value (memLRU db)"
      "set (lru_order (memLRU db')) = set (lru_order (memLRU db)) - {k}"
  shows "queue_ok db'"
proof -
  have "p \<notin> set (memQueue db)"
    using ok(2) mem_ok_inj [OF ok(1) k] kin unfolding queue_ok_def by blast
  moreover have "q \<in> set (memQueue db @ [p]) \<longleftrightarrow>
      (\<exists>j. lru_value (memLRU db) j = Some q \<and> j \<notin> set (lru_order (memLRU db)) - {k})" for q
  proof (cases "q = p")
    case True
    then show ?thesis using k by auto
  next
    case False
    then have "j = k \<Longrightarrow> lru_value (memLRU db) j \<noteq> Some q" for j using k by auto
    then show ?thesis using ok(2) False by (auto simp: queue_ok_def)
  qed
  ultimately show ?thesis using ok(2) unfolding queue_ok_def new by auto
qed

lemma queue_ok_dequeue:
  assumes ok: "mem_ok db" "queue_ok db" and q: "memQueue db = p # q"
    and k: "lru_value (memLRU db) k = Some p"
    and new: "memQueue db' = q" "sem_bworker db' = sem_bworker db - 1"
      "lru_value (memLRU db') = (lru_value (memLRU db))(k := None)"
      "lru_order (memLRU db') = lru_order (memLRU db)"
  shows "queue_ok db'"
proof -
  have other: "r \<noteq> p" if "lru_value (memLRU db) j = Some r" "j \<noteq> k" for j r
    using mem_ok_inj [OF ok(1) that(1), of k] k that(2) by auto
  have "r \<in> set q \<longleftrightarrow>
      (\<exists>j. ((lru_value (memLRU db))(k := None)) j = Some r \<and> j \<notin> set (lru_order (memLRU db)))" for r
  proof -
    have "r \<in> set q \<longleftrightarrow> r \<in> set (memQueue db) \<and> r \<noteq> p" using ok(2) q by (auto simp: queue_ok_def)
    also have "\<dots> \<longleftrightarrow> (\<exists>j. lru_value (memLRU db) j = Some r \<and>
        j \<notin> set (lru_order (memLRU db))) \<and> r \<noteq> p"
      using ok(2) unfolding queue_ok_def by blast
    also have "\<dots> \<longleftrightarrow> (\<exists>j. ((lru_value (memLRU db))(k := None)) j = Some r \<and>
        j \<notin> set (lru_order (memLRU db)))"
      using k other by (metis fun_upd_apply option.inject option.distinct(1))
    finally show ?thesis .
  qed
  moreover have "sem_bworker db' = length q" "distinct q"
    using ok(2) q new(2) by (simp_all add: queue_ok_def)
  ultimately show ?thesis using new unfolding queue_ok_def by simp
qed

section \<open>Adding to the memory cache\<close>

lemma cacheAdd_key:
  assumes "holds key k" "good_entry k v"
  shows "until_nul (msg_buf (ptr key)) = k" "msgdup (ptr key) = k @ [NUL]"
  using assms by (simp_all add: holds_def msgdup_def good_entry_def rec_len_def
      unsigned_of_nat take_bit_nat_eq_self)

lemma cacheAdd_new:
  assumes mode: "cache_mode sv = MODE_MEM_LRU" and ok: "mem_ok db" "queue_ok db"
    and key: "holds key k" and val: "holds ob v" "good_entry k v" "kv_where ob = KV_LOC_MEM"
    and None: "lru_value (memLRU db) k = None"
  shows "\<exists>db'. cacheAdd sv key ob db = Inr db' \<and> mem_ok db' \<and> queue_ok db' \<and>
    flashCache db' = flashCache db \<and> flash_live db' = flash_live db \<and>
    mem_look db' = (mem_look db)(k \<mapsto> v) \<and>
    lru_order (memLRU db') = k # remove1 k (lru_order (memLRU db)) \<and>
    db_used db' = charge sizeof_hashEntry (charge (length k + 1) (db_used db))"
proof -
  note M = mem_okD [OF ok(1)]
  let ?p = "db_next db" and ?en = "\<lparr>he_key = k @ [NUL], he_val = ob\<rparr>"
  define db' where "db' = db\<lparr>db_ents := (?p, ?en) # db_ents db, db_next := Suc ?p,
    db_used := charge sizeof_hashEntry (charge (length (k @ [NUL])) (db_used db)),
    memLRU := lru_push_front k ?p (memLRU db)\<rparr>"
  have run: "cacheAdd sv key ob db = Inr db'"
    using mode None by (simp add: cacheAdd_def LRUCacheGet_def LRUCacheInsert_def Let_def db'_def
        cacheAdd_key [OF key val(2)] lru_get_absent lru_insert_new MODE_MEM_LRU_def MODE_MEM_FIFO_def)
  have nk: "k \<notin> set (lru_order (memLRU db))" using lru_value_None_order [OF M(1) None] .
  have old: "q \<noteq> ?p" if "j \<noteq> k" "lru_value (memLRU db) j = Some q" for j q
    using M(3) [OF that(2)] M(2) [of q] by auto
  have en: "ent_ok ?en k" using val by (auto simp: ent_ok_def)
  have "mem_ok db'" "mem_look db' = (mem_look db)(k \<mapsto> val_of (he_val ?en))"
    by (rule mem_ok_put [OF ok(1), of ?p db' ?en k];
        use old en val(3) lru_inv_push [OF M(1) nk] in \<open>simp add: db'_def\<close>)+
  moreover have "queue_ok db'"
    using ok(2) None unfolding queue_ok_def
    by (auto simp: db'_def split: if_splits) (metis option.distinct(1))+
  ultimately show ?thesis
    using run nk val(1) by (intro exI [of _ db']) (simp add: db'_def remove1_idem)
qed

lemma cacheAdd_present:
  assumes mode: "cache_mode sv = MODE_MEM_LRU" and ok: "mem_ok db" "queue_ok db"
    and key: "holds key k" and val: "holds ob v" "good_entry k v" "kv_where ob = KV_LOC_MEM"
    and k: "k \<in> set (lru_order (memLRU db))" and Some: "lru_value (memLRU db) k = Some p"
  shows "\<exists>db'. cacheAdd sv key ob db = Inr db' \<and> mem_ok db' \<and> queue_ok db' \<and>
    flashCache db' = flashCache db \<and> flash_live db' = flash_live db \<and>
    mem_look db' = (mem_look db)(k \<mapsto> v) \<and>
    lru_order (memLRU db') = k # remove1 k (lru_order (memLRU db)) \<and> db_used db' = db_used db"
proof -
  note M = mem_okD [OF ok(1)]
  from lru_get_present [OF M(1) k] Some obtain c where c: "lru_get k (memLRU db) = Inr (Some p, c)"
    "lru_inv c" "lru_order c = k # remove1 k (lru_order (memLRU db))"
    "lru_value c = lru_value (memLRU db)" by auto
  have order: "set (lru_order c) = set (lru_order (memLRU db))"
    using c(3) k lru_order_distinct [OF M(1)] by auto
  from M(3) [OF Some] obtain en where en: "map_of (db_ents db) p = Some en" "ent_ok en k" by blast
  define db' where "db' = (db_set_ent p (en\<lparr>he_val := ob\<rparr>) db)\<lparr>memLRU := c\<rparr>"
  have run: "cacheAdd sv key ob db = Inr db'"
    using mode en c(1) by (simp add: cacheAdd_def LRUCacheGet_def cacheAdd_key [OF key val(2)] Let_def
        db_ent_def db'_def MODE_MEM_LRU_def MODE_MEM_FIFO_def)
  have ents: "map_of (db_ents db') = (map_of (db_ents db))(p \<mapsto> en\<lparr>he_val := ob\<rparr>)"
    by (simp add: db'_def db_set_ent_def update_conv' fun_eq_iff)
  have other: "q \<noteq> p" if "j \<noteq> k" "lru_value (memLRU db) j = Some q" for j q
    using mem_ok_inj [OF ok(1) that(2), of k] Some that(1) by auto
  have same: "memLRU db' = c" "memQueue db' = memQueue db" "sem_bworker db' = sem_bworker db"
    "db_next db' = db_next db" "flashCache db' = flashCache db" "flash_live db' = flash_live db"
    "db_used db' = db_used db"
    by (simp_all add: db'_def db_set_ent_def)
  have en': "ent_ok (en\<lparr>he_val := ob\<rparr>) k" using en(2) val by (auto simp: ent_ok_def)
  have "lru_value c = (lru_value (memLRU db))(k \<mapsto> p)" using c(4) Some by auto
  then have "mem_ok db'" "mem_look db' = (mem_look db)(k \<mapsto> val_of ob)"
    using mem_ok_put [OF ok(1) _ _ ents, of k] M(2) [OF en(1)] other en' val(3) c(2) order k
    by (simp_all add: same)
  moreover have "queue_ok db'"
    using ok(2) order c(4) unfolding queue_ok_def same by simp
  ultimately show ?thesis
    using run same c(3) val(1) by (intro exI [of _ db']) simp
qed

text \<open>
  \<open>cacheAdd\<close> for a key that is not on its way to flash. The counter of used memory is
  charged on a miss only: the value that an overwrite replaces is not freed.
\<close>

lemma cacheAdd_lru:
  assumes mode: "cache_mode sv = MODE_MEM_LRU" and ok: "mem_ok db" "queue_ok db"
    and key: "holds key k" and val: "holds ob v" "good_entry k v" "kv_where ob = KV_LOC_MEM"
    and limbo: "\<not> lru_limbo k (memLRU db)"
  shows "\<exists>db'. cacheAdd sv key ob db = Inr db' \<and> mem_ok db' \<and> queue_ok db' \<and>
    flashCache db' = flashCache db \<and> flash_live db' = flash_live db \<and>
    mem_look db' = (mem_look db)(k \<mapsto> v) \<and>
    lru_order (memLRU db') = k # remove1 k (lru_order (memLRU db)) \<and>
    db_used db' = (if mem_look db k = None
      then charge sizeof_hashEntry (charge (length k + 1) (db_used db)) else db_used db)"
proof (cases "lru_value (memLRU db) k")
  case None
  with cacheAdd_new [OF assms(1-7) this] mem_look_None [OF ok(1), of k] show ?thesis by simp
next
  case (Some p)
  then have "k \<in> set (lru_order (memLRU db))" using limbo by (auto simp: lru_limbo_def)
  from cacheAdd_present [OF assms(1-7) this Some] mem_look_None [OF ok(1), of k] Some show ?thesis
    by auto
qed

section \<open>Eviction to the queue\<close>

lemma evict_to_queue_lru:
  assumes mode: "cache_mode sv = MODE_MEM_LRU" and ok: "mem_ok db" "queue_ok db"
    and ne: "lru_order (memLRU db) \<noteq> []"
  shows "\<exists>db' p. evict_to_queue sv db = Inr db' \<and> mem_ok db' \<and> queue_ok db' \<and>
    flashCache db' = flashCache db \<and> flash_live db' = flash_live db \<and> db_used db' = db_used db \<and>
    mem_look db' = mem_look db \<and> lru_order (memLRU db') = butlast (lru_order (memLRU db)) \<and>
    lru_value (memLRU db) (last (lru_order (memLRU db))) = Some p \<and>
    memQueue db' = memQueue db @ [p] \<and> lru_limbo (last (lru_order (memLRU db))) (memLRU db')"
proof -
  note M = mem_okD [OF ok(1)]
  let ?k = "last (lru_order (memLRU db))"
  from lru_evict_last [OF M(1) ne] obtain p c where c: "lru_evict (memLRU db) = Inr (p, c)"
    "lru_value (memLRU db) ?k = Some p" "lru_inv c" "lru_order c = butlast (lru_order (memLRU db))"
    "lru_value c = lru_value (memLRU db)" by blast
  have kin: "?k \<in> set (lru_order (memLRU db))" using ne by simp
  have order: "set (lru_order c) = set (lru_order (memLRU db)) - {?k}"
    using lru_order_distinct [OF M(1)] ne
    by (cases "lru_order (memLRU db)" rule: rev_cases) (auto simp: c(4))
  from M(3) [OF c(2)] kin obtain en where en: "map_of (db_ents db) p = Some en" "ent_ok en ?k"
    "kv_where (he_val en) = KV_LOC_MEM" by auto
  define en' where "en' = en\<lparr>he_val := (he_val en)\<lparr>kv_where := KV_LOC_FLUSHING\<rparr>\<rparr>"
  define db' where "db' = (db_set_ent p en' (db\<lparr>memLRU := c\<rparr>))
    \<lparr>memQueue := QueueEnqueue (memQueue db) p, sem_bworker := sem_bworker db + 1\<rparr>"
  have "\<not> lru_empty (memLRU db)" using c(2) by (auto simp: lru_empty_def lru_value_def)
  then have run: "evict_to_queue sv db = Inr db'"
    using mode c(1) en by (simp add: evict_to_queue_def LRUCacheEvict_def db_ent_def db'_def en'_def
        db_set_ent_def MODE_MEM_LRU_def MODE_MEM_FIFO_def)
  have ents: "map_of (db_ents db') = (map_of (db_ents db))(p \<mapsto> en')"
    by (simp add: db'_def db_set_ent_def update_conv' fun_eq_iff)
  have same: "memLRU db' = c" "memQueue db' = memQueue db @ [p]"
    "sem_bworker db' = Suc (sem_bworker db)" "db_next db' = db_next db"
    "flashCache db' = flashCache db" "flash_live db' = flash_live db" "db_used db' = db_used db"
    by (simp_all add: db'_def db_set_ent_def QueueEnqueue_def)
  have other: "q \<noteq> p" if "j \<noteq> ?k" "lru_value (memLRU db) j = Some q" for j q
    using mem_ok_inj [OF ok(1) that(2), of ?k] c(2) that(1) by auto
  have en': "ent_ok en' ?k" "val_of (he_val en') = val_of (he_val en)"
    "kv_where (he_val en') = KV_LOC_FLUSHING"
    using en(2) by (auto simp: ent_ok_def en'_def holds_def val_of_def)
  have "lru_value c = (lru_value (memLRU db))(?k \<mapsto> p)" using c(2,5) by auto
  then have "mem_ok db'" "mem_look db' = (mem_look db)(?k \<mapsto> val_of (he_val en'))"
    using mem_ok_put [OF ok(1) _ _ ents, of ?k] M(2) [OF en(1)] other en'(1,3) c(3) order
    by (simp_all add: same)
  moreover have "mem_look db ?k = Some (val_of (he_val en'))"
    using c(2) en(1) en'(2) by (simp add: mem_look_def)
  moreover have "queue_ok db'"
    using queue_ok_enqueue [OF ok c(2) kin same(2,3)] c(5) order by (simp add: same)
  moreover have "lru_limbo ?k (memLRU db')"
    using c(2,5) order by (simp add: lru_limbo_def same)
  ultimately show ?thesis
    using run same c(2,4) by (intro exI [of _ db'] exI [of _ p]) (simp add: map_upd_triv)
qed

section \<open>The tiering thread\<close>

lemma bworker_flush_memory:
  assumes mode: "cache_mode sv = MODE_MEM_LRU" and ok: "mem_ok db" "queue_ok db" "flash_live db"
    and q: "memQueue db = p # q"
  obtains k v where "lru_limbo k (memLRU db)" "lru_value (memLRU db) k = Some p" "mem_look db k = Some v"
    "good_entry k v"
    "\<And>fc. fc_Insert (wbmode sv) e k v (flashCache db) = Inr (0, fc) \<Longrightarrow>
      \<exists>db'. bworker_flush sv e db = Inr db' \<and> mem_ok db' \<and> queue_ok db' \<and> flash_live db' \<and>
        flashCache db' = fc \<and> memQueue db' = q \<and> mem_look db' = (mem_look db)(k := None) \<and>
        lru_order (memLRU db') = lru_order (memLRU db)"
proof -
  note M = mem_okD [OF ok(1)]
  from ok(2) q obtain k where k: "lru_value (memLRU db) k = Some p" "k \<notin> set (lru_order (memLRU db))"
    by (auto simp: queue_ok_def)
  from M(3) [OF k(1)] obtain en v where en: "map_of (db_ents db) p = Some en"
    "he_key en = k @ [NUL]" "holds (he_val en) v" "good_entry k v" by (auto simp: ent_ok_def)
  have kk: "until_nul (he_key en) = k" "until_nul (msg_buf (ptr (he_val en))) = v"
    using en by (simp_all add: good_entry_def holds_def)
  have flush: "\<exists>db'. bworker_flush sv e db = Inr db' \<and> mem_ok db' \<and> queue_ok db' \<and> flash_live db' \<and>
      flashCache db' = fc \<and> memQueue db' = q \<and> mem_look db' = (mem_look db)(k := None) \<and>
      lru_order (memLRU db') = lru_order (memLRU db)"
    if fc: "fc_Insert (wbmode sv) e k v (flashCache db) = Inr (0, fc)" for fc
  proof -
    define db' where "db' = db\<lparr>memQueue := q, sem_bworker := sem_bworker db - 1, flashCache := fc,
      memLRU := lru_erase k (memLRU db), db_used := entry_free en (db_used db),
      db_ents := AList.delete p (db_ents db)\<rparr>"
    have "bworker_flush sv e db = Inr db'"
      using mode ok(2,3) q en(1) kk fc
      by (simp add: bworker_flush_def queue_ok_def QueueDequeue_def db_ent_def flashCacheInsert_def
          LRUCacheErase_def db'_def MODE_MEM_LRU_def MODE_MEM_FIFO_def)
    moreover have "mem_ok db'" "mem_look db' = (mem_look db)(k := None)"
      by (rule mem_ok_drop [OF ok(1) k(1)];
          use lru_inv_erase [OF M(1) k(2)] in \<open>simp add: db'_def delete_conv'\<close>)+
    moreover have "queue_ok db'"
      by (rule queue_ok_dequeue [OF ok(1,2) q k(1)]) (simp_all add: db'_def)
    ultimately show ?thesis using ok(3) by (intro exI [of _ db']) (simp add: db'_def)
  qed
  have "lru_limbo k (memLRU db)" "mem_look db k = Some v" using k en by (simp_all add: mem_look_def lru_limbo_def)
  with flush k(1) en(4) that show ?thesis by blast
qed

lemma bworker_flush_lru:
  assumes mode: "lru_mode sv" and inv: "store_inv e db" and q: "memQueue db = p # q"
    and room: "fc_room (flashCache db) (Suc n)"
  shows "\<exists>db' k v. bworker_flush sv e db = Inr db' \<and> store_inv e db' \<and>
    fc_room (flashCache db') n \<and> lru_limbo k (memLRU db) \<and> lru_value (memLRU db) k = Some p \<and>
    mem_look db k = Some v \<and> mem_look db' = (mem_look db)(k := None) \<and> memQueue db' = q \<and>
    lru_order (memLRU db') = lru_order (memLRU db) \<and>
    fc_look (e, flashCache db') = (if fc_look (e, flashCache db) k = None
      then (fc_look (e, flashCache db))(k \<mapsto> v) else fc_look (e, flashCache db)) \<and>
    appended e k v (flashCache db) (flashCache db') \<and> good_entry k v"
proof -
  have ok: "mem_ok db" "queue_ok db" "flash_live db" "fc_inv (e, flashCache db)"
    and m: "cache_mode sv = MODE_MEM_LRU" "wbmode sv = False"
    using inv mode by (simp_all add: store_inv_def lru_mode_def)
  from bworker_flush_memory [OF m(1) ok(1-3) q, of e] obtain k v where k: "lru_limbo k (memLRU db)"
    "lru_value (memLRU db) k = Some p" "mem_look db k = Some v" "good_entry k v"
    and F: "\<And>fc. fc_Insert (wbmode sv) e k v (flashCache db) = Inr (0, fc) \<Longrightarrow>
      \<exists>db'. bworker_flush sv e db = Inr db' \<and> mem_ok db' \<and> queue_ok db' \<and> flash_live db' \<and>
        flashCache db' = fc \<and> memQueue db' = q \<and> mem_look db' = (mem_look db)(k := None) \<and>
        lru_order (memLRU db') = lru_order (memLRU db)" by blast
  from fc_Insert_wf [OF ok(4) k(4) room] obtain fc where fc:
    "fc_Insert False e k v (flashCache db) = Inr (0, fc)" "fc_inv (e, fc)" "fc_room fc n"
    "fc_look (e, fc) = (if fc_look (e, flashCache db) k = None
      then (fc_look (e, flashCache db))(k \<mapsto> v) else fc_look (e, flashCache db))"
    "appended e k v (flashCache db) fc" by blast
  from F [of fc] fc(1) m(2) obtain db' where "bworker_flush sv e db = Inr db'" "mem_ok db'" "queue_ok db'"
    "flash_live db'" "flashCache db' = fc" "memQueue db' = q" "mem_look db' = (mem_look db)(k := None)"
    "lru_order (memLRU db') = lru_order (memLRU db)" by auto
  with k fc show ?thesis by (intro exI [of _ db'] exI [of _ k] exI [of _ v]) (simp add: store_inv_def)
qed

text \<open>
  What a client sees change when an entry reaches flash: nothing if flash did not have the
  key, and the value flash had before otherwise.
\<close>

lemma kv_look_flush:
  assumes "mem_look db k = Some v" "mem_look db' = (mem_look db)(k := None)"
    and "fc_look (e, flashCache db') = (if fc_look (e, flashCache db) k = None
      then (fc_look (e, flashCache db))(k \<mapsto> v) else fc_look (e, flashCache db))"
  shows "kv_look e db' = (case fc_look (e, flashCache db) k of
    None \<Rightarrow> kv_look e db | Some w \<Rightarrow> (kv_look e db)(k \<mapsto> w))"
  using assms by (auto simp: kv_look_def fun_eq_iff split: option.splits)

section \<open>The commands\<close>

lemma reply_sent:
  assumes "length s < length (cl_buf c)" "length (cl_buf c) < 2 ^ 32"
  shows "\<exists>c'. reply s c = Inr c' \<and> tcpSend c' = Inr s \<and> cl_argv c' = cl_argv c \<and>
    length (cl_buf c') = length (cl_buf c)"
proof -
  have "unat (word_of_nat (length s) :: u32) = length s"
    using assms by (simp add: unsigned_of_nat take_bit_nat_eq_self)
  then show ?thesis using assms by (cases "cl_buf c") (simp_all add: reply_def tcpSend_def)
qed

definition bulk :: "nat \<Rightarrow> byte list \<Rightarrow> byte list" where
  "bulk n s = ''$'' @ dec n @ [CR, LF] @ s @ [CR, LF]"

lemma dec_int_nat [simp]: "dec_int (int n) = dec n"
  by (simp add: dec_int_def)

definition client_ok :: "kvClient \<Rightarrow> bool" where
  "client_ok c \<longleftrightarrow> length (cl_buf c) = KV_IOBUF_LEN"

lemma client_okD: "client_ok c \<Longrightarrow> length (cl_buf c) = 16384"
  by (simp add: client_ok_def KV_IOBUF_LEN_def)

lemma setCommand_lru_effect:
  assumes mode: "lru_mode sv" and inv: "store_wf e db"
    and key: "holds key k" and val: "holds ob v" "good_entry k v" "kv_where ob = KV_LOC_MEM"
    and limbo: "\<not> lru_limbo k (memLRU db)"
  shows "\<exists>db'. (\<forall>c. setCommand sv e key ob (c, db) =
      bnd (reply (''+OK'' @ [CR, LF]) c) (\<lambda>c. Inr (c, db'))) \<and> store_wf e db' \<and>
    kv_look e db' = (kv_look e db)(k \<mapsto> v) \<and> flashCache db' = flashCache db \<and>
    mem_look db' = (mem_look db)(k \<mapsto> v) \<and>
    lru_order (memLRU db') = k # remove1 k (lru_order (memLRU db))"
proof -
  from inv have ok: "mem_ok db" "queue_ok db" by (simp_all add: store_wf_def)
  have m: "cache_mode sv = MODE_MEM_LRU" using mode by (simp add: lru_mode_def)
  from cacheAdd_lru [OF m ok key val limbo] obtain db' where db': "cacheAdd sv key ob db = Inr db'"
    "mem_ok db'" "queue_ok db'" "flashCache db' = flashCache db" "flash_live db' = flash_live db"
    "mem_look db' = (mem_look db)(k \<mapsto> v)"
    "lru_order (memLRU db') = k # remove1 k (lru_order (memLRU db))" by blast
  have "setCommand sv e key ob (c, db) = bnd (reply (''+OK'' @ [CR, LF]) c) (\<lambda>c. Inr (c, db'))" for c
    using m db'(1) by (simp add: setCommand_def MODE_MEM_LRU_def MODE_ONLY_FLASH_def)
  moreover have "store_wf e db'" using inv db' by (simp add: store_wf_def)
  moreover have "kv_look e db' = (kv_look e db)(k \<mapsto> v)" using kv_look_upd [OF db'(6,4)] .
  ultimately show ?thesis using db'(4,6,7) by blast
qed

lemma setCommand_lru:
  assumes "lru_mode sv" "store_wf e db" and c: "client_ok c"
    and "holds key k" "holds ob v" "good_entry k v" "kv_where ob = KV_LOC_MEM"
    and "\<not> lru_limbo k (memLRU db)"
  shows "\<exists>c' db'. setCommand sv e key ob (c, db) = Inr (c', db') \<and> store_wf e db' \<and>
    kv_look e db' = (kv_look e db)(k \<mapsto> v) \<and> flashCache db' = flashCache db \<and>
    mem_look db' = (mem_look db)(k \<mapsto> v) \<and>
    lru_order (memLRU db') = k # remove1 k (lru_order (memLRU db)) \<and>
    tcpSend c' = Inr (''+OK'' @ [CR, LF]) \<and> cl_argv c' = cl_argv c \<and> client_ok c'"
proof -
  from reply_sent [of "''+OK'' @ [CR, LF]" c] client_okD [OF c] obtain c' where
    c': "reply (''+OK'' @ [CR, LF]) c = Inr c'" "tcpSend c' = Inr (''+OK'' @ [CR, LF])"
    "cl_argv c' = cl_argv c" "length (cl_buf c') = length (cl_buf c)" by auto
  then show ?thesis
    using setCommand_lru_effect [OF assms(1,2,4-8)] c by (fastforce simp: client_ok_def)
qed

lemma getCommand_memory:
  assumes mode: "cache_mode sv = MODE_MEM_LRU" and ok: "mem_ok db" "queue_ok db"
    and key: "holds key k" and hit: "mem_look db k = Some v"
    and limbo: "\<not> lru_limbo k (memLRU db)"
  shows "\<exists>db'. (\<forall>c. getCommand sv e key (c, db) =
      bnd (reply (bulk (length v) v) c) (\<lambda>c. Inr (c, db'))) \<and> mem_ok db' \<and> queue_ok db' \<and>
    mem_look db' = mem_look db \<and> flashCache db' = flashCache db \<and> flash_live db' = flash_live db \<and>
    lru_order (memLRU db') = k # remove1 k (lru_order (memLRU db))"
proof -
  note M = mem_okD [OF ok(1)]
  from hit obtain p where p: "lru_value (memLRU db) k = Some p"
    by (auto simp: mem_look_def split: option.splits)
  then have k: "k \<in> set (lru_order (memLRU db))" using limbo by (auto simp: lru_limbo_def)
  from lru_get_present [OF M(1) k] p obtain cc where cc: "lru_get k (memLRU db) = Inr (Some p, cc)"
    "lru_inv cc" "lru_order cc = k # remove1 k (lru_order (memLRU db))"
    "lru_value cc = lru_value (memLRU db)" by auto
  have order: "set (lru_order cc) = set (lru_order (memLRU db))"
    using cc(3) k lru_order_distinct [OF M(1)] by auto
  from M(3) [OF p] hit obtain en where en: "map_of (db_ents db) p = Some en" "holds (he_val en) v"
    "good_entry k v" using p by (auto simp: ent_ok_def mem_look_def)
  let ?db = "db\<lparr>memLRU := cc\<rparr>"
  have kk: "until_nul (msg_buf (ptr key)) = k"
    using key by (simp add: holds_def)
  have "mem_find sv (msg_buf (ptr key)) db = Inr (Some (he_val en), ?db)"
    using mode cc(1) en(1) kk
    by (simp add: mem_find_def LRUCacheGet_def db_ent_def MODE_MEM_LRU_def MODE_MEM_FIFO_def)
  moreover have "bulk_reply (sint (msg_len (ptr (he_val en)))) (msg_buf (ptr (he_val en))) c =
      reply (bulk (length v) v) c" for c
    using en by (simp add: bulk_reply_def holds_def bulk_def good_entry_def rec_len_def sint_small_nat)
  moreover have "mem_ok ?db" using ok(1) cc(2,4) order unfolding mem_ok_def by simp
  moreover have "queue_ok ?db" using ok(2) cc(4) order unfolding queue_ok_def by simp
  moreover have "mem_look ?db = mem_look db" using cc(4) by (intro mem_look_cong) simp_all
  ultimately show ?thesis
    using mode cc(3) by (intro exI [of _ ?db]) (simp add: getCommand_def MODE_MEM_LRU_def MODE_ONLY_FLASH_def)
qed

lemma getCommand_mem_effect:
  assumes mode: "lru_mode sv" and inv: "store_wf e db"
    and key: "holds key k" and hit: "mem_look db k = Some v"
    and limbo: "\<not> lru_limbo k (memLRU db)"
  shows "\<exists>db'. (\<forall>c. getCommand sv e key (c, db) =
      bnd (reply (bulk (length v) v) c) (\<lambda>c. Inr (c, db'))) \<and> store_wf e db' \<and>
    kv_look e db' = kv_look e db \<and> mem_look db' = mem_look db \<and> flashCache db' = flashCache db \<and>
    lru_order (memLRU db') = k # remove1 k (lru_order (memLRU db))"
proof -
  have "cache_mode sv = MODE_MEM_LRU" "mem_ok db" "queue_ok db" using mode inv by (simp_all add: lru_mode_def store_wf_def)
  from getCommand_memory [OF this key hit limbo] obtain db' where
    "\<forall>c. getCommand sv e key (c, db) = bnd (reply (bulk (length v) v) c) (\<lambda>c. Inr (c, db'))"
    "mem_ok db'" "queue_ok db'" "mem_look db' = mem_look db" "flashCache db' = flashCache db"
    "flash_live db' = flash_live db" "lru_order (memLRU db') = k # remove1 k (lru_order (memLRU db))" by blast
  moreover from this have "kv_look e db' = kv_look e db" by (intro kv_look_cong)
  ultimately show ?thesis using inv by (intro exI [of _ db']) (simp add: store_wf_def)
qed

lemma getCommand_mem:
  assumes "lru_mode sv" "store_wf e db" "holds key k" "mem_look db k = Some v"
    and "\<not> lru_limbo k (memLRU db)" and c: "client_ok c"
    and fits: "length (bulk (length v) v) < KV_IOBUF_LEN"
  shows "\<exists>c' db'. getCommand sv e key (c, db) = Inr (c', db') \<and> store_wf e db' \<and>
    kv_look e db' = kv_look e db \<and> flashCache db' = flashCache db \<and>
    lru_order (memLRU db') = k # remove1 k (lru_order (memLRU db)) \<and>
    tcpSend c' = Inr (bulk (length v) v) \<and> cl_argv c' = cl_argv c \<and> client_ok c'"
proof -
  from reply_sent [of "bulk (length v) v" c] c fits obtain c' where
    "reply (bulk (length v) v) c = Inr c'" "tcpSend c' = Inr (bulk (length v) v)"
    "cl_argv c' = cl_argv c" "length (cl_buf c') = length (cl_buf c)"
    by (auto simp: client_ok_def KV_IOBUF_LEN_def)
  with getCommand_mem_effect [OF assms(1-5)] c show ?thesis by (auto simp: client_ok_def)
qed

text \<open>
  A hit in flash moves the entry to memory. The reply has the bytes that follow the value in
  memory up to the next terminator, for the value was copied without one.
\<close>

lemma mem_find_absent:
  assumes "cache_mode sv = MODE_MEM_LRU" "mem_ok db" "holds key k" "mem_look db k = None"
  shows "mem_find sv (msg_buf (ptr key)) db = Inr (None, db)"
  using assms mem_look_None [OF assms(2), of k]
  by (simp add: mem_find_def LRUCacheGet_def lru_get_absent holds_def
      MODE_MEM_LRU_def MODE_MEM_FIFO_def)

text \<open>The reply with a value from flash: the bytes behind the value are printed as well.\<close>

lemma flash_bulk_reply:
  assumes "env_ok e" and good: "good_entry k v"
  shows "bulk_reply (flash_size v) (v @ env_tail e) c =
    reply (bulk (length v) (v @ until_nul (env_tail e))) c"
proof -
  have "cstr (v @ env_tail e) = Some (v @ until_nul (env_tail e))"
    using assms by (intro cstr_append) (auto simp: env_ok_def good_entry_def)
  then show ?thesis
    using good by (simp add: bulk_reply_def bulk_def flash_size_def good_entry_def rec_len_def)
qed

lemma getCommand_from_flash:
  assumes mode: "cache_mode sv = MODE_MEM_LRU" and ok: "mem_ok db" "queue_ok db" "flash_live db"
    and e: "env_ok e" and key: "holds key k" and miss: "mem_look db k = None" and good: "good_entry k v"
    and hit: "fc_Lookup (wbmode sv) e k (flashCache db) = Inr (Some v, fc)"
  shows "\<exists>db'. (\<forall>c. getCommand sv e key (c, db) =
      bnd (reply (bulk (length v) (v @ until_nul (env_tail e))) c) (\<lambda>c. Inr (c, db'))) \<and>
    mem_ok db' \<and> queue_ok db' \<and> flash_live db' \<and> mem_look db' = (mem_look db)(k \<mapsto> v) \<and>
    flashCache db' = fc_DeleteMetaData k fc"
proof -
  have kk: "until_nul (msg_buf (ptr key)) = k" using key by (simp add: holds_def)
  let ?um = "charge (object_bytes (length v)) (db_used db)"
  let ?db1 = "db\<lparr>flashCache := fc, db_used := ?um\<rparr>"
  have ok1: "mem_ok ?db1" "queue_ok ?db1" using ok(1,2) by (simp_all add: mem_ok_def queue_ok_def)
  have v: "no_nul v" using good by (simp add: good_entry_def)
  define ob where "ob = arg_object v"
  have ob: "createObject (Some v) (length v) = Inr ob" "holds ob v" "kv_where ob = KV_LOC_MEM"
    using v by (simp_all add: ob_def createObject_Some arg_object_def holds_def)
  have "\<not> lru_limbo k (memLRU ?db1)"
    using miss mem_look_None [OF ok(1), of k] by (simp add: lru_limbo_def)
  from cacheAdd_lru [OF mode ok1 key ob(2) good ob(3) this] obtain db2 where db2:
    "cacheAdd sv key ob ?db1 = Inr db2" "mem_ok db2" "queue_ok db2" "flashCache db2 = fc"
    "flash_live db2 = flash_live db" "mem_look db2 = (mem_look ?db1)(k \<mapsto> v)" by auto
  let ?db3 = "db2\<lparr>flashCache := fc_DeleteMetaData k fc\<rparr>"
  have mem: "mem_look ?db1 = mem_look db" "mem_look ?db3 = mem_look db2"
    by (rule mem_look_cong; simp)+
  have bulk: "bulk_reply (flash_size v) (v @ env_tail e) c =
      reply (bulk (length v) (v @ until_nul (env_tail e))) c" for c
    using flash_bulk_reply [OF e good] .
  have "getCommand sv e key (c, db) =
      bnd (reply (bulk (length v) (v @ until_nul (env_tail e))) c) (\<lambda>c. Inr (c, ?db3))" for c
    using mode ok(3) db2(1,4,5) ob(1) bulk hit kk mem_find_absent [OF mode ok(1) key miss]
    by (simp add: getCommand_def flashCacheLookup_def flashCacheMetakeyDelete_def Let_def
        MODE_MEM_LRU_def MODE_ONLY_FLASH_def)
  moreover have "mem_ok ?db3" "queue_ok ?db3" using db2(2,3) by (simp_all add: mem_ok_def queue_ok_def)
  ultimately show ?thesis using mem db2(5,6) ok(3) by (intro exI [of _ ?db3]) simp
qed

lemma getCommand_flash_effect:
  assumes mode: "lru_mode sv" and inv: "store_inv e db"
    and key: "holds key k" and miss: "mem_look db k = None"
    and hit: "fc_look (e, flashCache db) k = Some v"
  shows "\<exists>db'. (\<forall>c. getCommand sv e key (c, db) =
      bnd (reply (bulk (length v) (v @ until_nul (env_tail e))) c) (\<lambda>c. Inr (c, db'))) \<and>
    store_inv e db' \<and> kv_look e db' = kv_look e db \<and> mem_look db' = (mem_look db)(k \<mapsto> v) \<and>
    fc_look (e, flashCache db') = (fc_look (e, flashCache db))(k := None)"
proof -
  from inv have good: "good_entry k v"
    using fc_look_good [of e "flashCache db" k v] hit by (simp add: store_inv_def fc_inv_def)
  from inv have ok: "mem_ok db" "queue_ok db" "flash_live db" "fc_inv (e, flashCache db)" "env_ok e"
    using fc_wfD(1) [of e "flashCache db"] by (simp_all add: store_inv_def fc_inv_def)
  have m: "cache_mode sv = MODE_MEM_LRU" "wbmode sv = False" using mode by (simp_all add: lru_mode_def)
  from fc_Lookup_hit [OF ok(4) hit] obtain fc where fc: "fc_Lookup False e k (flashCache db) = Inr (Some v, fc)"
    "fc_inv (e, fc)" "fc_look (e, fc) = fc_look (e, flashCache db)" by blast
  from getCommand_from_flash [OF m(1) ok(1-3,5) key miss good, of fc] fc(1) m(2) obtain db' where db':
    "\<forall>c. getCommand sv e key (c, db) =
      bnd (reply (bulk (length v) (v @ until_nul (env_tail e))) c) (\<lambda>c. Inr (c, db'))"
    "mem_ok db'" "queue_ok db'" "flash_live db'" "mem_look db' = (mem_look db)(k \<mapsto> v)"
    "flashCache db' = fc_DeleteMetaData k fc" by auto
  have del: "fc_inv (e, fc_DeleteMetaData k fc)"
    "fc_look (e, fc_DeleteMetaData k fc) = (fc_look (e, flashCache db))(k := None)"
    using fc_DeleteMetaData_wf [OF fc(2), of k] fc(3) by simp_all
  have "kv_look e db' = kv_look e db"
    using db'(5,6) del(2) miss hit by (auto simp: kv_look_def fun_eq_iff split: option.splits)
  then show ?thesis using db' del by (intro exI [of _ db']) (simp add: store_inv_def)
qed

lemma getCommand_flash:
  assumes "lru_mode sv" "store_inv e db" "holds key k" "mem_look db k = None"
    and "fc_look (e, flashCache db) k = Some v" and c: "client_ok c"
    and fits: "length (bulk (length v) (v @ until_nul (env_tail e))) < KV_IOBUF_LEN"
  shows "\<exists>c' db'. getCommand sv e key (c, db) = Inr (c', db') \<and> store_inv e db' \<and>
    kv_look e db' = kv_look e db \<and> mem_look db' = (mem_look db)(k \<mapsto> v) \<and>
    fc_look (e, flashCache db') = (fc_look (e, flashCache db))(k := None) \<and>
    tcpSend c' = Inr (bulk (length v) (v @ until_nul (env_tail e))) \<and> client_ok c'"
proof -
  from reply_sent [of "bulk (length v) (v @ until_nul (env_tail e))" c] c fits obtain c' where
    "reply (bulk (length v) (v @ until_nul (env_tail e))) c = Inr c'"
    "tcpSend c' = Inr (bulk (length v) (v @ until_nul (env_tail e)))"
    "length (cl_buf c') = length (cl_buf c)"
    by (auto simp: client_ok_def KV_IOBUF_LEN_def)
  with getCommand_flash_effect [OF assms(1-5)] c show ?thesis by (auto simp: client_ok_def)
qed

text \<open>A miss in both levels answers and leaves the flash cache locked.\<close>

lemma getCommand_miss:
  assumes mode: "lru_mode sv" and inv: "store_inv e db"
    and key: "holds key k" and miss: "kv_look e db k = None" and c: "client_ok c"
  shows "\<exists>c'. getCommand sv e key (c, db) =
      Inr (c', db\<lparr>flashCache := (flashCache db)\<lparr>fcache_mutex := True\<rparr>\<rparr>) \<and>
    tcpSend c' = Inr (''$7'' @ [CR, LF] @ ''+Empty!'' @ [CR, LF]) \<and> client_ok c'"
proof -
  from inv have ok: "mem_ok db" "fc_inv (e, flashCache db)" "flash_live db"
    by (simp_all add: store_inv_def)
  have no: "mem_look db k = None" "fc_look (e, flashCache db) k = None"
    using miss by (auto simp: kv_look_def split: option.splits)
  have kk: "until_nul (msg_buf (ptr key)) = k" using key by (simp add: holds_def)
  from reply_sent [of "''$7'' @ [CR, LF] @ ''+Empty!'' @ [CR, LF]" c] client_okD [OF c] obtain c' where
    "reply (''$7'' @ [CR, LF] @ ''+Empty!'' @ [CR, LF]) c = Inr c'"
    "tcpSend c' = Inr (''$7'' @ [CR, LF] @ ''+Empty!'' @ [CR, LF])"
    "length (cl_buf c') = length (cl_buf c)" by auto
  then show ?thesis
    using mode kk fc_Lookup_miss [OF ok(2) no(2)] ok(3) mem_find_absent [OF _ ok(1) key no(1), of sv] c
    by (simp add: getCommand_def flashCacheLookup_def empty_reply_def lru_mode_def
        MODE_MEM_LRU_def MODE_ONLY_FLASH_def client_ok_def)
qed

text \<open>Between eviction and flush a key cannot be read or written.\<close>

lemma limbo_dangling:
  assumes mode: "cache_mode sv = MODE_MEM_LRU" and ok: "mem_ok db" and key: "holds key k"
    and limbo: "lru_limbo k (memLRU db)"
  shows "getCommand sv e key (c, db) = Inl DanglingIterator"
    and "setCommand sv e key ob (c, db) = Inl DanglingIterator"
proof -
  have kk: "until_nul (msg_buf (ptr key)) = k" using key by (simp add: holds_def)
  have "lru_get k (memLRU db) = Inl DanglingIterator"
    using lru_get_limbo [OF mem_okD(1) [OF ok] limbo] .
  then show "getCommand sv e key (c, db) = Inl DanglingIterator"
    "setCommand sv e key ob (c, db) = Inl DanglingIterator"
    using mode kk
    by (simp_all add: getCommand_def setCommand_def mem_find_def cacheAdd_def LRUCacheGet_def
        Let_def MODE_MEM_LRU_def MODE_ONLY_FLASH_def MODE_MEM_FIFO_def)
qed

end
