(* ===== verification/FlashRecovery.thy ===== *)
theory FlashRecovery
  imports FlashIndex
begin

text \<open>
  Recovery: \<open>WriteableCacheFile::Repair\<close> on the bytes of a file written record by record,
  and \<open>FlashCache::Open\<close> on a directory of such files.
\<close>

section \<open>Logs\<close>

definition log_bytes :: "env \<Rightarrow> (byte list \<times> byte list) list \<Rightarrow> byte list" where
  "log_bytes e kvs = concat (map (\<lambda>(k, v). record_bytes (mk_record (env_crc e) k v)) kvs)"

text \<open>The addresses of the records of a log that starts at \<open>off\<close>.\<close>

fun log_index :: "u32 \<Rightarrow> nat \<Rightarrow> (byte list \<times> byte list) list \<Rightarrow> (byte list \<times> LBA) list" where
  "log_index cid off [] = []"
| "log_index cid off ((k, v) # kvs) =
     (k, \<lparr>lba_cache_id = cid, lba_off = word_of_nat off, lba_size = word_of_nat (rec_len k v)\<rparr>) #
     log_index cid (off + rec_len k v) kvs"

lemma log_bytes_simps [simp]:
  "log_bytes e [] = []"
  "log_bytes e ((k, v) # kvs) = record_bytes (mk_record (env_crc e) k v) @ log_bytes e kvs"
  by (simp_all add: log_bytes_def)

lemma rec_len_ge: "16 \<le> rec_len k v"
  by (simp add: rec_len_def sizeof_hdr_def)

lemma length_log_bytes: "length kvs \<le> length (log_bytes e kvs)"
proof (induction kvs)
  case (Cons kv kvs)
  then show ?case using rec_len_ge [of "fst kv" "snd kv"] by (cases kv) simp
qed simp

lemma log_index_stored:
  assumes "\<forall>(k, v) \<in> set kvs. good_entry k v" "length (pre @ log_bytes e kvs) < 2 ^ 32"
    and "map_of (log_index cid (length pre) kvs) k = Some lba"
  shows "lba_cache_id lba = cid \<and>
    (\<exists>v. map_of kvs k = Some v \<and> stored e (pre @ log_bytes e kvs) lba k v)"
  using assms
proof (induction kvs arbitrary: pre)
  case (Cons kv kvs)
  obtain j w where kv: "kv = (j, w)" by fastforce
  let ?r = "record_bytes (mk_record (env_crc e) j w)"
  show ?case
  proof (cases "k = j")
    case True
    have "stored e ((pre @ ?r) @ log_bytes e kvs) lba j w"
      using Cons.prems kv True by (intro stored_append stored_new) (auto simp: good_entry_def)
    then show ?thesis using Cons.prems(3) kv True by auto
  next
    case False
    then show ?thesis using Cons.IH [of "pre @ ?r"] Cons.prems kv by simp
  qed
qed simp

lemma log_index_None: "map_of (log_index cid off kvs) k = None \<longleftrightarrow> map_of kvs k = None"
  by (induction cid off kvs rule: log_index.induct) auto

section \<open>Repair\<close>

text \<open>A \<open>pread\<close> that delivers all it is asked for, as \<open>Repair\<close> takes for granted.\<close>

definition reads_whole :: "env \<Rightarrow> bool" where
  "reads_whole e \<longleftrightarrow> (\<forall>off n. case env_read e off n of RDone k # _ \<Rightarrow> n \<le> k | _ \<Rightarrow> False)"

lemma pread_once_whole: "reads_whole e \<Longrightarrow> pread_once e c off n = take n (drop off c)"
  by (auto simp: reads_whole_def pread_once_def min_def split: list.splits read_reply.splits
      dest: spec [of _ off])
    (metis (no_types, lifting) list.simps(5) order_antisym read_reply.simps(10))

lemma repair_loop_log:
  assumes e: "reads_whole e"
  shows "\<forall>(k, v) \<in> set kvs. good_entry k v \<Longrightarrow> length (pre @ log_bytes e kvs) < 2 ^ 32 \<Longrightarrow>
    filesize f = word_of_nat (length (pre @ log_bytes e kvs)) \<Longrightarrow> length kvs < fuel \<Longrightarrow>
    repair_loop fuel e f (pre @ log_bytes e kvs) (length pre) h =
      Inr (log_index (cf_id f) (length pre) kvs)"
proof (induction kvs arbitrary: pre fuel h)
  case Nil
  then obtain n where "fuel = Suc n" by (cases fuel) auto
  with Nil show ?case by (simp add: unsigned_of_nat take_bit_nat_eq_self)
next
  case (Cons kv kvs)
  obtain k v where kv: "kv = (k, v)" by fastforce
  obtain n where fuel: "fuel = Suc n" using Cons.prems by (cases fuel) auto
  let ?rec = "mk_record (env_crc e) k v"
  let ?c = "pre @ log_bytes e (kv # kvs)"
  have c: "?c = pre @ hdr_bytes (rec_hdr ?rec) @ k @ v @ log_bytes e kvs"
    by (simp add: kv record_bytes_def)
  have fs: "unat (filesize f) = length ?c"
    using Cons.prems(2,3) by (simp add: unsigned_of_nat take_bit_nat_eq_self del: of_nat_add)
  have more: "length pre < length ?c" by (simp add: c)
  have good: "good_entry k v" using Cons.prems(1) kv by simp
  have got: "pread_once e ?c (length pre) sizeof_hdr = hdr_bytes (rec_hdr ?rec)"
    using e by (simp add: pread_once_whole c sizeof_hdr_def)
  have h1: "hdr_of_bytes (hdr_bytes (rec_hdr ?rec) @ drop 16 (hdr_bytes h)) = rec_hdr ?rec"
    using hdr_of_hdr_bytes [of "rec_hdr ?rec" "[]"] by simp
  have ks: "unat (hdr_key_size (rec_hdr ?rec)) = length k"
    using good by (simp add: good_entry_def rec_len_def unsigned_of_nat take_bit_nat_eq_self)
  have key: "pread_once e ?c (length pre + sizeof_hdr) (length k) = k"
    using e by (simp add: pread_once_whole c sizeof_hdr_def)
  have lsz: "hdr_key_size (rec_hdr ?rec) + hdr_val_size (rec_hdr ?rec) + word_of_nat sizeof_hdr =
      word_of_nat (rec_len k v)"
    by (simp add: rec_len_def sizeof_hdr_def)
  have un: "unat (word_of_nat (rec_len k v) :: u32) = rec_len k v"
    using good by (simp add: good_entry_def unsigned_of_nat take_bit_nat_eq_self)
  have pre: "?c = (pre @ record_bytes ?rec) @ log_bytes e kvs" by (simp add: kv)
  have "repair_loop n e f ((pre @ record_bytes ?rec) @ log_bytes e kvs)
      (length (pre @ record_bytes ?rec)) (rec_hdr ?rec) =
      Inr (log_index (cf_id f) (length (pre @ record_bytes ?rec)) kvs)"
    using Cons.prems pre fuel by (intro Cons.IH) auto
  then have IH: "repair_loop n e f ?c (length pre + rec_len k v) (rec_hdr ?rec) =
      Inr (log_index (cf_id f) (length pre + rec_len k v) kvs)"
    unfolding pre by simp
  show ?case
    unfolding fuel repair_loop.simps Let_def got length_hdr_bytes h1 ks key lsz un IH fs
    using more by (simp add: kv)
qed

lemma cf_Repair_log:
  assumes "reads_whole e" "\<forall>(k, v) \<in> set kvs. good_entry k v" "length (log_bytes e kvs) < 2 ^ 32"
    and "filesize f = word_of_nat (length (log_bytes e kvs))"
    and "length (log_bytes e kvs) < fuel"
  shows "cf_Repair fuel e f (log_bytes e kvs) =
    Inr (f\<lparr>key_lists := key_lists f @ map fst kvs\<rparr>, log_index (cf_id f) 0 kvs)"
proof -
  have keys: "map fst (log_index cid off kvs) = map fst kvs" for cid off
    by (induction cid off kvs rule: log_index.induct) auto
  have "length kvs < fuel" using assms(5) length_log_bytes [of kvs e] by linarith
  with repair_loop_log [OF assms(1,2), of "[]" f fuel hdr_init] assms(3,4)
  show ?thesis by (simp add: cf_Repair_def keys)
qed

section \<open>Opening a directory\<close>

text \<open>
  \<open>index_ok S bytes cids recs m\<close>: the index \<open>m\<close> leads every key of the records to its first
  record, in one of the files \<open>cids\<close>; \<open>S\<close> says what it means that a record is found in the bytes of
  a file, \<open>stored\<close> for files of whole records.
\<close>

type_synonym found = "byte list \<Rightarrow> LBA \<Rightarrow> byte list \<Rightarrow> byte list \<Rightarrow> bool"

definition index_ok :: "found \<Rightarrow> (u32 \<Rightarrow> byte list) \<Rightarrow> u32 set \<Rightarrow> (byte list \<times> byte list) list \<Rightarrow>
    (byte list \<Rightarrow> LBA option) \<Rightarrow> bool" where
  "index_ok S bytes cids recs m \<longleftrightarrow> (\<forall>k. case m k of
     None \<Rightarrow> map_of recs k = None
   | Some lba \<Rightarrow> lba_cache_id lba \<in> cids \<and>
       (\<exists>v. map_of recs k = Some v \<and> S (bytes (lba_cache_id lba)) lba k v))"

lemma index_okD:
  assumes "index_ok S bytes cids recs m"
  shows "m k = None \<Longrightarrow> map_of recs k = None"
    and "m k = Some lba \<Longrightarrow> lba_cache_id lba \<in> cids \<and>
      (\<exists>v. map_of recs k = Some v \<and> S (bytes (lba_cache_id lba)) lba k v)"
  using assms [unfolded index_ok_def, THEN spec, of k] by simp_all

text \<open>A file is taken in: its entries win over none of the index so far.\<close>

lemma index_ok_add:
  assumes ok: "index_ok S bytes cids recs m" and new: "index_ok S bytes {cid} recs' m'"
  shows "index_ok S bytes (insert cid cids) (recs @ recs') (m' ++ m)"
  unfolding index_ok_def
proof
  fix k
  show "case (m' ++ m) k of
      None \<Rightarrow> map_of (recs @ recs') k = None
    | Some lba \<Rightarrow> lba_cache_id lba \<in> insert cid cids \<and>
        (\<exists>v. map_of (recs @ recs') k = Some v \<and> S (bytes (lba_cache_id lba)) lba k v)"
  proof (cases "m k")
    case (Some lba)
    then show ?thesis using index_okD(2) [OF ok Some] by auto
  next
    case None
    note old = index_okD(1) [OF ok None]
    show ?thesis
    proof (cases "m' k")
      case none: None
      then show ?thesis using old None index_okD(1) [OF new none] by (simp add: map_add_def)
    next
      case (Some lba)
      from index_okD(2) [OF new Some] old None Some show ?thesis by (auto simp: map_add_def)
    qed
  qed
qed

text \<open>\<open>taken e S cid c recs\<close>: \<open>Repair\<close> gets through a file of the bytes \<open>c\<close> and finds \<open>recs\<close> in it.\<close>

definition taken :: "env \<Rightarrow> found \<Rightarrow> u32 \<Rightarrow> byte list \<Rightarrow> (byte list \<times> byte list) list \<Rightarrow> bool" where
  "taken e S cid c recs \<longleftrightarrow> (\<exists>ks es.
     cf_Repair (length c + 1) e (snd (cf_Open c (cf_new cid 0 0))) c =
       Inr ((snd (cf_Open c (cf_new cid 0 0)))\<lparr>key_lists := ks\<rparr>, es) \<and>
     index_ok S (\<lambda>_. c) {cid} recs (map_of es))"

lemma index_ok_single: "index_ok S bytes {cid} recs m \<longleftrightarrow> index_ok S (\<lambda>_. bytes cid) {cid} recs m"
  by (auto simp: index_ok_def split: option.splits)

lemma taken_log:
  assumes "reads_whole e" and good: "\<forall>(k, v) \<in> set kvs. good_entry k v" and len: "length (log_bytes e kvs) < 2 ^ 32"
  shows "taken e (stored e) cid (log_bytes e kvs) kvs"
proof -
  let ?f = "snd (cf_Open (log_bytes e kvs) (cf_new cid 0 0))"
  have "cf_Repair (length (log_bytes e kvs) + 1) e ?f (log_bytes e kvs) =
      Inr (?f\<lparr>key_lists := map fst kvs\<rparr>, log_index cid 0 kvs)"
    using cf_Repair_log [OF assms, of ?f] by (simp add: cf_Open_def cf_new_def)
  moreover have "index_ok (stored e) (\<lambda>_. log_bytes e kvs) {cid} kvs (map_of (log_index cid 0 kvs))"
    using log_index_stored [OF good, of "[]" e cid] len log_index_None [of cid 0 kvs]
    by (auto simp: index_ok_def split: option.split)
  ultimately show ?thesis unfolding taken_def by blast
qed

text \<open>A file without buffers is read from the disk, in every mode.\<close>

definition at_rest :: "cache_file \<Rightarrow> bool" where
  "at_rest f \<longleftrightarrow> eof f \<and> cf_bufs f = [] \<and> cf_fd f = FdOpen"

text \<open>The state while the directory is walked: \<open>dn\<close> are the files that have been taken in.\<close>

definition open_ok :: "found \<Rightarrow> (u32 \<times> (byte list \<times> byte list) list) list \<Rightarrow> flash_cache \<Rightarrow> bool" where
  "open_ok S dn fc \<longleftrightarrow>
     lru.settled (fc_idx fc) \<and>
     (\<forall>p f. map_of (fc_objs fc) p = Some f \<longrightarrow> p < fc_next fc \<and> buf_doff f = buf_woff f \<and> at_rest f) \<and>
     (\<forall>cid p. lru_value (fc_idx fc) cid = Some p \<longrightarrow> cid \<in> fst ` set dn \<and>
        (\<exists>f. map_of (fc_objs fc) p = Some f \<and> cf_id f = cid \<and> cf_fd f = FdOpen)) \<and>
     (\<forall>cid \<in> fst ` set dn. lru_value (fc_idx fc) cid \<noteq> None \<and> cid < writer_cache_id fc) \<and>
     index_ok S (fc_bytes fc) (fst ` set dn) (concat (map snd dn)) (map_of (block_index (fc_meta fc)))"

lemma open_okD:
  assumes "open_ok S dn fc"
  shows "lru.settled (fc_idx fc)"
    and "\<And>p f. map_of (fc_objs fc) p = Some f \<Longrightarrow> p < fc_next fc \<and> buf_doff f = buf_woff f \<and> at_rest f"
    and "\<And>cid p. lru_value (fc_idx fc) cid = Some p \<Longrightarrow> cid \<in> fst ` set dn \<and>
        (\<exists>f. map_of (fc_objs fc) p = Some f \<and> cf_id f = cid \<and> cf_fd f = FdOpen)"
    and "\<And>cid. cid \<in> fst ` set dn \<Longrightarrow> lru_value (fc_idx fc) cid \<noteq> None \<and> cid < writer_cache_id fc"
    and "index_ok S (fc_bytes fc) (fst ` set dn) (concat (map snd dn)) (map_of (block_index (fc_meta fc)))"
  using assms unfolding open_ok_def by blast+

text \<open>Earlier entries win.\<close>

lemma fold_meta_Insert:
  "map_of (block_index (fold (\<lambda>(k, lba). meta_Insert k lba) es m)) =
     map_of es ++ map_of (block_index m)"
proof (induction es arbitrary: m)
  case (Cons x es)
  then show ?case
    by (cases x) (auto simp: map_of_meta_Insert map_add_def fun_eq_iff split: option.splits)
qed simp

lemma fold_meta_Insert_index [simp]:
  "cache_file_index (fold (\<lambda>(k, lba). meta_Insert k lba) es m) = cache_file_index m"
  by (induction es arbitrary: m) auto

lemma ends_with_rc_name [simp]: "ends_with_rc (cf_name cid)"
  by (simp add: ends_with_rc_def cf_name_def)

lemma cf_name_number: "c_atoi (take (length (cf_name cid) - 3) (cf_name cid)) = cid"
proof -
  have "unat cid < 2 ^ LENGTH(32)" by (rule unsigned_less)
  then have "unat cid < 2 ^ 63" by simp
  then have "c_atoi (dec (unat cid) @ []) = word_of_nat (unat cid)" by (rule c_atoi_dec) simp
  then show ?thesis by (simp add: cf_name_def)
qed

lemma open_ok_add:
  assumes ok: "open_ok S dn fc" and new: "cid \<notin> fst ` set dn"
    and f: "cf_id f = cid" "cf_fd f = FdOpen" "buf_doff f = buf_woff f" "at_rest f"
    and es: "index_ok S (fc_bytes fc) {cid} recs (map_of es)"
    and w: "\<And>c. c < writer_cache_id fc \<Longrightarrow> c < w" "cid < w"
  shows "open_ok S (dn @ [(cid, recs)]) (fc\<lparr>fc_objs := (fc_next fc, f) # fc_objs fc, fc_next := Suc (fc_next fc),
    fc_size := n, fc_meta := meta_Insert_file cid (fc_next fc) (fold (\<lambda>(k, lba). meta_Insert k lba) es (fc_meta fc)),
    writer_cache_id := w\<rparr>)" (is "open_ok S ?dn ?fc")
proof -
  note O = open_okD [OF ok]
  let ?p = "fc_next fc"
  have none: "lru_value (fc_idx fc) cid = None" using O(3) [of cid] new by (cases "lru_value (fc_idx fc) cid") auto
  then have val: "lru_value (fc_idx ?fc) = (lru_value (fc_idx fc))(cid \<mapsto> ?p)"
    and settled: "lru.settled (fc_idx ?fc)"
    using O(1) lru.ins_absent [of "fc_idx fc" cid ?p] by (auto simp: meta_Insert_file_def lru_settled_def)
  have bytes: "fc_bytes ?fc = fc_bytes fc" by (simp add: fc_bytes_def fun_eq_iff)
  have objs: "map_of (fc_objs ?fc) q = (if q = ?p then Some f else map_of (fc_objs fc) q)" for q by simp
  have bi: "map_of (block_index (fc_meta ?fc)) = map_of es ++ map_of (block_index (fc_meta fc))"
    by (simp add: meta_Insert_file_def fold_meta_Insert)
  have entry: "index_ok S (fc_bytes ?fc) (fst ` set ?dn) (concat (map snd ?dn)) (map_of (block_index (fc_meta ?fc)))"
    using index_ok_add [OF O(5)] es unfolding bi bytes by simp
  show ?thesis
    unfolding open_ok_def
  proof (intro conjI allI impI ballI)
    fix q g assume "map_of (fc_objs ?fc) q = Some g"
    then show "q < fc_next ?fc" "buf_doff g = buf_woff g" "at_rest g"
      using O(2) f by (auto simp: less_Suc_eq split: if_splits)
  next
    fix c q assume c: "lru_value (fc_idx ?fc) c = Some q"
    show "c \<in> fst ` set ?dn" using c O(3) [of c q] unfolding val by (auto split: if_splits)
    show "\<exists>g. map_of (fc_objs ?fc) q = Some g \<and> cf_id g = c \<and> cf_fd g = FdOpen"
    proof (cases "c = cid")
      case True
      with c f show ?thesis unfolding val objs by auto
    next
      case False
      with c have "lru_value (fc_idx fc) c = Some q" unfolding val by simp
      with O(3) [OF this] O(2) [of q] show ?thesis unfolding objs by auto
    qed
  next
    fix c assume c: "c \<in> fst ` set ?dn"
    then show "lru_value (fc_idx ?fc) c \<noteq> None" using O(4) [of c] unfolding val by auto
    have "c < writer_cache_id fc" if "c \<noteq> cid" using c that O(4) [of c] by auto
    then show "c < writer_cache_id ?fc" using w(1) [of c] w(2) by (cases "c = cid") simp_all
  qed (use settled entry in auto)
qed

lemma fc_open_entry_taken:
  assumes ok: "open_ok S dn fc" and dir: "map_of (fc_dir fc) (cf_name cid) = Some c"
    and tk: "taken e S cid c recs" and new: "cid \<notin> fst ` set dn"
    and cid: "unat cid < m" "unat (writer_cache_id fc) \<le> m" "m < 2 ^ 32"
  shows "\<exists>fc'. fc_open_entry e (cf_name cid) fc = Inr fc' \<and> open_ok S (dn @ [(cid, recs)]) fc' \<and>
    fc_dir fc' = fc_dir fc \<and> opt_file_size fc' = opt_file_size fc \<and>
    fcache_mutex fc' = fcache_mutex fc \<and> unat (writer_cache_id fc') \<le> m"
proof -
  let ?p = "fc_next fc"
  define f1 where "f1 = snd (cf_Open c (cf_new cid 0 0))"
  from tk obtain ks es where rep: "cf_Repair (length c + 1) e f1 c = Inr (f1\<lparr>key_lists := ks\<rparr>, es)"
    and es: "index_ok S (\<lambda>_. c) {cid} recs (map_of es)" unfolding taken_def f1_def by blast
  define f2 where "f2 = f1\<lparr>key_lists := ks\<rparr>"
  let ?w = "if cid \<ge> writer_cache_id fc then cid + 1 else writer_cache_id fc"
  let ?fc = "fc\<lparr>fc_objs := (?p, f2) # fc_objs fc, fc_next := Suc ?p, fc_size := fc_size fc + scast (filesize f1),
    fc_meta := meta_Insert_file cid ?p (fold (\<lambda>(k, lba). meta_Insert k lba) es (fc_meta fc)), writer_cache_id := ?w\<rparr>"
  have f2: "cf_id f2 = cid" "cf_fd f2 = FdOpen" "buf_doff f2 = buf_woff f2" "at_rest f2"
    by (simp_all add: f2_def f1_def cf_Open_def cf_new_def at_rest_def)
  have inc: "unat (cid + 1) = Suc (unat cid)" using cid by (simp add: unat_word_ariths)
  have w: "c < writer_cache_id fc \<Longrightarrow> c < ?w" "cid < ?w" "unat ?w \<le> m" for c
    using inc cid by (auto simp: word_less_nat_alt word_le_nat_alt)
  have "index_ok S (fc_bytes fc) {cid} recs (map_of es)"
    using es index_ok_single [of S "fc_bytes fc" cid] by (simp add: fc_bytes_def dir)
  from open_ok_add [OF ok new f2 this w(1,2)] have "open_ok S (dn @ [(cid, recs)]) ?fc" .
  moreover have "fc_open_entry e (cf_name cid) fc = Inr ?fc"
    using rep unfolding fc_open_entry_def cf_name_number Let_def by (simp add: dir f1_def f2_def)
  ultimately show ?thesis using w(3) by auto
qed

text \<open>
  \<open>rc_entries con dir files\<close>: the entries of the directory that end in \<open>.rc\<close> are those of the
  files, with the content \<open>con\<close>; \<open>rc_files\<close> when the content is the whole log.
\<close>

definition rc_entries :: "(u32 \<Rightarrow> (byte list \<times> byte list) list \<Rightarrow> byte list) \<Rightarrow> (byte list \<times> byte list) list \<Rightarrow>
    (u32 \<times> (byte list \<times> byte list) list) list \<Rightarrow> bool" where
  "rc_entries con dir files \<longleftrightarrow>
     filter (\<lambda>x. ends_with_rc (fst x)) dir = map (\<lambda>(cid, kvs). (cf_name cid, con cid kvs)) files"

definition rc_files :: "env \<Rightarrow> (byte list \<times> byte list) list \<Rightarrow> (u32 \<times> (byte list \<times> byte list) list) list \<Rightarrow> bool" where
  "rc_files e dir files \<longleftrightarrow>
     filter (\<lambda>x. ends_with_rc (fst x)) dir = map (\<lambda>(cid, kvs). (cf_name cid, log_bytes e kvs)) files"

lemma rc_files_entries: "rc_files e = rc_entries (\<lambda>_. log_bytes e)"
  by (simp add: rc_files_def rc_entries_def fun_eq_iff)

lemma fc_open_entries_taken:
  assumes m: "m < 2 ^ 32"
  shows "rc_entries con dir files \<Longrightarrow> distinct (map fst (dn @ files)) \<Longrightarrow> open_ok S dn fc \<Longrightarrow>
    \<forall>(n, c) \<in> set dir. map_of (fc_dir fc) n = Some c \<Longrightarrow>
    \<forall>(cid, recs) \<in> set files. unat cid < m \<and> taken e S cid (con cid recs) recs \<Longrightarrow>
    unat (writer_cache_id fc) \<le> m \<Longrightarrow>
    \<exists>fc'. fc_open_entries e (map fst dir) fc = Inr fc' \<and> open_ok S (dn @ files) fc' \<and>
      fc_dir fc' = fc_dir fc \<and> opt_file_size fc' = opt_file_size fc \<and>
      fcache_mutex fc' = fcache_mutex fc \<and> unat (writer_cache_id fc') \<le> m"
proof (induction dir arbitrary: dn files fc)
  case Nil
  then show ?case by (simp add: rc_entries_def)
next
  case (Cons x dir)
  obtain n c where x: "x = (n, c)" by fastforce
  show ?case
  proof (cases "ends_with_rc n")
    case False
    then have "fc_open_entry e n fc = Inr fc" by (simp add: fc_open_entry_def)
    with Cons.IH [of files dn fc] Cons.prems False show ?thesis by (simp add: x rc_entries_def)
  next
    case True
    with Cons.prems(1) obtain cid recs fs where fs: "files = (cid, recs) # fs" "n = cf_name cid"
      "c = con cid recs" "rc_entries con dir fs"
      by (cases files) (auto simp: rc_entries_def x)
    have "map_of (fc_dir fc) (cf_name cid) = Some (con cid recs)"
      using Cons.prems(4) fs x by auto
    with fc_open_entry_taken [OF Cons.prems(3) this, of e recs m] Cons.prems(2,5,6) fs m obtain fc1 where
      1: "fc_open_entry e n fc = Inr fc1" "open_ok S (dn @ [(cid, recs)]) fc1"
      "fc_dir fc1 = fc_dir fc" "opt_file_size fc1 = opt_file_size fc"
      "fcache_mutex fc1 = fcache_mutex fc" "unat (writer_cache_id fc1) \<le> m" by auto
    have "distinct (map fst ((dn @ [(cid, recs)]) @ fs))" using Cons.prems(2) fs by simp
    from Cons.IH [OF fs(4) this 1(2)] 1 Cons.prems(4,5) fs x show ?thesis by auto
  qed
qed

lemma map_of_in_filter:
  "map_of xs n = Some c \<Longrightarrow> P n \<Longrightarrow> (n, c) \<in> set (filter (\<lambda>x. P (fst x)) xs)"
  by (auto dest: map_of_SomeD)

text \<open>Once all files are taken in, the cache lacks only a file to write to.\<close>

lemma open_ok_files:
  assumes ok: "open_ok S files fc" and rc: "rc_entries con (fc_dir fc) files"
  shows "files_ok fc"
proof -
  note O = open_okD [OF ok]
  have beyond: "map_of (fc_dir fc) (cf_name cid) = None" if "writer_cache_id fc \<le> cid" for cid
  proof (rule ccontr)
    assume "map_of (fc_dir fc) (cf_name cid) \<noteq> None"
    then obtain c where "map_of (fc_dir fc) (cf_name cid) = Some c" by blast
    then have "(cf_name cid, c) \<in> set (filter (\<lambda>x. ends_with_rc (fst x)) (fc_dir fc))"
      by (rule map_of_in_filter) simp
    then have "(cf_name cid, c) \<in> set (map (\<lambda>(cid, kvs). (cf_name cid, con cid kvs)) files)"
      using rc by (simp only: rc_entries_def)
    then have "cid \<in> fst ` set files" by (auto intro: rev_image_eqI)
    from O(4) [OF this] that show False using leD by blast
  qed
  show ?thesis
    unfolding files_ok_def
  proof (intro conjI allI impI)
    fix cid p assume c: "lru_value (fc_idx fc) cid = Some p"
    from O(3) [OF c] show "\<exists>f. map_of (fc_objs fc) p = Some f \<and> cf_id f = cid \<and> cf_fd f = FdOpen"
      by blast
    from O(3) [OF c] O(4) [of cid] show "cid < writer_cache_id fc" by blast
  qed (use O(2) beyond in auto)
qed

lemma open_ok_base:
  assumes e: "env_ok e" and ok: "open_ok (stored e) files fc" and rc: "rc_entries con (fc_dir fc) files"
    and sz: "unat (opt_file_size fc) \<le> 2 ^ 31"
  shows "fc_base e fc"
proof -
  note O = open_okD [OF ok]
  have "lru_value (fc_idx fc) (lba_cache_id lba) \<noteq> None \<and>
      (\<exists>v. stored e (fc_bytes fc (lba_cache_id lba)) lba k v)"
    if "map_of (block_index (fc_meta fc)) k = Some lba" for k lba
    using index_okD(2) [OF O(5) that] O(4) by blast
  then show ?thesis using e O(1,2) sz open_ok_files [OF ok rc] unfolding fc_base_def by blast
qed

text \<open>The walk over the directory.\<close>

lemma fc_open_dir:
  assumes m: "m < 2 ^ 32" and dir: "distinct (map fst dir)" "rc_entries con dir files" "distinct (map fst files)"
    and files: "\<forall>(cid, recs) \<in> set files. unat cid < m \<and> taken e S cid (con cid recs) recs"
    and fc0: "fc0 = fc_construct cache_size file_size wbs gs gf dir"
  obtains fc1 where "fc_open_entries e (map fst dir) fc0 = Inr fc1" "open_ok S files fc1"
    "fc_dir fc1 = dir" "opt_file_size fc1 = file_size" "\<not> fcache_mutex fc1" "unat (writer_cache_id fc1) \<le> m"
proof -
  have c: "fc_dir fc0 = dir" "writer_cache_id fc0 = 0" "opt_file_size fc0 = file_size" "\<not> fcache_mutex fc0"
    by (simp_all add: fc0 fc_construct_def)
  have "open_ok S [] fc0" by (simp add: open_ok_def index_ok_def fc0 fc_construct_def meta_new_def)
  moreover have "\<forall>(n, c) \<in> set dir. map_of (fc_dir fc0) n = Some c" using dir(1) by (auto simp: c)
  ultimately show ?thesis
    using that fc_open_entries_taken [OF m dir(2), of "[]" S fc0 e] dir(3) files c by auto
qed

lemma fc_Open_logs:
  assumes e: "env_ok e" "reads_whole e" and m: "m + Suc n < 2 ^ 32"
    and dir: "distinct (map fst dir)" "rc_files e dir files" "distinct (map fst files)"
    and files: "\<forall>(cid, kvs) \<in> set files. unat cid < m \<and> length (log_bytes e kvs) < 2 ^ 32 \<and>
      (\<forall>(k, v) \<in> set kvs. good_entry k v)"
    and sz: "unat file_size \<le> 2 ^ 31"
  shows "\<exists>fc. fc_Open e (fc_construct cache_size file_size wbs gs gf dir) = Inr (0, fc) \<and>
    fc_inv (e, fc) \<and> fc_room fc n \<and> fc_look (e, fc) = map_of (concat (map snd files)) \<and>
    (\<forall>cid. fc_bytes fc cid = (case map_of dir (cf_name cid) of None \<Rightarrow> [] | Some c \<Rightarrow> c)) \<and>
    distinct (map fst (fc_dir fc)) \<and> (\<forall>cid \<in> fst ` set files. cid < writer_cache_id fc) \<and>
    (\<forall>n. map_of (fc_dir fc) n \<noteq> None \<longrightarrow>
      map_of dir n \<noteq> None \<or> (\<exists>cid < writer_cache_id fc. n = cf_name cid))"
proof -
  define fc0 where "fc0 = fc_construct cache_size file_size wbs gs gf dir"
  have "\<forall>(cid, kvs) \<in> set files. unat cid < m \<and> taken e (stored e) cid (log_bytes e kvs) kvs"
    using files taken_log [OF e(2)] by fastforce
  then obtain fc1 where 1: "fc_open_entries e (map fst dir) fc0 = Inr fc1" "open_ok (stored e) files fc1"
    "fc_dir fc1 = dir" "opt_file_size fc1 = file_size" "\<not> fcache_mutex fc1" "unat (writer_cache_id fc1) \<le> m"
    using fc_open_dir [OF _ dir(1) dir(2) [unfolded rc_files_entries] dir(3) _ fc0_def, of m e "stored e"] m by auto
  note O = open_okD [OF 1(2)]
  have base: "fc_base e fc1"
    using open_ok_base [OF e(1) 1(2)] 1(3,4) dir(2) sz by (simp add: rc_files_entries)
  have "fc_room fc1 (Suc n)" using 1(6) m by (simp add: fc_room_def)
  from fc_NewCacheFile_wf [OF base this] obtain fc2 where 2: "fc_NewCacheFile fc1 = Inr (0, fc2)"
    "fc_wf e fc2" "fc_grows fc1 fc2" "fc_room fc2 n"
    "block_index (fc_meta fc2) = block_index (fc_meta fc1)"
    "fcache_mutex fc2 = fcache_mutex fc1" "fc_bytes fc2 = fc_bytes fc1" "dir_step fc1 fc2"
    by (elim exE conjE) (rule that; assumption)
  have "fc_bytes fc2 cid = (case map_of dir (cf_name cid) of None \<Rightarrow> [] | Some c \<Rightarrow> c)" for cid
    by (simp only: 2(7) fc_bytes_def 1(3))
  moreover have "\<forall>cid \<in> fst ` set files. cid < writer_cache_id fc2"
  proof
    fix cid assume "cid \<in> fst ` set files"
    then have "cid < writer_cache_id fc1" using O(4) by blast
    also have "\<dots> \<le> writer_cache_id fc2" using 2(8) by (simp add: dir_step_def)
    finally show "cid < writer_cache_id fc2" .
  qed
  moreover have "distinct (map fst (fc_dir fc2))" "\<forall>n. map_of (fc_dir fc2) n \<noteq> None \<longrightarrow>
      map_of dir n \<noteq> None \<or> (\<exists>cid < writer_cache_id fc2. n = cf_name cid)"
    using 2(8) dir(1) 1(3) unfolding dir_step_def by simp_all
  moreover have "fc_look (e, fc2) k = map_of (concat (map snd files)) k" for k
  proof (cases "map_of (block_index (fc_meta fc1)) k")
    case None
    then show ?thesis using index_okD(1) [OF O(5) None] fc_look_eq(1) [OF 2(2), of k] 2(5) by simp
  next
    case (Some lba)
    from index_okD(2) [OF O(5) Some] O(4) obtain v where v: "map_of (concat (map snd files)) k = Some v"
      "stored e (fc_bytes fc1 (lba_cache_id lba)) lba k v"
      "lru_value (fc_idx fc1) (lba_cache_id lba) \<noteq> None" by blast
    with fc_grows_stored [OF 2(3) v(3,2)] Some fc_look_eq(2) [OF 2(2), of k lba v] 2(5)
    show ?thesis by simp
  qed
  moreover have "fc_Open e fc0 = Inr (0, fc2)" using 1(1) 2(1) by (simp add: fc_Open_def fc0_def fc_construct_def)
  ultimately show ?thesis
    using 2(2,4,6) 1(5) unfolding fc0_def by (intro exI [of _ fc2] conjI) (auto simp: fc_inv_def)
qed

section \<open>Surviving a restart\<close>

text \<open>
  \<open>disk_ok e fc L\<close>: \<open>L\<close> is what has been written to each file, and there are no other files.
\<close>

definition disk_ok :: "env \<Rightarrow> flash_cache \<Rightarrow> (u32 \<Rightarrow> (byte list \<times> byte list) list) \<Rightarrow> bool" where
  "disk_ok e fc L \<longleftrightarrow> distinct (map fst (fc_dir fc)) \<and>
     (\<forall>n. map_of (fc_dir fc) n \<noteq> None \<longrightarrow> (\<exists>cid < writer_cache_id fc. n = cf_name cid)) \<and>
     (\<forall>cid. fc_bytes fc cid = log_bytes e (L cid) \<and> length (log_bytes e (L cid)) < 2 ^ 32 \<and>
        (\<forall>(k, v) \<in> set (L cid). good_entry k v))"

lemma log_bytes_append: "log_bytes e (kvs @ kvs') = log_bytes e kvs @ log_bytes e kvs'"
  by (simp add: log_bytes_def)

text \<open>An insertion adds its record to one log.\<close>

lemma disk_ok_appended:
  assumes disk: "disk_ok e fc L" and app: "appended e k v fc fc'" and good: "good_entry k v"
  shows "\<exists>cid. disk_ok e fc' (L(cid := L cid @ [(k, v)]))"
proof -
  let ?r = "record_bytes (mk_record (env_crc e) k v)"
  from app obtain cid where cid: "length (fc_bytes fc' cid) < 2 ^ 32"
    "fc_bytes fc' = (fc_bytes fc)(cid := fc_bytes fc cid @ ?r)" by (auto simp: appended_def)
  have st: "dir_step fc fc'" using app by (simp add: appended_def)
  have names: "\<exists>c < writer_cache_id fc'. n = cf_name c" if "map_of (fc_dir fc') n \<noteq> None" for n
  proof -
    from that st consider "map_of (fc_dir fc) n \<noteq> None" | "\<exists>c < writer_cache_id fc'. n = cf_name c"
      unfolding dir_step_def by blast
    then show ?thesis
    proof cases
      case 1
      then obtain c where "c < writer_cache_id fc" "n = cf_name c"
        using disk unfolding disk_ok_def by blast
      then show ?thesis using st order_less_le_trans unfolding dir_step_def by blast
    qed
  qed
  have logs: "fc_bytes fc' c = log_bytes e ((L(cid := L cid @ [(k, v)])) c)" for c
    using disk by (simp add: cid(2) disk_ok_def log_bytes_append)
  have "length (log_bytes e ((L(cid := L cid @ [(k, v)])) c)) < 2 ^ 32" for c
  proof (cases "c = cid")
    case True
    then show ?thesis using cid(1) logs [of cid] by simp
  next
    case False
    then show ?thesis using disk by (simp add: disk_ok_def)
  qed
  moreover have "\<forall>(j, w) \<in> set ((L(cid := L cid @ [(k, v)])) c). good_entry j w" for c
    using disk good by (auto simp: disk_ok_def)
  moreover have "distinct (map fst (fc_dir fc'))" using st disk by (simp add: dir_step_def disk_ok_def)
  ultimately show ?thesis
    unfolding disk_ok_def using names logs by (intro exI [of _ cid]) blast
qed

lemma put_all_disk:
  assumes "distinct (map fst kvs)" "\<forall>(k, v) \<in> set kvs. good_entry k v"
  shows "fc_inv s \<Longrightarrow> fc_room (snd s) (length kvs + m) \<Longrightarrow> disk_ok (fst s) (snd s) L \<Longrightarrow>
    \<exists>s' L'. put_all flash_put kvs s = Inr s' \<and> fc_inv s' \<and> fst s' = fst s \<and>
      disk_ok (fst s') (snd s') L' \<and>
      (\<Union>cid. set (L' cid)) = (\<Union>cid. set (L cid)) \<union> set kvs \<and> fc_room (snd s') m"
  using assms
proof (induction kvs arbitrary: s L)
  case Nil
  then show ?case by auto
next
  case (Cons kv kvs)
  obtain k v where kv: "kv = (k, v)" by fastforce
  obtain e fc where s: "s = (e, fc)" by fastforce
  have good: "good_entry k v" using Cons.prems(5) kv by simp
  from fc_Insert_wf [of e fc k v "length kvs + m"] Cons.prems good s kv obtain fc1 where 1:
    "fc_Insert False e k v fc = Inr (0, fc1)" "fc_inv (e, fc1)" "fc_room fc1 (length kvs + m)"
    "appended e k v fc fc1" by auto
  from disk_ok_appended [OF _ 1(4) good] Cons.prems(3) s obtain cid where
    cid: "disk_ok e fc1 (L(cid := L cid @ [(k, v)]))" by auto
  obtain L1 where L1: "disk_ok e fc1 L1" "(\<Union>c. set (L1 c)) = (\<Union>c. set (L c)) \<union> {(k, v)}"
  proof
    show "disk_ok e fc1 (L(cid := L cid @ [(k, v)]))" by (rule cid)
  qed (auto split: if_splits)
  have "\<exists>s' L'. put_all flash_put kvs (e, fc1) = Inr s' \<and> fc_inv s' \<and> fst s' = fst (e, fc1) \<and>
      disk_ok (fst s') (snd s') L' \<and>
      (\<Union>cid. set (L' cid)) = (\<Union>cid. set (L1 cid)) \<union> set kvs \<and> fc_room (snd s') m"
    using 1(2,3) L1(1) Cons.prems by (intro Cons.IH) auto
  moreover have "flash_put k v s = Inr (e, fc1)" using 1(1) by (simp add: s flash_put_def)
  ultimately show ?case unfolding L1(2) by (auto simp: s kv)
qed

lemma disk_ok_files:
  assumes disk: "disk_ok e fc L" and dir: "map_of dir = map_of (fc_dir fc)" "distinct (map fst dir)"
  obtains files where "rc_files e dir files" "distinct (map fst files)"
    "\<forall>(cid, kvs) \<in> set files. unat cid < unat (writer_cache_id fc) \<and> length (log_bytes e kvs) < 2 ^ 32 \<and>
      (\<forall>(k, v) \<in> set kvs. good_entry k v)"
    "\<And>n. map_of dir n \<noteq> None \<Longrightarrow> \<exists>cid \<in> fst ` set files. n = cf_name cid"
    "set (concat (map snd files)) = (\<Union>cid. set (L cid))"
proof -
  define num where "num n = c_atoi (take (length n - 3) n)" for n :: "byte list"
  have num: "num (cf_name cid) = cid" for cid using cf_name_number by (simp add: num_def)
  define files where "files = map (\<lambda>(n, c). (num n, L (num n))) dir"
  have entry: "\<exists>cid < writer_cache_id fc. n = cf_name cid \<and> c = log_bytes e (L cid)"
    if "(n, c) \<in> set dir" for n c
  proof -
    have m: "map_of (fc_dir fc) n = Some c" using that dir by (metis map_of_eq_Some_iff)
    then have "map_of (fc_dir fc) n \<noteq> None" by simp
    with disk obtain cid where cid: "cid < writer_cache_id fc" "n = cf_name cid"
      unfolding disk_ok_def by blast
    with m have "fc_bytes fc cid = c" by (simp add: fc_bytes_def)
    with m cid disk show ?thesis by (auto simp: disk_ok_def)
  qed
  then have entry2: "cf_name (num n) = n \<and> log_bytes e (L (num n)) = c \<and> ends_with_rc n"
    if "(n, c) \<in> set dir" for n c
    using that num by fastforce
  show ?thesis
  proof
    have "filter (\<lambda>x. ends_with_rc (fst x)) dir = dir" using entry2 by (auto simp: filter_id_conv)
    moreover have "map (\<lambda>(cid, kvs). (cf_name cid, log_bytes e kvs)) files = dir"
      using entry2 by (auto simp: files_def intro!: map_idI)
    ultimately show "rc_files e dir files" by (simp add: rc_files_def)
    have "inj_on num (fst ` set dir)" by (rule inj_on_inverseI [of _ cf_name]) (use entry2 in auto)
    then show "distinct (map fst files)"
      using dir(2) by (auto simp: files_def distinct_map comp_def case_prod_beta inj_on_def)
    show "\<forall>(cid, kvs) \<in> set files. unat cid < unat (writer_cache_id fc) \<and>
        length (log_bytes e kvs) < 2 ^ 32 \<and> (\<forall>(k, v) \<in> set kvs. good_entry k v)"
      using entry num disk by (fastforce simp: files_def disk_ok_def word_less_nat_alt)
    show "\<exists>cid \<in> fst ` set files. n = cf_name cid" if "map_of dir n \<noteq> None" for n
    proof -
      from that obtain c where c: "(n, c) \<in> set dir" by (auto dest: map_of_SomeD)
      then have "num n \<in> fst ` set files" by (force simp: files_def)
      with entry2 [OF c] show ?thesis by (intro bexI [of _ "num n"]) simp_all
    qed
    show "set (concat (map snd files)) = (\<Union>cid. set (L cid))"
    proof (intro equalityI subsetI)
      fix x assume "x \<in> (\<Union>cid. set (L cid))"
      then obtain cid where cid: "x \<in> set (L cid)" by blast
      then have "0 < length (log_bytes e (L cid))"
        using length_pos_if_in_set [of x "L cid"] length_log_bytes [of "L cid" e] by linarith
      then have "fc_bytes fc cid \<noteq> []" using disk by (auto simp: disk_ok_def)
      then obtain c where "map_of dir (cf_name cid) = Some c"
        by (auto simp: fc_bytes_def dir(1) split: option.splits)
      then have "(cf_name cid, c) \<in> set dir" by (rule map_of_SomeD)
      then have "L cid \<in> snd ` set files" using num [of cid] by (force simp: files_def)
      with cid show "x \<in> set (concat (map snd files))" by force
    qed (auto simp: files_def)
  qed
qed

text \<open>
  The directory is read again, in any order. A key comes back with the value it was written
  with, when all its records agree; a key that was never written does not appear.
\<close>

lemma restart_look:
  assumes e: "env_ok e" "reads_whole e" and disk: "disk_ok e fc L"
    and room: "unat (writer_cache_id fc) + Suc n < 2 ^ 32" and sz: "unat file_size \<le> 2 ^ 31"
    and dir: "map_of dir = map_of (fc_dir fc)" "distinct (map fst dir)"
  shows "\<exists>fc'. fc_Open e (fc_construct cache_size file_size wbs gs gf dir) = Inr (0, fc') \<and>
    fc_inv (e, fc') \<and> fc_room fc' n \<and> disk_ok e fc' L \<and>
    (\<forall>k. (\<exists>v. (k, v) \<in> (\<Union>cid. set (L cid))) \<longleftrightarrow> fc_look (e, fc') k \<noteq> None) \<and>
    (\<forall>k v. fc_look (e, fc') k = Some v \<longrightarrow> (k, v) \<in> (\<Union>cid. set (L cid)))"
proof -
  from disk_ok_files [OF disk dir] obtain files where files: "rc_files e dir files" "distinct (map fst files)"
    "\<forall>(cid, kvs) \<in> set files. unat cid < unat (writer_cache_id fc) \<and> length (log_bytes e kvs) < 2 ^ 32 \<and>
      (\<forall>(k, v) \<in> set kvs. good_entry k v)"
    and names: "\<And>n. map_of dir n \<noteq> None \<Longrightarrow> \<exists>cid \<in> fst ` set files. n = cf_name cid"
    and recs: "set (concat (map snd files)) = (\<Union>cid. set (L cid))" by blast
  from fc_Open_logs [OF e room dir(2) files sz, where cache_size = cache_size and wbs = wbs
      and gs = gs and gf = gf] obtain fc' where fc':
    "fc_Open e (fc_construct cache_size file_size wbs gs gf dir) = Inr (0, fc')"
    "fc_inv (e, fc')" "fc_room fc' n" "fc_look (e, fc') = map_of (concat (map snd files))"
    "\<forall>cid. fc_bytes fc' cid = (case map_of dir (cf_name cid) of None \<Rightarrow> [] | Some c \<Rightarrow> c)"
    "distinct (map fst (fc_dir fc'))" "\<forall>cid \<in> fst ` set files. cid < writer_cache_id fc'"
    "\<forall>n. map_of (fc_dir fc') n \<noteq> None \<longrightarrow>
      map_of dir n \<noteq> None \<or> (\<exists>cid < writer_cache_id fc'. n = cf_name cid)"
    by (elim exE conjE) (rule that; assumption)
  have "\<exists>cid < writer_cache_id fc'. n = cf_name cid" if "map_of dir n \<noteq> None" for n
    using names [OF that] fc'(7) by blast
  moreover have "fc_bytes fc' cid = log_bytes e (L cid)" for cid
    using fc'(5) disk dir(1) by (simp add: disk_ok_def fc_bytes_def)
  ultimately have "disk_ok e fc' L" using disk fc'(6,8) unfolding disk_ok_def by blast
  with recs show ?thesis
    using fc'(1-4) by (intro exI [of _ fc'])
      (auto simp: map_of_eq_None_iff dest: map_of_SomeD; force simp: image_iff)
qed

text \<open>The first start, with an empty directory.\<close>

lemma fc_Open_empty:
  assumes "env_ok e" and "unat file_size \<le> 2 ^ 31" and "Suc n < 2 ^ 32"
  shows "\<exists>fc. fc_Open e (fc_construct cache_size file_size wbs gs gf []) = Inr (0, fc) \<and>
    fc_inv (e, fc) \<and> fc_room fc n \<and> disk_ok e fc (\<lambda>_. []) \<and> fc_look (e, fc) = Map.empty"
proof -
  define fc0 where "fc0 = fc_construct cache_size file_size wbs gs gf []"
  have fc0: "fc_objs fc0 = []" "fc_dir fc0 = []" "writer_cache_id fc0 = 0"
    "opt_file_size fc0 = file_size" "fc_idx fc0 = lru_new" "block_index (fc_meta fc0) = []"
    "\<not> fcache_mutex fc0" by (simp_all add: fc0_def fc_construct_def meta_new_def)
  have empty: "fc_bytes fc0 cid = []" for cid by (simp add: fc_bytes_def fc0)
  have base: "fc_base e fc0"
    unfolding fc_base_def files_ok_def by (simp add: fc0 assms(1,2) del: power_numeral)
  have "fc_room fc0 (Suc n)" using assms(3) by (simp add: fc_room_def fc0)
  from fc_NewCacheFile_wf [OF base this] obtain fc where fc: "fc_NewCacheFile fc0 = Inr (0, fc)"
    "fc_wf e fc" "fc_room fc n" "block_index (fc_meta fc) = block_index (fc_meta fc0)"
    "fcache_mutex fc = fcache_mutex fc0" "fc_bytes fc = fc_bytes fc0" "dir_step fc0 fc"
    by (elim exE conjE) (rule that; assumption)
  have "disk_ok e fc (\<lambda>_. [])"
    using fc(6,7) by (simp add: disk_ok_def dir_step_def fc0 empty)
  moreover have "fc_look (e, fc) k = None" for k
    using fc_look_eq(1) [OF fc(2), of k] fc(4) by (simp add: fc0)
  moreover have "fc_Open e fc0 = Inr (0, fc)" by (simp add: fc_Open_def fc0 fc(1))
  moreover have "fc_inv (e, fc)" using fc(2,5) fc0(7) by (simp add: fc_inv_def)
  ultimately show ?thesis using fc(3) unfolding fc0_def by blast
qed

section \<open>Properties\<close>

text \<open>
  What was inserted survives a restart. A flash cache opened on an empty directory and
  given entries with distinct keys, then a new process that reads the directory again, in
  whatever order \<open>readdir\<close> lists it: \<open>Open\<close> succeeds, every invariant holds again, and exactly
  the inserted entries are found.
\<close>

lemma durable_restart:
  assumes e: "env_ok e" "reads_whole e" and sz: "unat file_size \<le> 2 ^ 31"
    and kvs: "distinct (map fst kvs)" "\<forall>(k, v) \<in> set kvs. good_entry k v"
    and room: "length kvs + 3 < 2 ^ 32"
  shows "\<exists>fc1 fc2. fc_Open e (fc_construct cache_size file_size wbs gs gf []) = Inr (0, fc1) \<and>
    put_all flash_put kvs (e, fc1) = Inr (e, fc2) \<and>
    (\<forall>dir. distinct (map fst dir) \<and> map_of dir = map_of (fc_dir fc2) \<longrightarrow>
      (\<exists>fc3. fc_Open e (fc_construct cache_size file_size wbs gs' gf' dir) = Inr (0, fc3) \<and>
        fc_inv (e, fc3) \<and> fc_look (e, fc3) = map_of kvs))"
proof -
  have "Suc (length kvs + 1) < 2 ^ 32" using room by linarith
  from fc_Open_empty [OF e(1) sz this] obtain fc1 where 1:
    "fc_Open e (fc_construct cache_size file_size wbs gs gf []) = Inr (0, fc1)" "fc_inv (e, fc1)"
    "fc_room fc1 (length kvs + 1)" "disk_ok e fc1 (\<lambda>_. [])" by blast
  from put_all_disk [OF kvs, of "(e, fc1)" 1 "\<lambda>_. []"] 1(2-4) obtain fc2 L where 2:
    "put_all flash_put kvs (e, fc1) = Inr (e, fc2)" "fc_inv (e, fc2)" "disk_ok e fc2 L"
    "(\<Union>cid. set (L cid)) = set kvs" "fc_room fc2 1" by auto
  have "unat (writer_cache_id fc2) + Suc 0 < 2 ^ 32" using 2(5) by (simp add: fc_room_def)
  note again = restart_look [OF e 2(3) this sz]
  have "\<exists>fc3. fc_Open e (fc_construct cache_size file_size wbs gs' gf' dir) = Inr (0, fc3) \<and>
      fc_inv (e, fc3) \<and> fc_look (e, fc3) = map_of kvs"
    if dir: "distinct (map fst dir)" "map_of dir = map_of (fc_dir fc2)" for dir
  proof -
    from again [OF dir(2,1), unfolded 2(4)] obtain fc3 where 3:
      "fc_Open e (fc_construct cache_size file_size wbs gs' gf' dir) = Inr (0, fc3)" "fc_inv (e, fc3)"
      "\<forall>k. (\<exists>v. (k, v) \<in> set kvs) \<longleftrightarrow> fc_look (e, fc3) k \<noteq> None"
      "\<forall>k v. fc_look (e, fc3) k = Some v \<longrightarrow> (k, v) \<in> set kvs" by blast
    have "fc_look (e, fc3) k = map_of kvs k" for k
    proof (cases "fc_look (e, fc3) k")
      case None
      then have "\<nexists>v. (k, v) \<in> set kvs" using 3(3) by simp
      then have "map_of kvs k = None" by (force simp: map_of_eq_None_iff)
      with None show ?thesis by simp
    next
      case (Some v)
      then have "(k, v) \<in> set kvs" using 3(4) by blast
      with kvs(1) Some show ?thesis by simp
    qed
    with 3 show ?thesis by blast
  qed
  with 1(1) 2(1) show ?thesis by blast
qed

lemma reads_whole_sample [simp]: "reads_whole sample_env"
  by (simp add: reads_whole_def sample_env_def)

lemma good_entry_sample [simp]:
  "good_entry ''a'' ''one''" "good_entry ''b'' ''two''" "good_entry ''a'' ''three''"
  by (simp_all add: good_entry_def rec_len_def sizeof_hdr_def)

text \<open>
  C21: the index keeps the first insertion. A series of insertions into a flash cache in direct
  mode never fails while file numbers last, rolls over to new files as the current one fills
  up, keeps the invariant, and adds to what was found before the first value of each new key; a
  later value of the same key is written to disk and never found.
\<close>

theorem flash_first_insert_wins:
  assumes "fc_inv s" "\<forall>(k, v) \<in> set kvs. good_entry k v" "fc_room (snd s) (length kvs)"
  shows "\<exists>s'. put_all flash_put kvs s = Inr s' \<and> fc_inv s' \<and> fc_look s' = map_of kvs ++ fc_look s"
  using assms by (rule flash.put_all_look)

theorem flash_first_insert_wins_witness:
  "\<exists>fc s. fc_Open sample_env (fc_construct 0 20 0 0 0 []) = Inr (0, fc) \<and>
    put_all flash_put [(''a'', ''one''), (''b'', ''two''), (''a'', ''three'')] (sample_env, fc) = Inr s \<and>
    fc_look s = [''a'' \<mapsto> ''one'', ''b'' \<mapsto> ''two'']"
proof -
  let ?kvs = "[(''a'', ''one''), (''b'', ''two''), (''a'', ''three'')]"
  obtain fc where 1: "fc_Open sample_env (fc_construct 0 20 0 0 0 []) = Inr (0, fc)"
    "fc_inv (sample_env, fc)" "fc_room fc 3" "fc_look (sample_env, fc) = Map.empty"
    using fc_Open_empty [of sample_env 20 3 0 0 0 0] by auto
  have "\<forall>(k, v) \<in> set ?kvs. good_entry k v" "fc_room (snd (sample_env, fc)) (length ?kvs)"
    using 1(3) by (simp_all add: eval_nat_numeral)
  from flash_first_insert_wins [OF 1(2) this] 1(4) obtain s where
    s: "put_all flash_put ?kvs (sample_env, fc) = Inr s" "fc_look s = map_of ?kvs" by auto
  have "map_of ?kvs = [''a'' \<mapsto> ''one'', ''b'' \<mapsto> ''two'']" by auto
  with 1(1) s show ?thesis by metis
qed

text \<open>
  Replacing a value takes \<open>DeleteMetaData\<close> first: after it, an insertion under the same
  key succeeds, the new value is found, and no other key is affected.
\<close>

lemma flash_delete_then_insert:
  assumes "fc_inv s" "good_entry k w" "fc_room (snd s) (Suc n)"
  shows "\<exists>s'. flash_put k w (flash_del k s) = Inr s' \<and> fc_inv s' \<and> fc_room (snd s') n \<and>
    fc_look s' = (fc_look s)(k \<mapsto> w)"
  using assms by (rule flash.del_put)

text \<open>
  An insertion followed by a lookup of the key, both in direct mode: the insertion is
  acknowledged, and the lookup returns the bytes of the value, the older one when the key was
  present, leaves what is found for every key as it is and releases the lock.
\<close>

lemma flash_insert_then_lookup:
  assumes inv: "fc_inv (e, fc)" and good: "good_entry k v" and room: "fc_room fc (Suc n)"
  shows "\<exists>fc1 fc2. fc_Insert False e k v fc = Inr (0, fc1) \<and>
    fc_Lookup False e k fc1 =
      Inr (Some (case fc_look (e, fc) k of None \<Rightarrow> v | Some w \<Rightarrow> w), fc2) \<and>
    fc_inv (e, fc2) \<and> fc_look (e, fc2) = fc_look (e, fc1) \<and> fc_room fc2 n"
proof -
  from fc_Insert_wf [OF inv good room] obtain fc1 where 1: "fc_Insert False e k v fc = Inr (0, fc1)"
    "fc_inv (e, fc1)" "fc_room fc1 n" "fc_look (e, fc1) =
      (if fc_look (e, fc) k = None then (fc_look (e, fc))(k \<mapsto> v) else fc_look (e, fc))" by blast
  have "fc_look (e, fc1) k = Some (case fc_look (e, fc) k of None \<Rightarrow> v | Some w \<Rightarrow> w)"
    by (simp add: 1(4) split: option.split)
  from fc_Lookup_hit [OF 1(2) this] 1(1,3) show ?thesis by blast
qed

end
