(* ===== verification/Server.thy ===== *)
theory Server
  imports Store FlashRecovery
begin

text \<open>
  The server (\<open>server.c\<close>): start, shutdown on a signal, the search for a free port
  (\<open>tcpConnect\<close> of \<open>net.c\<close>), and the runs of the store in the mode of the shipped
  configuration as a step relation between its threads.
\<close>

section \<open>Listening\<close>

text \<open>
  \<open>tcpConnect\<close>: \<open>bind\<close> is tried on one port after the other, without a bound; \<open>htons\<close> takes
  16 bits of the number. The number is an \<open>int\<close>, so \<open>++port\<close> past the largest one is an
  overflow.
\<close>

definition INT_MAX :: int where
  "INT_MAX = 2 ^ 31 - 1"

function tcp_bind :: "(u16 \<Rightarrow> bool) \<Rightarrow> int \<Rightarrow> int res" where
  "tcp_bind bind_ok port =
     (if bind_ok (word_of_int port) then Inr port
      else if INT_MAX \<le> port then Inl IntOverflow
      else tcp_bind bind_ok (port + 1))"
  by pat_completeness auto

termination
  by (relation "measure (\<lambda>(ok, port). nat (INT_MAX - port))") auto

declare tcp_bind.simps [simp del]

text \<open>
  The function: \<open>fd\<close> is what \<open>socket\<close> answers, -1 for a failure. The result is the
  descriptor, and beside it the number the socket is bound to, which the kernel keeps.
\<close>

definition tcpConnect :: "int \<Rightarrow> (u16 \<Rightarrow> bool) \<Rightarrow> bool \<Rightarrow> int \<Rightarrow> (int \<times> int) res" where
  "tcpConnect fd bind_ok listen_ok port =
     (if fd = - 1 then Inl ProcessExit
      else
        bnd (tcp_bind bind_ok port) (\<lambda>bound.
          if listen_ok then Inr (fd, bound) else Inl ProcessExit))"

lemma tcp_bind_first:
  "port + int n \<le> INT_MAX \<Longrightarrow> bind_ok (word_of_int (port + int n)) \<Longrightarrow>
   (\<forall>i < n. \<not> bind_ok (word_of_int (port + int i))) \<Longrightarrow> tcp_bind bind_ok port = Inr (port + int n)"
proof (induction n arbitrary: port)
  case 0
  then show ?case by (subst tcp_bind.simps) simp
next
  case (Suc n)
  have "\<not> bind_ok (word_of_int port)" using Suc.prems(3) by (auto dest: spec [of _ 0])
  moreover have "\<forall>i < n. \<not> bind_ok (word_of_int (port + 1 + int i))"
    using Suc.prems(3) by (auto dest: spec [of _ "Suc _"] simp: algebra_simps)
  then have "tcp_bind bind_ok (port + 1) = Inr (port + 1 + int n)"
    using Suc.prems(1,2) by (intro Suc.IH) (simp_all add: algebra_simps)
  ultimately show ?case using Suc.prems(1) by (subst tcp_bind.simps) (simp add: algebra_simps)
qed

text \<open>Some port of the 16 bits that can be bound is enough.\<close>

lemma tcp_bind_port:
  assumes "bind_ok p" "port \<le> INT_MAX - 2 ^ 16 + 1"
  shows "\<exists>n < 2 ^ 16. tcp_bind bind_ok port = Inr (port + int n) \<and>
    bind_ok (word_of_int (port + int n)) \<and> (\<forall>i < n. \<not> bind_ok (word_of_int (port + int i)))"
proof -
  let ?ok = "\<lambda>n. bind_ok (word_of_int (port + int n))"
  let ?n = "nat ((uint p - port) mod 2 ^ 16)"
  have "int ?n = (uint p - port) mod 2 ^ 16" by simp
  then have "(port + int ?n) mod 2 ^ 16 = uint p mod 2 ^ 16" by (simp add: mod_simps)
  then have "(word_of_int (port + int ?n) :: u16) = word_of_int (uint p)"
    unfolding word_of_int_eq_iff take_bit_eq_mod by simp
  then have ok: "?ok ?n" using assms(1) by simp
  define n where "n = (LEAST n. ?ok n)"
  have n: "?ok n" "\<forall>i < n. \<not> ?ok i"
    using LeastI [of ?ok, OF ok] not_less_Least unfolding n_def by blast+
  have "n \<le> ?n" unfolding n_def by (rule Least_le [of ?ok, OF ok])
  moreover have "?n < 2 ^ 16" by (simp add: nat_less_iff)
  ultimately have l: "n < 2 ^ 16" by simp
  then have "int n < int (2 ^ 16)" by (simp only: of_nat_less_iff)
  with assms(2) have "port + int n \<le> INT_MAX" by simp
  from tcp_bind_first [OF this n] n l show ?thesis by blast
qed

text \<open>When no port can be bound, the number runs past the largest \<open>int\<close>.\<close>

lemma tcp_bind_none:
  assumes "\<forall>p. \<not> bind_ok p"
  shows "tcp_bind bind_ok port = Inl IntOverflow"
proof (induction "nat (INT_MAX - port)" arbitrary: port rule: less_induct)
  case less
  show ?case
  proof (cases "INT_MAX \<le> port")
    case False
    then have "tcp_bind bind_ok (port + 1) = Inl IntOverflow" by (intro less) simp
    then show ?thesis using assms by (subst tcp_bind.simps) simp
  qed (use assms in \<open>subst tcp_bind.simps, simp\<close>)
qed

section \<open>Start\<close>

definition sizeof_kvDb :: nat where
  "sizeof_kvDb = 48"

definition sizeof_hash :: nat where
  "sizeof_hash = 80"

text \<open>
  \<open>initServer\<close> after the port is open. \<open>dir\<close> is the directory of the flash cache, \<open>gsize\<close>
  and \<open>gfile\<close> what uninitialised members of its object hold. \<open>chcalloc\<close> does not count its
  header.
\<close>

definition empty_table :: kvht where
  "empty_table = \<lparr>table = [], ht_size = 0, sizemask = 0, used = 0\<rparr>"

definition initServer :: "kvServer \<Rightarrow> env \<Rightarrow> u64 \<Rightarrow> nat \<Rightarrow> (byte list \<times> byte list) list \<Rightarrow> kvDb res" where
  "initServer sv e gsize gfile dir =
     (let um1 = charge sizeof_kvDb (sv_used sv);
          fifo = (cache_mode sv = MODE_MEM_FIFO);
          um2 = (if fifo then charge sizeof_hash um1 + 800 else um1)
      in
      bnd (flashCacheCreate sv e gsize gfile dir) (\<lambda>fc.
        Inr \<lparr>memCache = (if fifo then memCache_init else empty_table), memLRU = LRUCacheCreate,
             memList = ListCreate, memQueue = QueueCreate, db_ents = [], db_next = 0,
             flashCache = fc, flash_live = True, db_used = um2, sem_bworker = 0\<rparr>))"

lemma initServer_store:
  assumes e: "env_ok e" "reads_whole e" and mode: "lru_mode sv" and conf: "flashCache_dir sv \<noteq> None"
    and m: "m + Suc n < 2 ^ 32" and dir: "distinct (map fst dir)" "rc_files e dir files" "distinct (map fst files)"
    and files: "\<forall>(cid, kvs) \<in> set files. unat cid < m \<and> length (log_bytes e kvs) < 2 ^ 32 \<and>
      (\<forall>(k, v) \<in> set kvs. good_entry k v)"
    and sz: "unat (flashCache_file_size sv) \<le> 2 ^ 31"
  shows "\<exists>db. initServer sv e gsize gfile dir = Inr db \<and> store_inv e db \<and>
    fc_room (flashCache db) n \<and> kv_look e db = map_of (concat (map snd files))"
proof -
  from fc_Open_logs [OF e m dir files sz] obtain fc where fc:
    "fc_Open e (fc_construct (flashCache_size sv) (flashCache_file_size sv)
       (ucast (flashCache_writebuffer_size sv)) gsize gfile dir) = Inr (0, fc)"
    "fc_inv (e, fc)" "fc_room fc n" "fc_look (e, fc) = map_of (concat (map snd files))" by blast
  have "\<not> cache_mode sv = MODE_MEM_FIFO"
    using mode by (simp add: lru_mode_def MODE_MEM_LRU_def MODE_MEM_FIFO_def)
  then show ?thesis
    using fc conf
    by (auto simp: initServer_def flashCacheCreate_def Let_def store_inv_def mem_ok_def queue_ok_def
        LRUCacheCreate_def QueueCreate_def lru_inv_new kv_look_def mem_look_def fun_eq_iff)
qed

section \<open>A server for the examples\<close>

text \<open>The shipped configuration, on an empty directory.\<close>

definition sample_sv :: kvServer where
  "sample_sv = server_zero\<lparr>sv_port := 19501, maxmemory := 40960, flashCache_dir := Some ''flash_db'',
     flashCache_writebuffer_size := 4096, flashCache_file_size := 10240,
     cache_mode := MODE_MEM_LRU, verbosity := LOG_DEBUG, sv_used := 13\<rparr>"

definition sample_flash :: flash_cache where
  "sample_flash = \<lparr>fc_objs = [(0, (cf_new 0 10240 4096)\<lparr>cf_fd := FdOpen, tid := Running, sem_writer := 0\<rparr>)],
     fc_next = 1, fc_dir = [(cf_name 0, [])], fc_size = 0, writer_cache_id = 1, fc_cur = 0,
     fc_meta = \<lparr>cache_file_index = lru_insert 0 0 lru_new, block_index = []\<rparr>, fcache_mutex = False,
     opt_cache_size = 0, opt_file_size = 10240, opt_wbs = 4096\<rparr>"

definition sample_db :: kvDb where
  "sample_db = \<lparr>memCache = empty_table, memLRU = lru_new, memList = [], memQueue = [], db_ents = [],
     db_next = 0, flashCache = sample_flash, flash_live = True, db_used = 65, sem_bworker = 0\<rparr>"


lemma sample_flash_Open: "fc_Open e (fc_construct 0 10240 4096 0 0 []) = Inr (0, sample_flash)"
  by (simp add: fc_Open_def fc_construct_def fc_NewCacheFile_def cf_Create_def cf_new_def Let_def sample_flash_def
    meta_Insert_file_def meta_new_def)


lemma sample_start: "initServer sample_sv e 0 0 [] = Inr sample_db"
  using sample_flash_Open [of e]
  by (simp add: initServer_def sample_sv_def server_zero_def MODE_MEM_LRU_def MODE_MEM_FIFO_def
    flashCacheCreate_def sample_db_def LRUCacheCreate_def ListCreate_def QueueCreate_def charge_def sizeof_kvDb_def Let_def)


lemma sample_modes [simp]: "lru_mode sample_sv" "wbmode sample_sv = False" "cache_mode sample_sv = MODE_MEM_LRU"
  by (simp_all add: lru_mode_def wbmode_def sample_sv_def server_zero_def MODE_MEM_LRU_def MODE_FLASH_WRITEBUFFER_def)
lemma sample_inv:
  "store_inv sample_env sample_db" "fc_room (flashCache sample_db) 100"
  "kv_look sample_env sample_db = Map.empty"
proof -
  have "flashCache_dir sample_sv \<noteq> None" "unat (flashCache_file_size sample_sv) \<le> 2 ^ 31"
    by (simp_all add: sample_sv_def)
  then have "\<exists>db. initServer sample_sv sample_env 0 0 [] = Inr db \<and> store_inv sample_env db \<and>
      fc_room (flashCache db) 100 \<and> kv_look sample_env db = map_of (concat (map snd ([] :: (u32 \<times> (byte list \<times> byte list) list) list)))"
    by (intro initServer_store [where m = 0]) (simp_all add: rc_files_def)
  then show "store_inv sample_env sample_db" "fc_room (flashCache sample_db) 100"
    "kv_look sample_env sample_db = Map.empty" by (simp_all add: sample_start)
qed

text \<open>
  The same server on a directory with one file, which holds one record, and a file of another
  program.
\<close>

definition sample_dir :: "(byte list \<times> byte list) list" where
  "sample_dir = [(''notes.txt'', ''x''), (cf_name 3, log_bytes sample_env [(''a'', ''one'')])]"

lemma sample_dir_files:
  "rc_files sample_env sample_dir [(3, [(''a'', ''one'')])]" "distinct (map fst sample_dir)"
proof -
  have n: "\<not> ends_with_rc ''notes.txt''" by (simp add: ends_with_rc_def)
  then show "rc_files sample_env sample_dir [(3, [(''a'', ''one'')])]"
    by (simp add: rc_files_def sample_dir_def)
  have "cf_name 3 \<noteq> ''notes.txt''" using n ends_with_rc_name [of 3] by metis
  then show "distinct (map fst sample_dir)" by (auto simp: sample_dir_def)
qed

lemma sample_log: "length (log_bytes sample_env [(''a'', ''one'')]) = 20"
  by (simp add: rec_len_def sizeof_hdr_def)

lemma sample_restart:
  "\<exists>db. initServer sample_sv sample_env 0 0 sample_dir = Inr db \<and> store_inv sample_env db \<and>
    fc_room (flashCache db) 100 \<and> kv_look sample_env db = [''a'' \<mapsto> ''one'']"
proof -
  have "flashCache_dir sample_sv \<noteq> None" "unat (flashCache_file_size sample_sv) \<le> 2 ^ 31"
    by (simp_all add: sample_sv_def)
  then have "\<exists>db. initServer sample_sv sample_env 0 0 sample_dir = Inr db \<and> store_inv sample_env db \<and>
      fc_room (flashCache db) 100 \<and> kv_look sample_env db = map_of (concat (map snd [(3::u32, [(''a'', ''one'')])]))"
    using sample_dir_files by (intro initServer_store [where m = 4]) (simp_all add: sample_log del: log_bytes_simps)
  then show ?thesis by simp
qed

section \<open>Signals\<close>

definition SIGINT :: int where "SIGINT = 2"
definition SIGTERM :: int where "SIGTERM = 15"

text \<open>
  \<open>setupSignalHandlers\<close>: whether the two calls of \<open>signal\<close> succeed; the result of the second
  is not stored.
\<close>

definition setupSignalHandlers :: "bool \<Rightarrow> bool \<Rightarrow> int" where
  "setupSignalHandlers term_ok int_ok = (if \<not> term_ok then 1 else 0)"

text \<open>
  \<open>sigShutdownHandler\<close> in steps, for the tiering thread runs beside it: it reads the size of the
  memory cache (the start of \<open>evictAllCommand\<close>), hands over one entry in each turn of its loop,
  each with a post of the semaphore the tiering thread waits for, then looks at the memory cache
  until that is empty, destroys the flash cache and ends the process. Any other signal does
  nothing.
\<close>

datatype sig_pc = SigEntry | SigEvict nat | SigDestroy | SigExit | SigReturn

fun sigShutdownHandler :: "kvServer \<Rightarrow> env \<Rightarrow> int \<Rightarrow> sig_pc \<Rightarrow> kvDb \<Rightarrow> (sig_pc \<times> kvDb) res" where
  "sigShutdownHandler sv e sig SigEntry db =
     (if sig = SIGINT then bnd (pool_size sv db) (\<lambda>n. Inr (SigEvict (nat n), db)) else Inr (SigReturn, db))"
| "sigShutdownHandler sv e sig (SigEvict (Suc n)) db =
     bnd (evict_to_queue sv db) (\<lambda>db. Inr (SigEvict n, db))"
| "sigShutdownHandler sv e sig (SigEvict 0) db =
     Inr (if evict_done sv db then SigDestroy else SigEvict 0, db)"
| "sigShutdownHandler sv e sig SigDestroy db =
     bnd (flashCacheDestroy sv e db) (\<lambda>db. Inr (SigExit, db))"
| "sigShutdownHandler sv e sig SigExit db = Inl ProcessExit"
| "sigShutdownHandler sv e sig SigReturn db = Inr (SigReturn, db)"

text \<open>
  The handler of \<open>SIGINT\<close> and the tiering thread, in any order; \<open>r\<close> counts the rounds of the
  thread. A round is one step, as is a turn of the handler. No client sends a command meanwhile.
\<close>

inductive sig_run :: "kvServer \<Rightarrow> env \<Rightarrow> kvDb \<Rightarrow> nat \<Rightarrow> sig_pc \<Rightarrow> kvDb \<Rightarrow> bool" for sv e db0 where
  start: "sig_run sv e db0 0 SigEntry db0"
| handler: "sig_run sv e db0 r pc db \<Longrightarrow> sigShutdownHandler sv e SIGINT pc db = Inr (pc', db') \<Longrightarrow>
    sig_run sv e db0 r pc' db'"
| tier: "sig_run sv e db0 r pc db \<Longrightarrow> pc \<noteq> SigExit \<Longrightarrow> bworker_flush sv e db = Inr db' \<Longrightarrow>
    sig_run sv e db0 (Suc r) pc db'"

section \<open>Runs\<close>

text \<open>
  The steps of the store: the unlocked check before a \<open>set\<close>, the two commands under
  \<open>bworker_mutex\<close>, a round of the tiering thread. A step that faults or blocks is no step.
  Flash files are numbered with 32 bits; a run in which the numbers do not run out is
  assumed (\<open>fc_room\<close>).
\<close>

datatype store_event = EvCheck | EvSet "byte list" "byte list" | EvGet "byte list" "byte list" | EvFlush

inductive store_step :: "kvServer \<Rightarrow> env \<Rightarrow> store_event \<Rightarrow> kvDb \<Rightarrow> kvDb \<Rightarrow> bool" for sv e where
  check: "memUsedCheck sv db = Inr (busy, db') \<Longrightarrow> store_step sv e EvCheck db db'"
| set: "client_ok c \<Longrightarrow> holds key k \<Longrightarrow> good_entry k v \<Longrightarrow>
    setCommand sv e key (arg_object v) (c, db) = Inr (c', db') \<Longrightarrow> store_step sv e (EvSet k v) db db'"
| get: "client_ok c \<Longrightarrow> holds key k \<Longrightarrow> getCommand sv e key (c, db) = Inr (c', db') \<Longrightarrow>
    tcpSend c' = Inr out \<Longrightarrow> store_step sv e (EvGet k out) db db'"
| flush: "fc_room (flashCache db) (Suc n) \<Longrightarrow> bworker_flush sv e db = Inr db' \<Longrightarrow>
    store_step sv e EvFlush db db'"

inductive store_reach :: "kvServer \<Rightarrow> env \<Rightarrow> kvDb \<Rightarrow> store_event list \<Rightarrow> kvDb \<Rightarrow> bool" for sv e db0 where
  start: "store_reach sv e db0 [] db0"
| step: "store_reach sv e db0 evs db \<Longrightarrow> store_step sv e ev db db' \<Longrightarrow> store_reach sv e db0 (evs @ [ev]) db'"

inductive_cases store_stepE: "store_step sv e ev db db'"

lemma pool_size_lru:
  assumes "cache_mode sv = MODE_MEM_LRU"
  shows "pool_size sv db = Inr (LRUCacheSize (memLRU db))"
    and "0 < LRUCacheSize (memLRU db) \<Longrightarrow> lru_order (memLRU db) \<noteq> []"
  using assms
  by (simp_all add: pool_size_def MODE_MEM_LRU_def MODE_MEM_FIFO_def LRUCacheSize_def lru_size_def
      lru_order_def int_of_size_def split: if_splits) (cases "m_list (memLRU db)"; simp)

lemma memUsedCheck_memory:
  assumes m: "cache_mode sv = MODE_MEM_LRU" and ok: "mem_ok db" "queue_ok db"
    and run: "memUsedCheck sv db = Inr (busy, db')"
  shows "mem_ok db' \<and> queue_ok db' \<and> mem_look db' = mem_look db \<and>
    flashCache db' = flashCache db \<and> flash_live db' = flash_live db \<and> db_used db' = db_used db \<and>
    (db' = db \<or> lru_order (memLRU db') = butlast (lru_order (memLRU db)))"
proof -
  consider "db' = db" | "evict_to_queue sv db = Inr db'" "lru_order (memLRU db) \<noteq> []"
  proof (cases "over_90 (mem_used db) (maxmemory sv) \<and> 0 < LRUCacheSize (memLRU db)")
    case True
    then have "evict_to_queue sv db = Inr db'"
      using run pool_size_lru(1) [OF m] by (simp add: memUsedCheck_def bnd_eq_Inr)
    with that(2) pool_size_lru(2) [OF m] True show ?thesis by blast
  next
    case False
    then have "db' = db"
      using run pool_size_lru(1) [OF m] unfolding memUsedCheck_def by (simp only: bnd_simps if_False) simp
    with that(1) show ?thesis .
  qed
  then show ?thesis
  proof cases
    case 1
    then show ?thesis using ok by simp
  next
    case 2
    from evict_to_queue_lru [OF m ok 2(2)] 2(1) show ?thesis by auto
  qed
qed

lemma memUsedCheck_lru:
  assumes mode: "lru_mode sv" and wf: "store_wf e db" and run: "memUsedCheck sv db = Inr (busy, db')"
  shows "store_wf e db' \<and> kv_look e db' = kv_look e db \<and> mem_look db' = mem_look db \<and>
    flashCache db' = flashCache db \<and> db_used db' = db_used db \<and>
    (db' = db \<or> lru_order (memLRU db') = butlast (lru_order (memLRU db)))"
proof -
  have ok: "mem_ok db" "queue_ok db" using wf by (simp_all add: store_wf_def)
  from memUsedCheck_memory [OF lru_modeD [OF mode] ok run] show ?thesis
    using wf kv_look_cong [of db' db e] by (simp add: store_wf_def)
qed

lemma get_blocked:
  assumes "lru_mode sv" "mem_ok db" "holds key k" "mem_look db k = None"
    and "fcache_mutex (flashCache db)" "flash_live db"
  shows "getCommand sv e key (c, db) = Inl Blocked"
  using assms mem_find_absent [OF lru_modeD [OF assms(1)] assms(2-4)]
  by (simp add: getCommand_def flashCacheLookup_def fc_locked_blocks lru_mode_def
      MODE_MEM_LRU_def MODE_ONLY_FLASH_def)

lemma flush_blocked:
  assumes "mem_ok db" "queue_ok db" "flash_live db" "fcache_mutex (flashCache db)"
  shows "bworker_flush sv e db = Inl Blocked"
proof (cases "memQueue db")
  case Nil
  then show ?thesis using assms(2) by (simp add: bworker_flush_def queue_ok_def)
next
  case (Cons p q)
  with assms(2) obtain k where "lru_value (memLRU db) k = Some p" by (auto simp: queue_ok_def)
  from mem_okD(3) [OF assms(1) this] obtain en where "map_of (db_ents db) p = Some en" by blast
  then show ?thesis
    using assms Cons by (simp add: bworker_flush_def queue_ok_def QueueDequeue_def db_ent_def
        flashCacheInsert_def fc_locked_blocks)
qed

text \<open>
  What a step that returns tells of the state before it: a \<open>set\<close> was not of a key on its way
  to flash, a \<open>get\<close> found its key in memory, or found the lock of the flash cache free, and a
  flush found an entry in the queue and the lock free.
\<close>

lemma set_ready:
  assumes mode: "lru_mode sv" and wf: "store_wf e db" and key: "holds key k"
    and run: "setCommand sv e key (arg_object v) (c, db) = Inr (c', db')"
  shows "\<not> lru_limbo k (memLRU db)"
  using limbo_dangling(2) [OF lru_modeD [OF mode] _ key] run wf by (fastforce simp: store_wf_def)

lemma get_cases:
  assumes mode: "lru_mode sv" and wf: "store_wf e db" and key: "holds key k"
    and run: "getCommand sv e key (c, db) = Inr (c', db')"
  obtains (mem) v where "mem_look db k = Some v" "\<not> lru_limbo k (memLRU db)"
    | (flash) v where "mem_look db k = None" "store_inv e db" "fc_look (e, flashCache db) k = Some v"
    | (miss) "mem_look db k = None" "store_inv e db" "kv_look e db k = None"
proof (cases "mem_look db k")
  case (Some v)
  have "\<not> lru_limbo k (memLRU db)"
    using limbo_dangling(1) [OF lru_modeD [OF mode] _ key] wf run by (fastforce simp: store_wf_def)
  with Some mem show ?thesis by blast
next
  case None
  have "\<not> fcache_mutex (flashCache db)"
    using get_blocked [OF mode _ key None] wf run by (fastforce simp: store_wf_def)
  then have inv: "store_inv e db" using wf by (simp add: store_inv_wf)
  show ?thesis
    using None inv flash miss by (cases "fc_look (e, flashCache db) k") (simp_all add: kv_look_def)
qed

lemma flush_ready:
  assumes wf: "store_wf e db" and run: "bworker_flush sv e db = Inr db'"
  obtains p q where "store_inv e db" "memQueue db = p # q"
proof -
  have ok: "mem_ok db" "queue_ok db" "flash_live db" using wf by (simp_all add: store_wf_def)
  have "\<not> fcache_mutex (flashCache db)" using flush_blocked [OF ok] run by fastforce
  then have "store_inv e db" using wf by (simp add: store_inv_wf)
  moreover have "memQueue db \<noteq> []"
    using ok(2) run by (auto simp: bworker_flush_def queue_ok_def)
  ultimately show ?thesis using that by (cases "memQueue db") auto
qed

lemma store_step_wf:
  assumes mode: "lru_mode sv"
  shows "store_step sv e ev db db' \<Longrightarrow> store_wf e db \<Longrightarrow> store_wf e db'"
proof (induction rule: store_step.induct)
  case (check db busy db')
  then show ?case using memUsedCheck_lru [OF mode] by blast
next
  case (set c key k v db c' db')
  have "holds (arg_object v) v" "kv_where (arg_object v) = KV_LOC_MEM"
    using set(3) by (simp_all add: good_entry_def holds_arg) (simp add: arg_object_def)
  then show ?case
    using setCommand_lru [OF mode set(5,1,2) _ set(3) _ set_ready [OF mode set(5,2,4)], of "arg_object v"] set(4)
    by auto
next
  case (get c key k db c' db' out)
  from mode get(5,2,3) show ?case
  proof (cases rule: get_cases)
    case (mem v)
    from getCommand_mem_effect [OF mode get(5,2) mem] get(3) show ?thesis by (auto simp: bnd_eq_Inr)
  next
    case (flash v)
    from getCommand_flash_effect [OF mode flash(2) get(2) flash(1,3)] get(3) show ?thesis
      by (auto simp: bnd_eq_Inr store_inv_wf)
  next
    case miss
    from getCommand_miss [OF mode miss(2) get(2) miss(3) get(1)] get(3,5) show ?thesis
      by (auto simp: store_wf_def mem_ok_def queue_ok_def)
  qed
next
  case (flush db n db')
  obtain p q where q: "store_inv e db" "memQueue db = p # q" by (rule flush_ready [OF flush(3,2)])
  from bworker_flush_lru [OF mode q flush(1)] flush(2) show ?case by (auto simp: store_inv_wf)
qed

text \<open>
  C6: the invariant of the two-level store, in the mode of the shipped configuration: the recency
  list, the entries and the queue agree about where every key is, the flash cache is well
  formed, and every location of its index leads to the bytes of a record of that key. Every
  sequence of the unlocked check, \<open>set\<close>, \<open>get\<close> and rounds of the tiering thread keeps it,
  in whatever order they come.
\<close>

theorem store_reach_wf:
  assumes "lru_mode sv"
  shows "store_reach sv e db0 evs db \<Longrightarrow> store_wf e db0 \<Longrightarrow> store_wf e db"
  by (induction rule: store_reach.induct) (auto intro: store_step_wf [OF assms])

section \<open>A lost update\<close>

text \<open>
  Overwriting a key that flash holds, then evicting it: the tiering thread hands the new
  value to an index that keeps the old one, and drops the entry.
\<close>

text \<open>
  C14: an update is lost. Let flash hold a value of a key and memory be empty. A \<open>set\<close> of the
  key is answered and found, also while the entry waits in the queue; when the tiering thread
  has moved it, the old value is found again: the index of the flash cache keeps what it has,
  and the entry with the new value is freed.
\<close>

theorem update_lost:
  assumes mode: "lru_mode sv" and inv: "store_inv e db" and c: "client_ok c"
    and idle: "lru_order (memLRU db) = []" "memQueue db = []"
    and room: "fc_room (flashCache db) (Suc n)"
    and key: "holds key k" and good: "good_entry k v"
    and old: "fc_look (e, flashCache db) k = Some w"
  shows "\<exists>c' db1 db2 db3. setCommand sv e key (arg_object v) (c, db) = Inr (c', db1) \<and>
    kv_look e db1 k = Some v \<and> evict_to_queue sv db1 = Inr db2 \<and> kv_look e db2 k = Some v \<and>
    bworker_flush sv e db2 = Inr db3 \<and> kv_look e db3 k = Some w"
proof -
  have m: "cache_mode sv = MODE_MEM_LRU" using mode by (simp add: lru_mode_def)
  have wf: "store_wf e db" using inv by (simp add: store_inv_wf)
  have none: "lru_value (memLRU db) j = None" for j
  proof (rule ccontr)
    assume "lru_value (memLRU db) j \<noteq> None"
    then obtain p where "lru_value (memLRU db) j = Some p" by blast
    then have "p \<in> set (memQueue db)" using inv idle(1) by (auto simp: store_inv_def queue_ok_def)
    then show False by (simp add: idle)
  qed
  have ob: "holds (arg_object v) v" "kv_where (arg_object v) = KV_LOC_MEM"
    using good by (simp_all add: good_entry_def holds_arg) (simp add: arg_object_def)
  have "\<not> lru_limbo k (memLRU db)" by (simp add: lru_limbo_def none)
  from setCommand_lru [OF mode wf c key ob(1) good ob(2) this] obtain c' db1 where 1:
    "setCommand sv e key (arg_object v) (c, db) = Inr (c', db1)" "store_wf e db1"
    "kv_look e db1 = (kv_look e db)(k \<mapsto> v)" "flashCache db1 = flashCache db"
    "mem_look db1 = (mem_look db)(k \<mapsto> v)"
    "lru_order (memLRU db1) = k # remove1 k (lru_order (memLRU db))" by blast
  have ord: "lru_order (memLRU db1) = [k]" using 1(6) idle(1) by simp
  have ok1: "mem_ok db1" "queue_ok db1" using 1(2) by (simp_all add: store_wf_def)
  from evict_to_queue_lru [OF m ok1] ord obtain db2 p where 2: "evict_to_queue sv db1 = Inr db2"
    "mem_ok db2" "queue_ok db2" "flashCache db2 = flashCache db1" "flash_live db2 = flash_live db1"
    "mem_look db2 = mem_look db1" "lru_order (memLRU db2) = []" "memQueue db2 = memQueue db1 @ [p]"
    by auto
  have inv2: "store_inv e db2" using inv 1(4) 2 1(2) by (simp add: store_inv_def store_wf_def)
  have "memQueue db1 = []"
  proof (rule ccontr)
    assume "memQueue db1 \<noteq> []"
    then obtain r where "r \<in> set (memQueue db1)" by (cases "memQueue db1") auto
    then obtain j where j: "lru_value (memLRU db1) j = Some r" "j \<notin> set (lru_order (memLRU db1))"
      using ok1(2) by (auto simp: queue_ok_def)
    then have "mem_look db1 j \<noteq> None" "j \<noteq> k" using mem_look_None [OF ok1(1), of j] ord by auto
    then have "mem_look db j \<noteq> None" by (simp add: 1(5))
    then show False using none by (simp add: mem_look_def)
  qed
  with 2(8) have q: "memQueue db2 = p # []" by simp
  have "fc_room (flashCache db2) (Suc n)" using room 2(4) 1(4) by simp
  from bworker_flush_lru [OF mode inv2 q this] obtain db3 j u where 3:
    "bworker_flush sv e db2 = Inr db3" "mem_look db2 j = Some u" "mem_look db3 = (mem_look db2)(j := None)"
    "fc_look (e, flashCache db3) = (if fc_look (e, flashCache db2) j = None
      then (fc_look (e, flashCache db2))(j \<mapsto> u) else fc_look (e, flashCache db2))" by blast
  have "j = k" using 3(2) none by (auto simp: 2(6) 1(5) mem_look_def split: if_splits)
  then have "kv_look e db3 k = Some w"
    using 3 old by (simp add: kv_look_def 2(4) 1(4))
  moreover have "kv_look e db2 k = Some v" by (simp add: kv_look_def 2(6) 1(5))
  ultimately show ?thesis using 1(1,3) 2(1) 3(1) by (metis fun_upd_same)
qed

section \<open>Shutdown\<close>

text \<open>
  On \<open>SIGINT\<close> every entry is queued; the wait that follows looks at the memory cache, not at
  the queue, and the flash cache is destroyed with the queue as it is.
\<close>

lemma evict_n_lru:
  assumes mode: "cache_mode sv = MODE_MEM_LRU"
  shows "mem_ok db \<Longrightarrow> queue_ok db \<Longrightarrow> n \<le> length (lru_order (memLRU db)) \<Longrightarrow>
    \<exists>db'. evict_n sv n db = Inr db' \<and> mem_ok db' \<and> queue_ok db' \<and>
      flashCache db' = flashCache db \<and> flash_live db' = flash_live db \<and> mem_look db' = mem_look db \<and>
      length (lru_order (memLRU db')) = length (lru_order (memLRU db)) - n \<and>
      length (memQueue db') = length (memQueue db) + n"
proof (induction n arbitrary: db)
  case (Suc n)
  then have "lru_order (memLRU db) \<noteq> []" by auto
  from evict_to_queue_lru [OF mode Suc.prems(1,2) this] obtain db1 p where 1:
    "evict_to_queue sv db = Inr db1" "mem_ok db1" "queue_ok db1" "flashCache db1 = flashCache db"
    "flash_live db1 = flash_live db" "mem_look db1 = mem_look db"
    "lru_order (memLRU db1) = butlast (lru_order (memLRU db))" "memQueue db1 = memQueue db @ [p]" by blast
  from Suc.IH [OF 1(2,3)] 1 Suc.prems(3) show ?case by auto
qed auto

lemma LRUCacheSize_order:
  assumes "mem_ok db" "length (lru_order (memLRU db)) < 2 ^ 31"
  shows "nat (LRUCacheSize (memLRU db)) = length (lru_order (memLRU db))"
proof (cases "lru_empty (memLRU db)")
  case True
  then have "lru_value (memLRU db) k = None" for k by (simp add: lru_empty_def lru_value_def)
  then have "lru_order (memLRU db) = []"
    using lru_order_value [OF mem_okD(1) [OF assms(1)]] by (cases "lru_order (memLRU db)") fastforce+
  with True show ?thesis by (simp add: LRUCacheSize_def)
next
  case False
  then show ?thesis using assms(2) by (simp add: LRUCacheSize_def lru_size_def lru_order_def)
qed

lemma set_keeps_queue:
  assumes "cache_mode sv = MODE_MEM_LRU" "setCommand sv e key val (c, db) = Inr (c', db')"
  shows "memQueue db' = memQueue db"
  using assms by (auto simp: setCommand_def cacheAdd_def bnd_eq_Inr Let_def MODE_MEM_LRU_def MODE_MEM_FIFO_def
      MODE_ONLY_FLASH_def db_set_ent_def split: option.splits)

lemma dead_flash_no_flush: "\<not> flash_live db \<Longrightarrow> bworker_flush sv e db \<noteq> Inr db'"
  by (auto simp: bworker_flush_def bnd_eq_Inr flashCacheInsert_def Let_def db_ent_def split: if_splits option.splits)

lemma evict_done_lru:
  assumes "cache_mode sv = MODE_MEM_LRU"
  shows "evict_done sv db \<longleftrightarrow> LRUCacheSize (memLRU db) = 0"
  using assms by (simp add: evict_done_def MODE_MEM_LRU_def MODE_MEM_FIFO_def)

text \<open>What is on its way to flash or in memory.\<close>

definition entries :: "kvDb \<Rightarrow> nat" where
  "entries db = length (memQueue db) + length (lru_order (memLRU db))"

text \<open>What flash holds when the entries that memory has lost since \<open>db0\<close> went there.\<close>

definition moved_look :: "env \<Rightarrow> kvDb \<Rightarrow> kvDb \<Rightarrow> byte list \<Rightarrow> byte list option" where
  "moved_look e db0 db k =
     (case fc_look (e, flashCache db0) k of
        Some w \<Rightarrow> Some w
      | None \<Rightarrow> if mem_look db k = None then mem_look db0 k else None)"

text \<open>The states before the flash cache is destroyed, after \<open>r\<close> rounds.\<close>

definition sig_ok :: "kvServer \<Rightarrow> env \<Rightarrow> kvDb \<Rightarrow> nat \<Rightarrow> sig_pc \<Rightarrow> kvDb \<Rightarrow> bool" where
  "sig_ok sv e db0 r pc db \<longleftrightarrow>
     store_inv e db \<and> entries db + r = entries db0 \<and> fc_room (flashCache db) (entries db) \<and>
     mem_look db \<subseteq>\<^sub>m mem_look db0 \<and> fc_look (e, flashCache db) = moved_look e db0 db \<and>
     (case pc of SigEntry \<Rightarrow> length (lru_order (memLRU db)) < 2 ^ 31
      | SigEvict n \<Rightarrow> length (lru_order (memLRU db)) = n | SigDestroy \<Rightarrow> lru_order (memLRU db) = []
      | _ \<Rightarrow> False)"

lemma sig_ok_tier:
  assumes mode: "lru_mode sv" and ok: "sig_ok sv e db0 r pc db" and run: "bworker_flush sv e db = Inr db'"
  shows "sig_ok sv e db0 (Suc r) pc db'"
proof -
  have inv: "store_inv e db" and n: "entries db + r = entries db0" and room: "fc_room (flashCache db) (entries db)"
    and mem: "mem_look db \<subseteq>\<^sub>m mem_look db0" and fl: "fc_look (e, flashCache db) = moved_look e db0 db"
    using ok by (simp_all add: sig_ok_def)
  obtain p q where q: "memQueue db = p # q"
    using run inv by (cases "memQueue db") (auto simp: bworker_flush_def store_inv_def queue_ok_def)
  have "fc_room (flashCache db) (Suc (length q + length (lru_order (memLRU db))))"
    using room q by (simp add: entries_def)
  from bworker_flush_lru [OF mode inv q this] run obtain k v where F: "store_inv e db'"
    "fc_room (flashCache db') (length q + length (lru_order (memLRU db)))" "mem_look db k = Some v"
    "mem_look db' = (mem_look db)(k := None)" "memQueue db' = q"
    "lru_order (memLRU db') = lru_order (memLRU db)"
    "fc_look (e, flashCache db') = (if fc_look (e, flashCache db) k = None
      then (fc_look (e, flashCache db))(k \<mapsto> v) else fc_look (e, flashCache db))" by auto
  have v: "mem_look db0 k = Some v" using mem F(3) by (auto simp: map_le_def dom_def)
  have "fc_look (e, flashCache db') = moved_look e db0 db'"
    unfolding F(7) fl by (auto simp: moved_look_def F(4) v F(3) fun_eq_iff split: option.splits)
  moreover have "mem_look db' \<subseteq>\<^sub>m mem_look db0" using mem by (auto simp: F(4) map_le_def)
  ultimately show ?thesis
    using ok F(1,2) n by (cases pc) (simp_all add: sig_ok_def entries_def q F(5,6))
qed

lemma sig_ok_handler:
  assumes mode: "lru_mode sv" and ok: "sig_ok sv e db0 r pc db" and pc: "pc \<noteq> SigDestroy"
    and run: "sigShutdownHandler sv e SIGINT pc db = Inr (pc', db')"
  shows "sig_ok sv e db0 r pc' db'"
proof -
  note m = lru_modeD [OF mode]
  have mem: "mem_ok db" "queue_ok db" using ok by (simp_all add: sig_ok_def store_inv_def)
  show ?thesis
  proof (cases pc)
    case SigEntry
    with ok run LRUCacheSize_order [OF mem(1)] show ?thesis
      by (auto simp: sig_ok_def pool_size_lru(1) [OF m])
  next
    case (SigEvict n)
    show ?thesis
    proof (cases n)
      case 0
      with ok SigEvict have "lru_order (memLRU db) = []" by (simp add: sig_ok_def)
      with ok run SigEvict 0 show ?thesis by (auto simp: sig_ok_def split: if_splits)
    next
      case (Suc i)
      with ok SigEvict have "lru_order (memLRU db) \<noteq> []" by (auto simp: sig_ok_def)
      from evict_to_queue_lru [OF m mem this] run SigEvict Suc obtain p where E: "mem_ok db'" "queue_ok db'"
        "flashCache db' = flashCache db" "flash_live db' = flash_live db" "mem_look db' = mem_look db"
        "lru_order (memLRU db') = butlast (lru_order (memLRU db))" "memQueue db' = memQueue db @ [p]"
        "pc' = SigEvict i" by auto
      have "entries db' = entries db" using \<open>lru_order (memLRU db) \<noteq> []\<close> by (simp add: entries_def E(6,7))
      moreover have "moved_look e db0 db' = moved_look e db0 db" by (rule ext) (simp only: moved_look_def E(5))
      ultimately show ?thesis
        using ok SigEvict Suc by (simp add: sig_ok_def store_inv_def E)
    qed
  qed (use ok pc in \<open>simp_all add: sig_ok_def\<close>)
qed

text \<open>The last step: the flash cache is destroyed, and its files stay.\<close>

lemma sig_destroy:
  assumes mode: "lru_mode sv" and inv: "store_inv e db"
  shows "\<exists>fc. sigShutdownHandler sv e SIGINT SigDestroy db =
      Inr (SigExit, db\<lparr>flashCache := fc, flash_live := False\<rparr>) \<and> fc_dir fc = fc_dir (flashCache db)"
proof -
  have ok: "flash_live db" "fc_wf e (flashCache db)" using inv by (simp_all add: store_inv_def fc_inv_def)
  from fc_Close_wf [OF ok(2)] obtain fc where "fc_Close False e (flashCache db) = Inr fc"
    "fc_dir fc = fc_dir (flashCache db)" by blast
  moreover have "wbmode sv = False" using mode by (simp add: lru_mode_def)
  ultimately show ?thesis using ok(1) by (intro exI [of _ fc]) (simp add: flashCacheDestroy_def)
qed

text \<open>What is left at the exit, after \<open>r\<close> rounds.\<close>

definition sig_left :: "env \<Rightarrow> kvDb \<Rightarrow> nat \<Rightarrow> kvDb \<Rightarrow> bool" where
  "sig_left e db0 r db \<longleftrightarrow> length (memQueue db) + r = entries db0 \<and> mem_look db \<subseteq>\<^sub>m mem_look db0 \<and>
     \<not> flash_live db \<and> (\<exists>fc. fc_wf e fc \<and> fc_dir fc = fc_dir (flashCache db) \<and>
       fc_look (e, fc) = moved_look e db0 db)"

lemma sig_run_ok:
  assumes mode: "lru_mode sv"
  shows "sig_run sv e db0 r pc db \<Longrightarrow> sig_ok sv e db0 0 SigEntry db0 \<Longrightarrow>
    if pc = SigExit then sig_left e db0 r db else sig_ok sv e db0 r pc db"
proof (induction rule: sig_run.induct)
  case (handler r pc db pc' db')
  show ?case
  proof (cases "pc = SigDestroy")
    case True
    then have ok: "sig_ok sv e db0 r SigDestroy db" using handler by simp
    then have "store_inv e db" by (simp add: sig_ok_def)
    from sig_destroy [OF mode this] handler.hyps(2) True obtain fc where
      D: "pc' = SigExit" "db' = db\<lparr>flashCache := fc, flash_live := False\<rparr>" "fc_dir fc = fc_dir (flashCache db)" by auto
    have "mem_look db' = mem_look db" unfolding D(2) by (rule mem_look_cong) simp_all
    then have "moved_look e db0 db' = moved_look e db0 db" by (intro ext) (simp only: moved_look_def)
    moreover have "length (memQueue db) + r = entries db0" using ok by (auto simp: sig_ok_def entries_def)
    ultimately have "sig_left e db0 r db'"
      using ok D(3) \<open>mem_look db' = mem_look db\<close> unfolding sig_left_def sig_ok_def
      by (intro conjI exI [of _ "flashCache db"]) (simp_all add: D(2) store_inv_def fc_inv_def)
    then show ?thesis by (simp add: D(1))
  next
    case False
    with handler have "pc \<noteq> SigExit" by auto
    with handler have "sig_ok sv e db0 r pc db" by simp
    from sig_ok_handler [OF mode this False handler.hyps(2)] show ?thesis by (auto simp: sig_ok_def)
  qed
next
  case (tier r pc db db')
  then show ?case using sig_ok_tier [OF mode] by simp
qed simp

text \<open>Schedules: the handler up to its last step, with every number of rounds after it.\<close>

lemma sig_run_evicts:
  "sig_run sv e db0 r (SigEvict n) db \<Longrightarrow> evict_n sv n db = Inr db' \<Longrightarrow> sig_run sv e db0 r (SigEvict 0) db'"
proof (induction n arbitrary: db)
  case (Suc n)
  from Suc.prems(2) obtain db1 where 1: "evict_to_queue sv db = Inr db1" "evict_n sv n db1 = Inr db'"
    by (auto simp: bnd_eq_Inr)
  have "sig_run sv e db0 r (SigEvict n) db1" using 1(1) by (intro sig_run.handler [OF Suc.prems(1)]) simp
  then show ?case using Suc.IH 1(2) by blast
qed simp

lemma sig_run_rounds:
  assumes mode: "lru_mode sv" and start: "sig_ok sv e db0 0 SigEntry db0"
  shows "sig_run sv e db0 0 SigDestroy db \<Longrightarrow> r \<le> entries db0 \<Longrightarrow> \<exists>db'. sig_run sv e db0 r SigDestroy db'"
proof (induction r)
  case (Suc r)
  then obtain db' where r: "sig_run sv e db0 r SigDestroy db'" by auto
  from sig_run_ok [OF mode r start] have ok: "store_inv e db'" "entries db' + r = entries db0"
    "lru_order (memLRU db') = []" "fc_room (flashCache db') (entries db')" by (simp_all add: sig_ok_def)
  with Suc.prems(2) obtain p q where q: "memQueue db' = p # q" by (cases "memQueue db'") (auto simp: entries_def)
  have "fc_room (flashCache db') (Suc (length q))" using ok(3,4) by (simp add: entries_def q)
  from bworker_flush_lru [OF mode ok(1) q this] obtain db'' where "bworker_flush sv e db' = Inr db''" by blast
  then show ?case using sig_run.tier [OF r] by blast
qed auto

text \<open>
  C19: the handler of \<open>SIGINT\<close> does not wait for the tiering thread, which it wakes for every entry
  and which runs beside it. (The mode is that of the recency cache without write buffers, the mutex
  of the flash cache is free and file numbers last.) Of the entries in memory and in the queue, the thread may have moved
  any number when the process ends, none and all included. Whatever the interleaving, when it has
  made \<open>r\<close> rounds all other entries are still in the queue, and the files, as the flash cache was
  when it was destroyed, hold what they held before the signal and the entries of those rounds,
  where the key was not on flash before. No further round can succeed, so an entry that is left
  and whose key flash does not hold is lost.
\<close>

theorem sigint_loses_queue:
  assumes mode: "lru_mode sv" and inv: "store_inv e db"
    and few: "length (lru_order (memLRU db)) < 2 ^ 31" and room: "fc_room (flashCache db) (entries db)"
  shows "(\<forall>r \<le> entries db. \<exists>db'. sig_run sv e db r SigExit db') \<and>
    (\<forall>r db'. sig_run sv e db r SigExit db' \<longrightarrow>
      r + length (memQueue db') = entries db \<and> mem_look db' \<subseteq>\<^sub>m mem_look db \<and>
      (\<exists>fc. fc_wf e fc \<and> fc_dir fc = fc_dir (flashCache db') \<and>
        (\<forall>k. fc_look (e, fc) k = (case fc_look (e, flashCache db) k of Some w \<Rightarrow> Some w
          | None \<Rightarrow> if mem_look db' k = None then mem_look db k else None))) \<and>
      (\<forall>db''. bworker_flush sv e db' \<noteq> Inr db''))"
proof (intro conjI allI impI)
  have m: "cache_mode sv = MODE_MEM_LRU" and ok: "mem_ok db" "queue_ok db"
    using mode inv by (simp_all add: lru_mode_def store_inv_def)
  have "fc_look (e, flashCache db) = moved_look e db db" by (auto simp: moved_look_def fun_eq_iff split: option.splits)
  then have start: "sig_ok sv e db 0 SigEntry db" using inv few room by (simp add: sig_ok_def)
  let ?n = "length (lru_order (memLRU db))"
  from evict_n_lru [OF m ok(1,2) order_refl] obtain db1 where 1: "evict_n sv ?n db = Inr db1"
    "lru_order (memLRU db1) = []" by auto
  have "sig_run sv e db 0 (SigEvict ?n) db"
    using LRUCacheSize_order [OF ok(1) few] by (intro sig_run.handler [OF sig_run.start]) (simp add: pool_size_lru(1) [OF m])
  then have 2: "sig_run sv e db 0 (SigEvict 0) db1" using 1(1) by (rule sig_run_evicts)
  have "evict_done sv db1"
    using 1(2) m by (simp add: evict_done_lru LRUCacheSize_def lru_size_def lru_order_def)
  then have evicted: "sig_run sv e db 0 SigDestroy db1" by (intro sig_run.handler [OF 2]) simp
  show "\<exists>db'. sig_run sv e db r SigExit db'" if "r \<le> entries db" for r
  proof -
    from sig_run_rounds [OF mode start evicted that] obtain db2 where 2: "sig_run sv e db r SigDestroy db2" ..
    from sig_run_ok [OF mode 2 start] have "store_inv e db2" by (simp add: sig_ok_def)
    from sig_destroy [OF mode this] show ?thesis using sig_run.handler [OF 2] by blast
  qed
  fix r db' assume "sig_run sv e db r SigExit db'"
  from sig_run_ok [OF mode this start] have L: "sig_left e db r db'" by simp
  then show "r + length (memQueue db') = entries db" "mem_look db' \<subseteq>\<^sub>m mem_look db"
    by (simp_all add: sig_left_def)
  from L show "\<exists>fc. fc_wf e fc \<and> fc_dir fc = fc_dir (flashCache db') \<and>
      (\<forall>k. fc_look (e, fc) k = (case fc_look (e, flashCache db) k of Some w \<Rightarrow> Some w
        | None \<Rightarrow> if mem_look db' k = None then mem_look db k else None))"
    by (auto simp: sig_left_def moved_look_def)
  show "bworker_flush sv e db' \<noteq> Inr db''" for db''
    using L by (intro dead_flash_no_flush) (simp add: sig_left_def)
qed

section \<open>Examples\<close>

definition sample_client :: kvClient where
  "sample_client = \<lparr>cl_argc = 0, cl_argv = None, cl_buf = replicate KV_IOBUF_LEN NUL, cl_len = 0\<rparr>"

lemma sample_client_ok [simp]: "client_ok sample_client"
  by (simp add: client_ok_def sample_client_def)

lemma sample_objects [simp]: "holds (arg_object ''a'') ''a''" "holds (arg_object ''one'') ''one''"
  "holds (arg_object ''two'') ''two''" "good_entry ''a'' ''two''"
  "kv_where (arg_object v) = KV_LOC_MEM"
  by (simp_all add: holds_arg good_entry_def rec_len_def sizeof_hdr_def) (simp add: arg_object_def)

lemma idle_absent:
  assumes "queue_ok db" "lru_order (memLRU db) = []" "memQueue db = []"
  shows "lru_value (memLRU db) k = None"
  using assms by (cases "lru_value (memLRU db) k") (auto simp: queue_ok_def)

lemma sample_set:
  "\<exists>c' db. setCommand sample_sv sample_env (arg_object ''a'') (arg_object ''one'') (sample_client, sample_db) =
      Inr (c', db) \<and> store_inv sample_env db \<and> kv_look sample_env db = [''a'' \<mapsto> ''one''] \<and>
    flashCache db = sample_flash \<and> lru_order (memLRU db) = [''a'']"
proof -
  have wf: "store_wf sample_env sample_db" using sample_inv(1) by (simp add: store_inv_wf)
  have limbo: "\<not> lru_limbo ''a'' (memLRU sample_db)" by (simp add: sample_db_def lru_limbo_def)
  have o: "lru_order (memLRU sample_db) = []" "flashCache sample_db = sample_flash"
    by (simp_all add: sample_db_def)
  from setCommand_lru [OF sample_modes(1) wf sample_client_ok, of "arg_object ''a''" "''a''"
      "arg_object ''one''" "''one''"] limbo sample_inv o show ?thesis
    by (fastforce simp: store_inv_wf)
qed

theorem store_reach_wf_witness:
  "\<exists>db evs. store_reach sample_sv sample_env sample_db evs db \<and> evs = [EvSet ''a'' ''one'', EvCheck] \<and>
    store_wf sample_env db"
proof -
  obtain c' db where 1: "setCommand sample_sv sample_env (arg_object ''a'') (arg_object ''one'')
      (sample_client, sample_db) = Inr (c', db)" "store_inv sample_env db" using sample_set by blast
  have s1: "store_step sample_sv sample_env (EvSet ''a'' ''one'') sample_db db"
    using 1(1) by (intro store_step.set) simp_all
  have ok: "mem_ok db" "queue_ok db" using 1(2) by (simp_all add: store_inv_def)
  have "\<exists>busy db'. memUsedCheck sample_sv db = Inr (busy, db')"
  proof (cases "0 < LRUCacheSize (memLRU db)")
    case True
    from evict_to_queue_lru [OF sample_modes(3) ok pool_size_lru(2) [OF sample_modes(3) True]]
    show ?thesis by (auto simp: memUsedCheck_def pool_size_lru(1))
  qed (auto simp: memUsedCheck_def pool_size_lru(1))
  then obtain busy db' where "store_step sample_sv sample_env EvCheck db db'"
    by (blast intro: store_step.check)
  then have r: "store_reach sample_sv sample_env sample_db ([] @ [EvSet ''a'' ''one''] @ [EvCheck]) db'"
    using s1 store_reach.step [OF store_reach.step [OF store_reach.start s1]] by simp
  have "store_wf sample_env sample_db" using sample_inv(1) by (simp add: store_inv_wf)
  from store_reach_wf [OF sample_modes(1) r this] r show ?thesis by auto
qed

theorem update_lost_witness:
  "\<exists>db c' db1 db2 db3. initServer sample_sv sample_env 0 0 sample_dir = Inr db \<and>
    setCommand sample_sv sample_env (arg_object ''a'') (arg_object ''two'') (sample_client, db) = Inr (c', db1) \<and>
    kv_look sample_env db1 ''a'' = Some ''two'' \<and>
    evict_to_queue sample_sv db1 = Inr db2 \<and> bworker_flush sample_sv sample_env db2 = Inr db3 \<and>
    kv_look sample_env db3 ''a'' = Some ''one''"
proof -
  obtain db where db: "initServer sample_sv sample_env 0 0 sample_dir = Inr db" "store_inv sample_env db"
    "fc_room (flashCache db) 100" "kv_look sample_env db = [''a'' \<mapsto> ''one'']" using sample_restart by blast
  have idle: "memLRU db = lru_new" "memQueue db = []"
    using db(1) by (auto simp: initServer_def bnd_eq_Inr LRUCacheCreate_def QueueCreate_def Let_def)
  have "mem_look db ''a'' = None" by (simp add: mem_look_def idle)
  then have old: "fc_look (sample_env, flashCache db) ''a'' = Some ''one''"
    using fun_cong [OF db(4), of "''a''"] by (simp add: kv_look_def)
  have room: "fc_room (flashCache db) (Suc 99)" using db(3) by simp
  from update_lost [OF sample_modes(1) db(2) sample_client_ok _ idle(2) room _ _ old, of "arg_object ''a''" "''two''"]
  show ?thesis using db(1) idle(1) by auto
qed

theorem sigint_loses_queue_witness:
  "\<exists>c' db1 db2 db3. setCommand sample_sv sample_env (arg_object ''a'') (arg_object ''one'')
      (sample_client, sample_db) = Inr (c', db1) \<and> mem_look db1 ''a'' = Some ''one'' \<and>
    sig_run sample_sv sample_env db1 0 SigExit db2 \<and> length (memQueue db2) = 1 \<and>
    sig_run sample_sv sample_env db1 1 SigExit db3 \<and> memQueue db3 = []"
proof -
  obtain c' db where 1: "setCommand sample_sv sample_env (arg_object ''a'') (arg_object ''one'')
      (sample_client, sample_db) = Inr (c', db)" "store_inv sample_env db"
    "kv_look sample_env db = [''a'' \<mapsto> ''one'']" "flashCache db = sample_flash"
    "lru_order (memLRU db) = [''a'']" using sample_set by blast
  have "memQueue db = []" using set_keeps_queue [OF sample_modes(3) 1(1)] by (simp add: sample_db_def)
  note 1 = 1 this
  have "fc_look (sample_env, sample_flash) k = None" for k
    by (simp add: fc_look_def meta_Lookup_def sample_flash_def meta_new_def)
  then have "mem_look db ''a'' = Some ''one''"
    using fun_cong [OF 1(3), of "''a''"] by (simp add: kv_look_def 1(4) split: option.splits)
  moreover have n: "entries db = 1" by (simp add: entries_def 1(5,6))
  have "fc_room (flashCache db) (entries db)" using sample_inv(2) by (simp add: n 1(4) fc_room_def) (simp add: sample_db_def)
  from sigint_loses_queue [OF sample_modes(1) 1(2) _ this] 1(5) n have
    S: "\<forall>r \<le> 1. \<exists>db'. sig_run sample_sv sample_env db r SigExit db'"
    "\<forall>r db'. sig_run sample_sv sample_env db r SigExit db' \<longrightarrow> r + length (memQueue db') = 1" by simp_all
  from S(1) obtain db2 db3 where R: "sig_run sample_sv sample_env db 0 SigExit db2"
    "sig_run sample_sv sample_env db 1 SigExit db3" by (meson le0 order_refl)
  moreover from S(2) R have "length (memQueue db2) = 1" "memQueue db3 = []" by fastforce+
  ultimately show ?thesis using 1(1) by blast
qed

text \<open>
  C37: the search for a port. From any \<open>int\<close> that is at least \<open>2 ^ 16 - 1\<close> below the largest
  one, if any port at all can be bound, the loop of \<open>tcpConnect\<close> stops after at most \<open>2 ^ 16\<close>
  attempts at the first number whose low 16 bits are a port that can be bound: the number passes
  65535 and goes on with the ports from 0. If no port can be bound the loop increments \<open>port\<close>
  until it overflows.
\<close>

theorem tcp_bind_finds:
  assumes "- (2 ^ 31) \<le> port" "port \<le> INT_MAX - 2 ^ 16 + 1"
  shows "if \<exists>p. bind_ok p
    then \<exists>n < 2 ^ 16. tcp_bind bind_ok port = Inr (port + int n) \<and>
      bind_ok (word_of_int (port + int n)) \<and> (\<forall>i < n. \<not> bind_ok (word_of_int (port + int i)))
    else tcp_bind bind_ok port = Inl IntOverflow"
  using tcp_bind_port [OF _ assms(2)] tcp_bind_none by auto

theorem tcp_bind_finds_witness:
  "(\<exists>n < 2 ^ 16. tcp_bind (\<lambda>p. p = 3) 65530 = Inr (65530 + int n)) \<and>
   tcp_bind (\<lambda>p. False) 19501 = Inl IntOverflow"
  using tcp_bind_finds [of 65530 "\<lambda>p. p = 3"] tcp_bind_finds [of 19501 "\<lambda>p. False"]
  by (auto simp: INT_MAX_def)

text \<open>
  C24: the server starts from its directory. With files that hold logs of whole records, in
  whatever order \<open>readdir\<close> lists them and among files of other names, \<open>initServer\<close> succeeds
  with a store that satisfies the invariant and in which exactly the recorded keys are found,
  each with the value of its first record in the order of the directory.
\<close>

theorem initServer_recovers:
  assumes "env_ok e" "reads_whole e" and "lru_mode sv" and "flashCache_dir sv \<noteq> None"
    and "m + Suc n < 2 ^ 32" and "distinct (map fst dir)" "rc_files e dir files" "distinct (map fst files)"
    and "\<forall>(cid, kvs) \<in> set files. unat cid < m \<and> length (log_bytes e kvs) < 2 ^ 32 \<and>
      (\<forall>(k, v) \<in> set kvs. good_entry k v)"
    and "unat (flashCache_file_size sv) \<le> 2 ^ 31"
  shows "\<exists>db. initServer sv e gsize gfile dir = Inr db \<and> store_inv e db \<and>
    fc_room (flashCache db) n \<and> kv_look e db = map_of (concat (map snd files))"
  using assms by (rule initServer_store)

theorem initServer_recovers_witness:
  "\<exists>db. initServer sample_sv sample_env 5 6 sample_dir = Inr db \<and> store_inv sample_env db \<and>
    kv_look sample_env db = [''a'' \<mapsto> ''one'']"
proof -
  have "\<exists>db. initServer sample_sv sample_env 5 6 sample_dir = Inr db \<and> store_inv sample_env db \<and>
      fc_room (flashCache db) 9 \<and> kv_look sample_env db = map_of (concat (map snd [(3::u32, [(''a'', ''one'')])]))"
    using sample_dir_files
    by (intro initServer_recovers [where m = 4])
      (simp_all add: sample_log sample_sv_def del: log_bytes_simps, simp_all add: sample_modes [unfolded sample_sv_def])
  then show ?thesis by auto
qed

end
