(* ===== verification/Session.thy ===== *)
theory Session
  imports Server
begin

text \<open>
  What the clients see. First the store as a dictionary: a run of the two-level store in which
  no key is written twice answers every request as the dictionary of what was written does
  (\<open>dict_next\<close>, \<open>dict_answer\<close>). Then whole requests, from the bytes a client sends
  (\<open>tcpRecv\<close>, \<open>parsingMessage\<close>, \<open>processCMD\<close>) to the bytes it gets back (\<open>tcpSend\<close>), and
  the requests the session thread does not survive.
\<close>

section \<open>The dictionary the store implements\<close>

definition not_found :: "byte list" where
  "not_found = ''$7'' @ [CR, LF] @ ''+Empty!'' @ [CR, LF]"

fun dict_next :: "store_event \<Rightarrow> (byte list \<rightharpoonup> byte list) \<Rightarrow> (byte list \<rightharpoonup> byte list)" where
  "dict_next (EvSet k v) m = m(k \<mapsto> v)"
| "dict_next _ m = m"

text \<open>
  The reply to a \<open>get\<close>: from flash, the value is printed from a buffer without a terminator,
  so the bytes behind the buffer (\<open>env_tail\<close>) may follow it.
\<close>

fun dict_answer :: "byte list \<Rightarrow> store_event \<Rightarrow> (byte list \<rightharpoonup> byte list) \<Rightarrow> bool" where
  "dict_answer tail (EvGet k out) m \<longleftrightarrow>
     (case m k of
        None \<Rightarrow> out = not_found
      | Some v \<Rightarrow> out = bulk (length v) v \<or> out = bulk (length v) (v @ until_nul tail))"
| "dict_answer tail _ m \<longleftrightarrow> True"

fun dict_run :: "byte list \<Rightarrow> store_event list \<Rightarrow> (byte list \<rightharpoonup> byte list) \<Rightarrow> bool" where
  "dict_run tail [] m = True"
| "dict_run tail (ev # evs) m \<longleftrightarrow> dict_answer tail ev m \<and> dict_run tail evs (dict_next ev m)"

fun written :: "store_event list \<Rightarrow> byte list list" where
  "written [] = []"
| "written (EvSet k v # evs) = k # written evs"
| "written (_ # evs) = written evs"

lemma dict_run_append:
  "dict_run tail (evs @ evs') m \<longleftrightarrow> dict_run tail evs m \<and> dict_run tail evs' (fold dict_next evs m)"
  by (induction evs arbitrary: m) auto

lemma written_append: "written (evs @ evs') = written evs @ written evs'"
  by (induction evs rule: written.induct) auto

lemma fold_dict_next_other: "k \<notin> set (written evs) \<Longrightarrow> fold dict_next evs m k = m k"
  by (induction evs arbitrary: m rule: written.induct) auto

text \<open>The tiers share no key.\<close>

definition tiers_apart :: "env \<Rightarrow> kvDb \<Rightarrow> bool" where
  "tiers_apart e db \<longleftrightarrow> (\<forall>k. mem_look db k = None \<or> fc_look (e, flashCache db) k = None)"

lemma reply_fits: "reply s c = Inr c' \<Longrightarrow> length s < length (cl_buf c)"
  by (simp add: reply_def split: if_splits)

lemma reply_out:
  assumes "client_ok c" "reply s c = Inr c'" "tcpSend c' = Inr out"
  shows "out = s"
proof -
  have "length (cl_buf c) < 2 ^ 32" using client_okD [OF assms(1)] by simp
  from reply_sent [OF reply_fits [OF assms(2)] this] assms(2,3) show ?thesis by auto
qed

lemma get_dict:
  assumes mode: "lru_mode sv" and apart: "tiers_apart e db" and wf: "store_wf e db"
    and c: "client_ok c" and key: "holds key k"
    and run: "getCommand sv e key (c, db) = Inr (c', db')" and out: "tcpSend c' = Inr out"
  shows "tiers_apart e db' \<and> kv_look e db' = kv_look e db \<and> dict_answer (env_tail e) (EvGet k out) (kv_look e db)"
  using mode wf key run
proof (cases rule: get_cases)
  case (mem v)
  from getCommand_mem_effect [OF mode wf key mem] run obtain c1 where
    "reply (bulk (length v) v) c = Inr c'" "kv_look e db' = kv_look e db"
    "mem_look db' = mem_look db" "flashCache db' = flashCache db"
    by (auto simp: bnd_eq_Inr)
  with reply_out [OF c this(1) out] mem(1) apart show ?thesis by (simp add: tiers_apart_def kv_look_def)
next
  case (flash v)
  from getCommand_flash_effect [OF mode flash(2) key flash(1,3)] run have G:
    "reply (bulk (length v) (v @ until_nul (env_tail e))) c = Inr c'"
    "kv_look e db' = kv_look e db" "mem_look db' = (mem_look db)(k \<mapsto> v)"
    "fc_look (e, flashCache db') = (fc_look (e, flashCache db))(k := None)"
    by (auto simp: bnd_eq_Inr)
  have "kv_look e db k = Some v" using flash(1,3) by (simp add: kv_look_def)
  with G(2-4) reply_out [OF c G(1) out] apart show ?thesis by (simp add: tiers_apart_def)
next
  case miss
  from getCommand_miss [OF mode miss(2) key miss(3) c] run out have G:
    "db' = db\<lparr>flashCache := (flashCache db)\<lparr>fcache_mutex := True\<rparr>\<rparr>" "out = not_found"
    by (auto simp: not_found_def)
  have "mem_look db' = mem_look db" by (rule mem_look_cong) (simp_all add: G)
  moreover have "fc_look (e, flashCache db') = fc_look (e, flashCache db)" by (simp add: G)
  ultimately have "kv_look e db' = kv_look e db" "tiers_apart e db'"
    using apart by (auto simp: kv_look_def fun_eq_iff tiers_apart_def split: option.split)
  then show ?thesis using miss(3) G(2) by simp
qed

lemma store_step_dict:
  assumes mode: "lru_mode sv" and apart: "tiers_apart e db" and wf: "store_wf e db"
    and step: "store_step sv e ev db db'" and new: "\<forall>k \<in> set (written [ev]). fc_look (e, flashCache db) k = None"
  shows "tiers_apart e db' \<and> kv_look e db' = dict_next ev (kv_look e db) \<and>
    dict_answer (env_tail e) ev (kv_look e db)"
  using step
proof (cases rule: store_step.cases)
  case (check busy)
  from memUsedCheck_lru [OF mode wf check(2)] show ?thesis
    using apart check(1) by (simp add: tiers_apart_def)
next
  case (set c key k v c')
  have "holds (arg_object v) v" "kv_where (arg_object v) = KV_LOC_MEM"
    using set(4) by (simp_all add: good_entry_def holds_arg)
  then show ?thesis
    using setCommand_lru [OF mode wf set(2,3) _ set(4) _ set_ready [OF mode wf set(3,5)], of "arg_object v"]
      set(1,5) apart new
    by (auto simp: tiers_apart_def)
next
  case (get c key k c' out)
  from get_dict [OF mode apart wf get(2-5)] show ?thesis using get(1) by simp
next
  case (flush n)
  obtain p q where q: "store_inv e db" "memQueue db = p # q" by (rule flush_ready [OF wf flush(3)])
  from bworker_flush_lru [OF mode q flush(2)] flush(3) obtain k v where F:
    "mem_look db k = Some v" "mem_look db' = (mem_look db)(k := None)"
    "fc_look (e, flashCache db') = (if fc_look (e, flashCache db) k = None
      then (fc_look (e, flashCache db))(k \<mapsto> v) else fc_look (e, flashCache db))"
    by auto
  have "fc_look (e, flashCache db) k = None" using apart F(1) unfolding tiers_apart_def by (metis option.distinct(1))
  then have "kv_look e db' = kv_look e db" "tiers_apart e db'"
    using kv_look_flush [OF F] F apart by (simp_all add: tiers_apart_def)
  then show ?thesis using flush(1) by simp
qed

text \<open>Along a run the levels stay apart, and together they are the dictionary of what was set.\<close>

lemma store_run:
  assumes mode: "lru_mode sv" and wf: "store_wf e db0" and apart: "tiers_apart e db0"
  shows "store_reach sv e db0 evs db \<Longrightarrow> distinct (written evs) \<Longrightarrow>
    \<forall>k \<in> set (written evs). kv_look e db0 k = None \<Longrightarrow>
    store_wf e db \<and> tiers_apart e db \<and> kv_look e db = fold dict_next evs (kv_look e db0) \<and>
    dict_run (env_tail e) evs (kv_look e db0)"
proof (induction rule: store_reach.induct)
  case start
  then show ?case using wf apart by simp
next
  case (step evs db ev db')
  then have IH: "store_wf e db" "tiers_apart e db"
    "kv_look e db = fold dict_next evs (kv_look e db0)" "dict_run (env_tail e) evs (kv_look e db0)"
    by (simp_all add: written_append)
  have "fc_look (e, flashCache db) k = None" if "k \<in> set (written [ev])" for k
  proof -
    have "k \<notin> set (written evs)" "kv_look e db0 k = None"
      using that step.prems by (auto simp: written_append)
    then have "kv_look e db k = None" using fold_dict_next_other IH(3) by metis
    then show ?thesis by (simp add: kv_look_def split: option.splits)
  qed
  with store_step_dict [OF mode IH(2,1) step.hyps(2)]
  have "tiers_apart e db'" "kv_look e db' = dict_next ev (kv_look e db)"
    "dict_answer (env_tail e) ev (kv_look e db)" by blast+
  then show ?case
    using IH(3,4) store_step_wf [OF mode step.hyps(2) IH(1)] by (simp add: dict_run_append)
qed

text \<open>
  C2: the two levels refine one dictionary. Take any run of checks, \<open>set\<close>s, \<open>get\<close>s and rounds of
  the tiering thread, in any order, in which no key is written that is there already. The
  levels stay apart; what is found in them is what the sequence of the \<open>set\<close>s alone builds; and
  every \<open>get\<close> is answered from that dictionary, whether the key is in memory, in the queue or on
  flash, except that a value from flash may be followed by what lies behind its buffer.
\<close>

theorem store_run_dict:
  assumes mode: "lru_mode sv" and wf: "store_wf e db0" and apart: "tiers_apart e db0"
  shows "store_reach sv e db0 evs db \<Longrightarrow> distinct (written evs) \<Longrightarrow>
    \<forall>k \<in> set (written evs). kv_look e db0 k = None \<Longrightarrow>
    store_wf e db \<and> tiers_apart e db \<and> kv_look e db = fold dict_next evs (kv_look e db0) \<and>
    dict_run (env_tail e) evs (kv_look e db0)"
  using store_run [OF mode wf apart] by blast

section \<open>Whole requests\<close>

text \<open>
  What the counter holds once a request has been parsed, and the condition under which the
  check before a \<open>set\<close> leaves the store alone.
\<close>

definition parsed_used :: "byte list list \<Rightarrow> u32 \<Rightarrow> u32" where
  "parsed_used args um = fold (\<lambda>a. charge (object_bytes (length a))) args (charge (8 * length args) um)"

definition no_pressure :: "kvServer \<Rightarrow> kvDb \<Rightarrow> bool" where
  "no_pressure sv db \<longleftrightarrow> 0 < maxmemory sv \<and> unat (maxmemory sv) < 2 ^ 46 \<and>
     10 * mem_used db \<le> 9 * unat (maxmemory sv)"

lemma memUsedCheck_idle:
  assumes "cache_mode sv \<in> {MODE_MEM_LRU, MODE_MEM_FIFO}" "no_pressure sv db"
  shows "memUsedCheck sv db = Inr (False, db)"
proof -
  let ?n = "mem_used db" and ?m = "unat (maxmemory sv)"
  have m: "?m < 2 ^ 46" "10 * ?n \<le> 9 * ?m" "0 < ?m"
    using assms(2) by (auto simp: no_pressure_def unat_gt_0)
  then have n: "?n < 2 ^ 53" by simp
  have "\<not> over_90 ?n (maxmemory sv)" using over_90_exact [OF m(1) n] m(2) by simp
  then show ?thesis
    using assms(1) m by (auto simp: memUsedCheck_def pool_size_def)
qed

lemma store_wf_used [simp]:
  "store_wf e (db\<lparr>db_used := um\<rparr>) = store_wf e db" "mem_look (db\<lparr>db_used := um\<rparr>) = mem_look db"
  "kv_look e (db\<lparr>db_used := um\<rparr>) = kv_look e db" "store_inv e (db\<lparr>db_used := um\<rparr>) = store_inv e db"
  by (auto simp: store_wf_def mem_ok_def queue_ok_def mem_look_def kv_look_def fun_eq_iff store_inv_wf
      cong: option.case_cong)

text \<open>A request is received and parsed.\<close>

lemma recv_parse:
  assumes args: "length args < 10" "\<forall>a \<in> set args. a \<noteq> [] \<and> length a < 2 ^ 31"
    and c: "client_ok c" and fits: "length (enc_request args) \<le> KV_IOBUF_LEN"
  shows "\<exists>c'. parsingMessage (tcpRecv (enc_request args) c) um = Inr (c', parsed_used args um) \<and>
    cl_argv c' = Some (map (Live \<circ> arg_object) args) \<and> client_ok c'"
proof -
  let ?c = "tcpRecv (enc_request args) c"
  have b: "cl_buf ?c = enc_request args @ drop (length (enc_request args)) (cl_buf c)"
    using fits by (simp add: tcpRecv_def Let_def)
  moreover have "length (cl_buf ?c) = KV_IOBUF_LEN"
    using fits c unfolding b by (simp add: client_ok_def)
  ultimately show ?thesis
    using parsingMessage_enc [OF args, of ?c _ um] by (force simp: client_ok_def parsed_used_def)
qed

text \<open>The reply is sent when the first two arguments have been freed.\<close>

lemma session_finish_live:
  assumes "cl_argv c = Some (Live a # Live b # cells)" "tcpSend c = Inr out"
  shows "\<exists>c' um. session_finish (c, db) = Inr (SessionSent out, c', db\<lparr>db_used := um\<rparr>) \<and>
    cl_argv c' = Some (Freed # Freed # cells) \<and> cl_buf c' = cl_buf c"
  using assms by (simp add: session_finish_def free_args_def free_arg_def tcpSend_def split: if_splits)
    (rule exI, rule refl)

lemma command_names:
  "msgcmp (ptr (arg_object ''set'')) ''set''" "msgcmp (ptr (arg_object ''get'')) ''get''"
  "\<not> msgcmp (ptr (arg_object ''get'')) ''set''"
  by (simp_all add: msgcmp_def strcasecmp_eq_def arg_object_def tolower_def until_nul_def)

lemma client_arg_Live:
  "cl_argv c = Some (map (Live \<circ> arg_object) args) \<Longrightarrow> i < length args \<Longrightarrow>
   client_arg i c = Inr (arg_object (args ! i))"
  by (simp add: client_arg_def)

definition key_ok :: "byte list \<Rightarrow> bool" where
  "key_ok k \<longleftrightarrow> k \<noteq> [] \<and> no_nul k \<and> length k < 2 ^ 31"

lemma session_set_with:
  assumes c: "client_ok c" and k: "key_ok k" and v: "v \<noteq> []" "good_entry k v"
    and fits: "length (enc_request [''set'', k, v]) \<le> KV_IOBUF_LEN"
    and idle: "cache_mode sv \<noteq> MODE_ONLY_FLASH \<Longrightarrow>
      no_pressure sv (db\<lparr>db_used := parsed_used [''set'', k, v] (db_used db)\<rparr>) \<and> cache_mode sv \<in> {MODE_MEM_LRU, MODE_MEM_FIFO}"
    and set: "\<And>c'. client_ok c' \<Longrightarrow>
      setCommand sv e (arg_object k) (arg_object v)
        (c', db\<lparr>db_used := parsed_used [''set'', k, v] (db_used db)\<rparr>) =
      bnd (reply (''+OK'' @ [CR, LF]) c') (\<lambda>c'. Inr (c', db'))"
  shows "\<exists>c' um. session_step sv e False (enc_request [''set'', k, v]) (c, db) =
      Inr (SessionSent (''+OK'' @ [CR, LF]), c', db'\<lparr>db_used := um\<rparr>) \<and> client_ok c'"
proof -
  let ?args = "[''set'', k, v]"
  define um where "um = parsed_used ?args (db_used db)"
  have args: "length ?args < 10" "\<forall>a \<in> set ?args. a \<noteq> [] \<and> length a < 2 ^ 31"
    using k v by (auto simp: key_ok_def good_entry_def rec_len_def)
  obtain c1 where 1: "parsingMessage (tcpRecv (enc_request ?args) c) (db_used db) = Inr (c1, um)"
    "cl_argv c1 = Some (map (Live \<circ> arg_object) ?args)" "client_ok c1"
    using recv_parse [OF args c fits, of "db_used db"] unfolding um_def by blast
  from reply_sent [of "''+OK'' @ [CR, LF]" c1] client_okD [OF 1(3)] obtain c2 where
    2: "reply (''+OK'' @ [CR, LF]) c1 = Inr c2" "tcpSend c2 = Inr (''+OK'' @ [CR, LF])"
    "cl_argv c2 = cl_argv c1" "length (cl_buf c2) = length (cl_buf c1)" by auto
  have a: "client_arg 0 c1 = Inr (arg_object ''set'')" "client_arg 1 c1 = Inr (arg_object k)"
    "client_arg 2 c1 = Inr (arg_object v)"
    using client_arg_Live [OF 1(2), of 0] client_arg_Live [OF 1(2), of 1]
      client_arg_Live [OF 1(2), of 2] by simp_all
  have busy: "memUsedCheck sv (db\<lparr>db_used := um\<rparr>) = Inr (False, db\<lparr>db_used := um\<rparr>)"
    if "cache_mode sv \<noteq> MODE_ONLY_FLASH"
    using idle [OF that] memUsedCheck_idle [of sv "db\<lparr>db_used := um\<rparr>"] by (simp add: um_def)
  have "setCommand sv e (arg_object k) (arg_object v) (c1, db\<lparr>db_used := um\<rparr>) = Inr (c2, db')"
    using set [OF 1(3)] 2(1) by (simp add: um_def)
  then have P: "processCMD sv e (c1, db\<lparr>db_used := um\<rparr>) = Inr (CmdDone, c2, db')"
    using a busy by (simp add: processCMD_def command_names cmd_set_def)
  have "cl_argv c2 = Some (Live (arg_object ''set'') # Live (arg_object k) # [Live (arg_object v)])"
    using 1(2) 2(3) by simp
  from session_finish_live [OF this 2(2)] obtain c3 um3 where 3:
    "session_finish (c2, db') = Inr (SessionSent (''+OK'' @ [CR, LF]), c3, db'\<lparr>db_used := um3\<rparr>)"
    "cl_buf c3 = cl_buf c2" by blast
  have "client_ok c3" using 1(3) 2(4) 3(2) by (simp add: client_ok_def)
  then show ?thesis using 1(1) P 3(1) by (auto simp: session_step_def)
qed

lemma session_set:
  assumes mode: "lru_mode sv" and wf: "store_wf e db" and c: "client_ok c"
    and k: "key_ok k" "\<not> lru_limbo k (memLRU db)" and v: "v \<noteq> []" "good_entry k v"
    and fits: "length (enc_request [''set'', k, v]) \<le> KV_IOBUF_LEN"
    and idle: "no_pressure sv (db\<lparr>db_used := parsed_used [''set'', k, v] (db_used db)\<rparr>)"
  shows "\<exists>c' db'. session_step sv e False (enc_request [''set'', k, v]) (c, db) =
      Inr (SessionSent (''+OK'' @ [CR, LF]), c', db') \<and> store_wf e db' \<and> client_ok c' \<and>
    kv_look e db' = (kv_look e db)(k \<mapsto> v) \<and> mem_look db' = (mem_look db)(k \<mapsto> v) \<and>
    flashCache db' = flashCache db \<and> k \<in> set (lru_order (memLRU db')) \<and> lru_inv (memLRU db')"
proof -
  have m: "cache_mode sv = MODE_MEM_LRU" using mode by (simp add: lru_mode_def)
  have ob: "holds (arg_object k) k" "holds (arg_object v) v" "kv_where (arg_object v) = KV_LOC_MEM"
    using k(1) v(2) by (simp_all add: key_ok_def good_entry_def holds_arg)
  from setCommand_lru_effect [OF mode _ ob(1,2) v(2) ob(3),
      of e "db\<lparr>db_used := parsed_used [''set'', k, v] (db_used db)\<rparr>"] wf k(2)
  obtain db' where db': "\<And>c. setCommand sv e (arg_object k) (arg_object v)
      (c, db\<lparr>db_used := parsed_used [''set'', k, v] (db_used db)\<rparr>) =
      bnd (reply (''+OK'' @ [CR, LF]) c) (\<lambda>c. Inr (c, db'))"
    "store_wf e db'" "kv_look e db' = (kv_look e db)(k \<mapsto> v)" "flashCache db' = flashCache db"
    "mem_look db' = (mem_look db)(k \<mapsto> v)" "k \<in> set (lru_order (memLRU db'))" by auto
  have "lru_inv (memLRU db')" using db'(2) by (simp add: store_wf_def mem_ok_def)
  then show ?thesis
    using session_set_with [OF c k(1) v fits _ db'(1)] idle m db'(2-6) by fastforce
qed

lemma session_get:
  assumes c: "client_ok c" and k: "key_ok k" and fits: "length (enc_request [''get'', k]) \<le> KV_IOBUF_LEN"
    and out: "length s < KV_IOBUF_LEN"
    and get: "\<And>c'. client_ok c' \<Longrightarrow>
      getCommand sv e (arg_object k) (c', db\<lparr>db_used := parsed_used [''get'', k] (db_used db)\<rparr>) =
      bnd (reply s c') (\<lambda>c'. Inr (c', db'))"
  shows "\<exists>c' um. session_step sv e False (enc_request [''get'', k]) (c, db) =
      Inr (SessionSent s, c', db'\<lparr>db_used := um\<rparr>) \<and> client_ok c'"
proof -
  let ?args = "[''get'', k]"
  define um where "um = parsed_used ?args (db_used db)"
  have args: "length ?args < 10" "\<forall>a \<in> set ?args. a \<noteq> [] \<and> length a < 2 ^ 31"
    using k by (auto simp: key_ok_def)
  obtain c1 where 1: "parsingMessage (tcpRecv (enc_request ?args) c) (db_used db) = Inr (c1, um)"
    "cl_argv c1 = Some (map (Live \<circ> arg_object) ?args)" "client_ok c1"
    using recv_parse [OF args c fits, of "db_used db"] unfolding um_def by blast
  have "length s < length (cl_buf c1)" "length (cl_buf c1) < 2 ^ 32"
    using out 1(3) by (simp_all add: client_ok_def KV_IOBUF_LEN_def)
  from reply_sent [OF this] obtain c2 where 2: "reply s c1 = Inr c2" "tcpSend c2 = Inr s"
    "cl_argv c2 = cl_argv c1" "length (cl_buf c2) = length (cl_buf c1)" by blast
  have a: "client_arg 0 c1 = Inr (arg_object ''get'')" "client_arg 1 c1 = Inr (arg_object k)"
    using client_arg_Live [OF 1(2), of 0] client_arg_Live [OF 1(2), of 1] by simp_all
  have P: "processCMD sv e (c1, db\<lparr>db_used := um\<rparr>) = Inr (CmdDone, c2, db')"
    using a get [OF 1(3)] 2(1) by (simp add: processCMD_def command_names um_def)
  have "cl_argv c2 = Some (Live (arg_object ''get'') # Live (arg_object k) # [])"
    using 1(2) 2(3) by simp
  from session_finish_live [OF this 2(2)] obtain c3 um3 where 3:
    "session_finish (c2, db') = Inr (SessionSent s, c3, db'\<lparr>db_used := um3\<rparr>)" "cl_buf c3 = cl_buf c2"
    by blast
  have "client_ok c3" using 1(3) 2(4) 3(2) by (simp add: client_ok_def)
  then show ?thesis
    using 1(1) P 3(1) by (auto simp: session_step_def)
qed

lemma lru_limbo_used [simp]:
  "memLRU (db\<lparr>db_used := um\<rparr>) = memLRU db" "flashCache (db\<lparr>db_used := um\<rparr>) = flashCache db"
  by simp_all

lemma session_get_mem:
  assumes mode: "lru_mode sv" and wf: "store_wf e db" and c: "client_ok c"
    and k: "key_ok k" "\<not> lru_limbo k (memLRU db)" and hit: "mem_look db k = Some v"
    and fits: "length (enc_request [''get'', k]) \<le> KV_IOBUF_LEN" "length (bulk (length v) v) < KV_IOBUF_LEN"
  shows "\<exists>c' db'. session_step sv e False (enc_request [''get'', k]) (c, db) =
      Inr (SessionSent (bulk (length v) v), c', db') \<and> store_wf e db' \<and> client_ok c' \<and>
    kv_look e db' = kv_look e db \<and> mem_look db' = mem_look db \<and> flashCache db' = flashCache db"
proof -
  define db0 where "db0 = db\<lparr>db_used := parsed_used [''get'', k] (db_used db)\<rparr>"
  have ok: "holds (arg_object k) k" "store_wf e db0" "mem_look db0 k = Some v"
    "\<not> lru_limbo k (memLRU db0)"
    using k hit wf by (simp_all add: key_ok_def holds_arg db0_def)
  from getCommand_mem_effect [OF mode ok(2,1,3,4)] obtain db1 where 1:
    "\<forall>c. getCommand sv e (arg_object k) (c, db0) = bnd (reply (bulk (length v) v) c) (\<lambda>c. Inr (c, db1))"
    "store_wf e db1" "kv_look e db1 = kv_look e db0" "mem_look db1 = mem_look db0"
    "flashCache db1 = flashCache db0" by blast
  show ?thesis
    using session_get [OF c k(1) fits(1,2), of sv e db db1] 1 unfolding db0_def by fastforce
qed

text \<open>
  C8: a value comes back from flash. A \<open>get\<close> request for a key that only flash holds is answered
  with the length of the value and its bytes (followed by the bytes behind the unterminated
  buffer up to a zero byte), the entry is moved to memory, the index of the flash cache forgets
  the key, and the dictionary is what it was.
\<close>

theorem session_get_flash:
  assumes mode: "lru_mode sv" and inv: "store_inv e db" and c: "client_ok c"
    and k: "key_ok k" and miss: "mem_look db k = None" and hit: "fc_look (e, flashCache db) k = Some v"
    and fits: "length (enc_request [''get'', k]) \<le> KV_IOBUF_LEN"
      "length (bulk (length v) (v @ until_nul (env_tail e))) < KV_IOBUF_LEN"
  shows "\<exists>c' db'. session_step sv e False (enc_request [''get'', k]) (c, db) =
      Inr (SessionSent (bulk (length v) (v @ until_nul (env_tail e))), c', db') \<and> store_inv e db' \<and>
    client_ok c' \<and> kv_look e db' = kv_look e db \<and> mem_look db' = (mem_look db)(k \<mapsto> v) \<and>
    fc_look (e, flashCache db') = (fc_look (e, flashCache db))(k := None)"
proof -
  define db0 where "db0 = db\<lparr>db_used := parsed_used [''get'', k] (db_used db)\<rparr>"
  have ok: "holds (arg_object k) k" "store_inv e db0" "mem_look db0 k = None"
    "fc_look (e, flashCache db0) k = Some v"
    using k hit miss inv by (simp_all add: key_ok_def holds_arg db0_def)
  from getCommand_flash_effect [OF mode ok(2,1,3,4)] obtain db1 where 1:
    "\<forall>c. getCommand sv e (arg_object k) (c, db0) =
      bnd (reply (bulk (length v) (v @ until_nul (env_tail e))) c) (\<lambda>c. Inr (c, db1))"
    "store_inv e db1" "kv_look e db1 = kv_look e db0" "mem_look db1 = (mem_look db0)(k \<mapsto> v)"
    "fc_look (e, flashCache db1) = (fc_look (e, flashCache db0))(k := None)" by blast
  show ?thesis
    using session_get [OF c k fits(1,2), of sv e db db1] 1 unfolding db0_def by fastforce
qed

text \<open>
  C1: a client that sets a key reads it back. In the mode of the shipped configuration and below
  the memory limit, the bytes of a \<open>set\<close> request with a key and a value without zero bytes are
  answered by \<open>+OK\<close>, the bytes of the \<open>get\<close> request that follows by the length and the bytes of
  the value, and the dictionary that the two levels of the store stand for is the old one with
  that value under that key. The key must not be one that has been evicted and waits to be
  moved to flash.
\<close>

theorem session_set_get:
  assumes mode: "lru_mode sv" and wf: "store_wf e db" and c: "client_ok c"
    and k: "key_ok k" "\<not> lru_limbo k (memLRU db)" and v: "v \<noteq> []" "good_entry k v"
    and fits: "length (enc_request [''set'', k, v]) \<le> KV_IOBUF_LEN"
    and idle: "no_pressure sv (db\<lparr>db_used := parsed_used [''set'', k, v] (db_used db)\<rparr>)"
  shows "\<exists>c1 db1 c2 db2.
    session_step sv e False (enc_request [''set'', k, v]) (c, db) =
      Inr (SessionSent (''+OK'' @ [CR, LF]), c1, db1) \<and>
    session_step sv e False (enc_request [''get'', k]) (c1, db1) =
      Inr (SessionSent (bulk (length v) v), c2, db2) \<and>
    store_wf e db2 \<and> client_ok c2 \<and> kv_look e db2 = (kv_look e db)(k \<mapsto> v)"
proof -
  from session_set [OF mode wf c k v fits idle] obtain c1 db1 where 1:
    "session_step sv e False (enc_request [''set'', k, v]) (c, db) =
      Inr (SessionSent (''+OK'' @ [CR, LF]), c1, db1)"
    "store_wf e db1" "client_ok c1" "kv_look e db1 = (kv_look e db)(k \<mapsto> v)"
    "mem_look db1 = (mem_look db)(k \<mapsto> v)" "k \<in> set (lru_order (memLRU db1))" by blast
  have "\<not> lru_limbo k (memLRU db1)" "mem_look db1 k = Some v"
    using 1(5,6) by (simp_all add: lru_limbo_def)
  moreover have "length (enc_request [''get'', k]) \<le> KV_IOBUF_LEN"
    "length (bulk (length v) v) < KV_IOBUF_LEN"
    using fits by (simp_all add: enc_request_def enc_arg_def bulk_def count_char(1))
  ultimately show ?thesis
    using session_get_mem [OF mode 1(2,3) k(1)] 1(1,4) by fastforce
qed

text \<open>A \<open>get\<close> of an unknown key is answered, and no client is served from flash again.\<close>

text \<open>
  C16: one \<open>get\<close> of an unknown key disables flash. The request is answered, but \<open>Lookup\<close> returns
  with \<open>fcache_mutex\<close> locked: afterwards every \<open>get\<close> of a key that is not in memory and every
  round of the tiering thread waits for ever.
\<close>

theorem session_miss:
  assumes mode: "lru_mode sv" and inv: "store_inv e db" and c: "client_ok c"
    and k: "key_ok k" and miss: "kv_look e db k = None"
    and fits: "length (enc_request [''get'', k]) \<le> KV_IOBUF_LEN"
  shows "\<exists>c' db'. session_step sv e False (enc_request [''get'', k]) (c, db) =
      Inr (SessionSent not_found, c', db') \<and> store_wf e db' \<and> kv_look e db' = kv_look e db \<and>
    (\<forall>c'' key j. holds key j \<longrightarrow> mem_look db' j = None \<longrightarrow>
      getCommand sv e key (c'', db') = Inl Blocked) \<and>
    bworker_flush sv e db' = Inl Blocked"
proof -
  define db0 where "db0 = db\<lparr>db_used := parsed_used [''get'', k] (db_used db)\<rparr>"
  define db1 where "db1 = db0\<lparr>flashCache := (flashCache db0)\<lparr>fcache_mutex := True\<rparr>\<rparr>"
  have ok: "holds (arg_object k) k" "store_inv e db0" "kv_look e db0 k = None"
    using k miss inv by (simp_all add: key_ok_def holds_arg db0_def)
  have none: "mem_look db0 k = None" using ok(3) by (simp add: kv_look_def split: option.splits)
  have fl: "fc_look (e, flashCache db0) k = None" using ok(3) none by (simp add: kv_look_def)
  have "mem_find sv (k @ [NUL]) db0 = Inr (None, db0)"
    using mem_find_absent [OF lru_modeD [OF mode] _ ok(1) none] ok(2) by (simp add: store_inv_def arg_object_def)
  moreover have "flashCacheLookup sv e (k @ [NUL]) db0 = Inr (None, db1)"
    using fc_Lookup_miss [OF _ fl, of "wbmode sv"] ok(2) k
    by (simp add: flashCacheLookup_def store_inv_def key_ok_def db1_def)
  ultimately have "getCommand sv e (arg_object k) (c', db0) = bnd (reply not_found c') (\<lambda>c'. Inr (c', db1))" for c'
    using mode by (simp add: getCommand_def arg_object_def lru_mode_def MODE_MEM_LRU_def
        MODE_ONLY_FLASH_def empty_reply_def not_found_def)
  from session_get [OF c k fits _ this [unfolded db0_def]] obtain c2 um where 2:
    "session_step sv e False (enc_request [''get'', k]) (c, db) =
      Inr (SessionSent not_found, c2, db1\<lparr>db_used := um\<rparr>)"
    by (auto simp: not_found_def KV_IOBUF_LEN_def)
  define db2 where "db2 = db1\<lparr>db_used := um\<rparr>"
  have L: "mem_look db1 = mem_look db0" by (rule mem_look_cong) (simp_all add: db1_def)
  have F: "fc_look (e, flashCache db1) = fc_look (e, flashCache db0)" by (simp add: db1_def)
  have "kv_look e db1 = kv_look e db0"
    using F by (auto simp: kv_look_def fun_eq_iff L split: option.split)
  then have K: "kv_look e db2 = kv_look e db" by (simp add: db2_def) (simp add: db0_def)
  have wf: "store_wf e db2"
    using ok(2) by (simp add: db2_def) (simp add: db1_def store_inv_def store_wf_def fc_inv_def
        mem_ok_def queue_ok_def)
  then have ok2: "mem_ok db2" "queue_ok db2" "flash_live db2" by (simp_all add: store_wf_def)
  have lock: "fcache_mutex (flashCache db2)" by (simp add: db2_def db1_def)
  show ?thesis
    using 2 wf K get_blocked [OF mode ok2(1) _ _ lock ok2(3)] flush_blocked [OF ok2(1,2,3) lock]
    unfolding db2_def [symmetric] by blast
qed

section \<open>Requests the session thread does not survive\<close>

text \<open>A request of one word has one argument, and two are freed after it.\<close>

lemma session_one_word:
  assumes c: "client_ok c" and w: "w = ''scan''"
  shows "session_step sv e False (enc_request [w]) (c, db) = Inl OutOfBounds"
proof -
  have "length (enc_request [w]) \<le> KV_IOBUF_LEN"
    by (simp add: w enc_request_def enc_arg_def KV_IOBUF_LEN_def count_char(1))
  then obtain c1 where 1: "parsingMessage (tcpRecv (enc_request [w]) c) (db_used db) =
      Inr (c1, parsed_used [w] (db_used db))" "cl_argv c1 = Some (map (Live \<circ> arg_object) [w])"
    using recv_parse [OF _ _ c, of "[w]" "db_used db"] w by auto
  have "\<not> msgcmp (ptr (arg_object w)) ''set''" "\<not> msgcmp (ptr (arg_object w)) ''get''"
    "msgcmp (ptr (arg_object w)) ''scan''"
    by (simp_all add: w msgcmp_def strcasecmp_eq_def arg_object_def tolower_def until_nul_def)
  then show ?thesis
    using 1 client_arg_Live [OF 1(2), of 0]
    by (simp add: session_step_def processCMD_def session_finish_def free_args_def free_arg_def)
qed

text \<open>
  Bytes that are no request end the server. After a served request, bytes that do not begin
  with an asterisk make \<open>parsingMessage\<close> return without arguments, and \<open>processCMD\<close> reads the
  first argument of the request before, which has been freed.
\<close>

lemma session_malformed:
  assumes "client_ok c" "bytes = b # bs" "b \<noteq> CHR ''*''" "cl_argv c = Some (Freed # cells)"
  shows "session_step sv e False bytes (c, db) = Inl UseAfterFree"
proof -
  let ?c = "tcpRecv bytes c"
  have "length (cl_buf ?c) = KV_IOBUF_LEN" and a: "cl_argv ?c = Some (Freed # cells)"
    using assms by (simp_all add: tcpRecv_def Let_def client_ok_def)
  moreover have "cl_buf ?c \<noteq> [] \<and> hd (cl_buf ?c) = b"
    using assms(2) by (simp add: tcpRecv_def Let_def KV_IOBUF_LEN_def)
  ultimately obtain ch1 rest where "cl_buf ?c = b # ch1 # rest"
    by (cases "cl_buf ?c"; cases "tl (cl_buf ?c)") (auto simp: KV_IOBUF_LEN_def)
  then show ?thesis
    using assms(3) a by (simp add: session_step_def parsingMessage_def processCMD_def client_arg_def)
qed

section \<open>The list of the \<open>MEM-FIFO\<close> mode\<close>

definition fifo_mode :: "kvServer \<Rightarrow> bool" where
  "fifo_mode sv \<longleftrightarrow> cache_mode sv = MODE_MEM_FIFO"

text \<open>
  What \<open>cacheAdd\<close> pushes is the variable of the failed search, a null pointer; the first
  eviction dereferences it.
\<close>

lemma fifo_pushes_null:
  assumes "fifo_mode sv" "set (memList db) \<subseteq> {None}" "cacheAdd sv key ob db = Inr db'"
  shows "set (memList db') \<subseteq> {None}"
  using assms
  by (auto simp: fifo_mode_def cacheAdd_def Let_def bnd_eq_Inr ListPushFront_def split: option.splits)

lemma fifo_evict_null:
  assumes "fifo_mode sv" "set (memList db) \<subseteq> {None}" "memList db \<noteq> []"
  shows "evict_to_queue sv db = Inl NullDeref"
proof -
  have "last (memList db) = None" using assms(2,3) last_in_set by blast
  then show ?thesis using assms by (simp add: fifo_mode_def evict_to_queue_def ListPopBack_def)
qed

section \<open>Examples\<close>

lemma sample_requests:
  "length (enc_request [''set'', ''a'', ''one'']) \<le> KV_IOBUF_LEN" "key_ok ''a''" "good_entry ''a'' ''one''"
  "length (enc_request [''get'', ''a'']) \<le> KV_IOBUF_LEN"
  by (simp_all add: enc_request_def enc_arg_def KV_IOBUF_LEN_def count_char(1) key_ok_def
      good_entry_def rec_len_def sizeof_hdr_def)

lemma sample_no_pressure:
  "no_pressure sample_sv (sample_db\<lparr>db_used := parsed_used [''set'', ''a'', ''one''] (db_used sample_db)\<rparr>)"
  by (simp add: no_pressure_def sample_sv_def sample_db_def mem_used_def parsed_used_def charge_def
      object_bytes_def sizeof_kvObject_def sizeof_msg_def)

lemma sample_store:
  "store_wf sample_env sample_db" "tiers_apart sample_env sample_db" "mem_look sample_db k = None"
  "\<not> lru_limbo k (memLRU sample_db)"
proof -
  show m: "mem_look sample_db k = None" for k by (simp add: mem_look_def sample_db_def)
  show "store_wf sample_env sample_db" using sample_inv(1) by (simp add: store_inv_wf)
  show "tiers_apart sample_env sample_db" using m by (simp add: tiers_apart_def)
  show "\<not> lru_limbo k (memLRU sample_db)" by (simp add: lru_limbo_def sample_db_def)
qed

theorem session_set_get_witness:
  "\<exists>c1 db1 c2 db2. initServer sample_sv sample_env 0 0 [] = Inr sample_db \<and>
    session_step sample_sv sample_env False (enc_request [''set'', ''a'', ''one'']) (sample_client, sample_db) =
      Inr (SessionSent (''+OK'' @ [CR, LF]), c1, db1) \<and>
    session_step sample_sv sample_env False (enc_request [''get'', ''a'']) (c1, db1) =
      Inr (SessionSent (''$3'' @ [CR, LF] @ ''one'' @ [CR, LF]), c2, db2)"
proof -
  have "bulk (length ''one'') ''one'' = ''$3'' @ [CR, LF] @ ''one'' @ [CR, LF]"
    by (simp add: bulk_def count_char(1) char_of_eq_iff take_bit_nat_eq_self)
  with session_set_get [OF sample_modes(1) sample_store(1) sample_client_ok sample_requests(2)
      sample_store(4) _ sample_requests(3,1) sample_no_pressure] sample_start show ?thesis by fastforce
qed

theorem store_run_dict_witness:
  "\<exists>c' db. setCommand sample_sv sample_env (arg_object ''a'') (arg_object ''one'') (sample_client, sample_db) =
      Inr (c', db) \<and> kv_look sample_env db = [''a'' \<mapsto> ''one'']"
proof -
  obtain c' db where 1: "setCommand sample_sv sample_env (arg_object ''a'') (arg_object ''one'')
      (sample_client, sample_db) = Inr (c', db)" using sample_set by blast
  have "store_step sample_sv sample_env (EvSet ''a'' ''one'') sample_db db"
    using 1 sample_requests(3) by (intro store_step.set) simp_all
  then have "store_reach sample_sv sample_env sample_db ([] @ [EvSet ''a'' ''one'']) db"
    by (rule store_reach.step [OF store_reach.start])
  from store_run_dict [OF sample_modes(1) sample_store(1,2) this] sample_inv(3) 1 show ?thesis by simp
qed

lemma sample_on_flash:
  "\<exists>db. initServer sample_sv sample_env 0 0 sample_dir = Inr db \<and> store_inv sample_env db \<and>
    fc_room (flashCache db) 100 \<and> mem_look db = Map.empty \<and>
    fc_look (sample_env, flashCache db) = [''a'' \<mapsto> ''one''] \<and> memLRU db = lru_new \<and> memQueue db = []"
proof -
  obtain db where db: "initServer sample_sv sample_env 0 0 sample_dir = Inr db" "store_inv sample_env db"
    "fc_room (flashCache db) 100" "kv_look sample_env db = [''a'' \<mapsto> ''one'']" using sample_restart by blast
  have idle: "memLRU db = lru_new" "memQueue db = []"
    using db(1) by (auto simp: initServer_def bnd_eq_Inr LRUCacheCreate_def QueueCreate_def Let_def)
  then have m: "mem_look db = Map.empty" by (simp add: mem_look_def fun_eq_iff)
  then have "fc_look (sample_env, flashCache db) = [''a'' \<mapsto> ''one'']"
    using db(4) by (simp add: kv_look_def fun_eq_iff)
  with db idle m show ?thesis by blast
qed

theorem session_get_flash_witness:
  "\<exists>db c' db'. initServer sample_sv sample_env 0 0 sample_dir = Inr db \<and>
    session_step sample_sv sample_env False (enc_request [''get'', ''a'']) (sample_client, db) =
      Inr (SessionSent (bulk 3 ''one''), c', db') \<and> mem_look db' = [''a'' \<mapsto> ''one'']"
proof -
  obtain db where db: "initServer sample_sv sample_env 0 0 sample_dir = Inr db" "store_inv sample_env db"
    "mem_look db = Map.empty" "fc_look (sample_env, flashCache db) = [''a'' \<mapsto> ''one'']"
    using sample_on_flash by blast
  have t: "until_nul (env_tail sample_env) = []" by (simp add: sample_env_def)
  have len: "length (bulk 3 ''one'') < KV_IOBUF_LEN" by (simp add: bulk_def count_char(1) KV_IOBUF_LEN_def)
  from session_get_flash [OF sample_modes(1) db(2) sample_client_ok sample_requests(2) _ _ sample_requests(4),
      of "''one''"] db(1,3,4) len show ?thesis by (fastforce simp: t numeral_3_eq_3)
qed

theorem session_miss_witness:
  "\<exists>c' db'. session_step sample_sv sample_env False (enc_request [''get'', ''a'']) (sample_client, sample_db) =
      Inr (SessionSent not_found, c', db') \<and>
    getCommand sample_sv sample_env (arg_object ''one'') (c', db') = Inl Blocked"
proof -
  from session_miss [OF sample_modes(1) sample_inv(1) sample_client_ok sample_requests(2) _ sample_requests(4)]
  obtain c' db' where 1: "session_step sample_sv sample_env False (enc_request [''get'', ''a'']) (sample_client, sample_db) =
      Inr (SessionSent not_found, c', db')" "kv_look sample_env db' = kv_look sample_env sample_db"
    "\<forall>c'' key j. holds key j \<longrightarrow> mem_look db' j = None \<longrightarrow>
      getCommand sample_sv sample_env key (c'', db') = Inl Blocked"
    using sample_inv(3) by auto
  have "mem_look db' ''one'' = None"
    using fun_cong [OF 1(2), of "''one''"] sample_inv(3) by (simp add: kv_look_def split: option.splits)
  with 1 show ?thesis using sample_objects(2) by blast
qed

end
