(* ===== verification/Startup.thy ===== *)
theory Startup
  imports Session
begin

text \<open>
  The start of the server: \<open>main\<close> and \<open>initServer\<close> of \<open>server.c\<close> and \<open>bworkerInit\<close> of
  \<open>bworker.c\<close>, from the arguments of the program to the state the threads start from.
\<close>

section \<open>The operating system at start\<close>

text \<open>What the calls of the start return; \<open>socket\<close> returns a descriptor, or -1.\<close>

record os_env =
  os_conf :: conf_env
  os_file :: "byte list \<Rightarrow> byte list option"
  os_socket :: int
  os_bind :: "u16 \<Rightarrow> bool"
  os_listen :: bool
  os_sem :: bool
  os_thread :: "nat \<Rightarrow> bool"

section \<open>Threads\<close>

fun start_threads :: "(nat \<Rightarrow> bool) \<Rightarrow> nat list \<Rightarrow> bool list \<Rightarrow> bool list res" where
  "start_threads ok [] slots = Inr slots"
| "start_threads ok (i # is) slots =
     (if \<not> ok i then Inl ProcessExit
      else if length slots \<le> i then Inl OutOfBounds
      else start_threads ok is (slots[i := True]))"

definition bworkerInit :: "bool \<Rightarrow> (nat \<Rightarrow> bool) \<Rightarrow> u32 \<Rightarrow> acceptor res" where
  "bworkerInit sem_ok thread_ok um =
     (if \<not> sem_ok then Inl ProcessExit
      else
        bnd (start_threads thread_ok [0..<NUM_BWORKER] (replicate MAX_BWORKER False)) (\<lambda>slots.
          Inr \<lparr>num_client = 0, num_connected_client = 0, clients = replicate MAX_NUM_CLIENT None,
            worker_slots = slots, acc_used = um\<rparr>))"

text \<open>Both threads run, or the process has ended.\<close>

lemma bworkerInit_ok:
  "bworkerInit sem_ok thread_ok um =
     (if sem_ok \<and> thread_ok 0 \<and> thread_ok 1 then Inr (acceptor_init um) else Inl ProcessExit)"
  by (auto simp: bworkerInit_def acceptor_init_def NUM_BWORKER_def MAX_BWORKER_def MAX_NUM_CLIENT_def
      upt_rec numeral_eq_Suc)

section \<open>The program\<close>

definition server_main ::
  "os_env \<Rightarrow> byte list list \<Rightarrow> env \<Rightarrow> u64 \<Rightarrow> nat \<Rightarrow> (byte list \<times> byte list) list \<Rightarrow>
   (kvServer \<times> (int \<times> int) \<times> kvDb \<times> acceptor) res" where
  "server_main os argv e gsize gfile dir =
     (if length argv < 2 then Inl ProcessExit
      else
        bnd (loadServerConfig (os_conf os) (os_file os (argv ! 1)) server_zero) (\<lambda>sv.
        bnd (tcpConnect (os_socket os) (os_bind os) (os_listen os) (sint (sv_port sv))) (\<lambda>ipfd.
        bnd (initServer sv e gsize gfile dir) (\<lambda>db.
        bnd (bworkerInit (os_sem os) (os_thread os) (db_used db)) (\<lambda>acc.
          Inr (sv, ipfd, db, acc))))))"

lemma sample_start_any:
  "\<exists>db. initServer sample_sv e gsize gfile [] = Inr db \<and> db_used db = 65"
  by (simp add: initServer_def flashCacheCreate_def fc_Open_def fc_construct_def fc_NewCacheFile_def
      cf_Create_def cf_new_def Let_def sample_sv_def server_zero_def MODE_MEM_LRU_def MODE_MEM_FIFO_def
      charge_def sizeof_kvDb_def)

lemma accept_three:
  "\<exists>a. accept_run [AcceptFd x, AcceptFd y, AcceptFd z] (acceptor_init 65) = Inr a \<and> acc_used a = 49421"
  by (simp add: accept_step_def tcpAccept_def acceptor_init_def MAX_NUM_CLIENT_def NUM_BWORKER_def
      MAX_BWORKER_def charge_def sizeof_msg_def sizeof_kvClient_def KV_IOBUF_LEN_def Let_def)

section \<open>Properties\<close>

text \<open>
  C39: the program as it is shipped. Started with the configuration file of the repository on an
  empty directory, with any port free and no call failing, the server gets through \<open>main\<close>: it
  listens, runs the recency cache without write buffers and with a limit of 40960 bytes, its
  store satisfies the invariant and is empty, and the threads are there. The buffers of three
  clients alone take more than the limit.
\<close>

theorem shipped_server_starts:
  assumes "env_ok e" "reads_whole e" and "os_file os conf = Some shipped_conf"
    and "os_socket os \<noteq> - 1" "os_bind os p" "os_listen os" "os_sem os" "os_thread os 0" "os_thread os 1"
  shows "\<exists>sv port db acc. server_main os [prog, conf] e gsize gfile [] =
      Inr (sv, (os_socket os, port), db, acc) \<and>
    lru_mode sv \<and> maxmemory sv = 40960 \<and> os_bind os (word_of_int port) \<and> store_inv e db \<and>
    kv_look e db = Map.empty \<and> acceptor_inv acc \<and>
    (\<exists>a. accept_run [AcceptFd x, AcceptFd y, AcceptFd z] acc = Inr a \<and>
      maxmemory sv < ucast (acc_used a))"
proof -
  have sv: "loadServerConfig (os_conf os) (os_file os conf) server_zero = Inr sample_sv"
    using shipped_configuration [of "os_conf os"] assms(3) by (simp add: sample_sv_def)
  obtain n where n: "tcp_bind (os_bind os) 19501 = Inr (19501 + int n)"
    "os_bind os (word_of_int (19501 + int n))"
    using tcp_bind_port [of "os_bind os" p 19501] assms(5) by (auto simp: INT_MAX_def)
  have port: "tcpConnect (os_socket os) (os_bind os) (os_listen os) (sint (sv_port sample_sv)) =
      Inr (os_socket os, 19501 + int n)"
    using n(1) assms(4,6) by (simp add: tcpConnect_def sample_sv_def)
  have "\<exists>db. initServer sample_sv e gsize gfile [] = Inr db \<and> store_inv e db \<and>
      fc_room (flashCache db) 0 \<and>
      kv_look e db = map_of (concat (map snd ([] :: (u32 \<times> (byte list \<times> byte list) list) list)))"
    using assms(1,2) by (intro initServer_store [where m = 0]) (simp_all add: rc_files_def, simp_all add: sample_sv_def)
  with sample_start_any [of e gsize gfile] obtain db where
    db: "initServer sample_sv e gsize gfile [] = Inr db" "store_inv e db" "kv_look e db = Map.empty"
      "db_used db = 65" by auto
  have acc: "bworkerInit (os_sem os) (os_thread os) (db_used db) = Inr (acceptor_init 65)"
    using assms(7-9) db(4) by (simp add: bworkerInit_ok)
  have "server_main os [prog, conf] e gsize gfile [] =
      Inr (sample_sv, (os_socket os, 19501 + int n), db, acceptor_init 65)"
    using sv port db(1) acc by (simp add: server_main_def)
  moreover have "maxmemory sample_sv = 40960" by (simp add: sample_sv_def)
  ultimately show ?thesis
    using n(2) db(2,3) accept_three [of x y z] acceptor_inv_init [of 65] by auto
qed

theorem shipped_server_starts_witness:
  "\<exists>sv port db acc. server_main \<lparr>os_conf = \<lparr>can_open = \<lambda>_. True, can_chdir = \<lambda>_. True\<rparr>,
      os_file = [''conf/server.conf'' \<mapsto> shipped_conf], os_socket = 3, os_bind = (\<lambda>p. p = 20000),
      os_listen = True, os_sem = True, os_thread = (\<lambda>_. True)\<rparr>
      [''server'', ''conf/server.conf''] sample_env 0 0 [] = Inr (sv, (3, port), db, acc) \<and>
    store_inv sample_env db"
  using shipped_server_starts [where e = sample_env and conf = "''conf/server.conf''" and p = 20000 and
      os = "\<lparr>os_conf = \<lparr>can_open = \<lambda>_. True, can_chdir = \<lambda>_. True\<rparr>,
      os_file = [''conf/server.conf'' \<mapsto> shipped_conf], os_socket = 3, os_bind = (\<lambda>p. p = 20000),
      os_listen = True, os_sem = True, os_thread = (\<lambda>_. True)\<rparr>" and prog = "''server''" and
      gsize = 0 and gfile = 0] by fastforce

end
