(* ===== verification/Durable.thy ===== *)
theory Durable
  imports Session
begin

text \<open>
  The store over restarts of the server, in the mode of the shipped configuration: what is on
  disk at any time agrees with the dictionary that the two levels stand for, so that a process
  that starts again from the directory finds no wrong value, and all of them once the queue
  has been drained.
\<close>

section \<open>The directory agrees with the dictionary\<close>

text \<open>
  \<open>durable e db\<close>: the files are logs of records whose values are those of the dictionary, and
  every key that flash holds has a record.
\<close>

definition durable :: "env \<Rightarrow> kvDb \<Rightarrow> bool" where
  "durable e db \<longleftrightarrow> (\<exists>L. disk_ok e (flashCache db) L \<and>
     (\<forall>k v. (k, v) \<in> (\<Union>cid. set (L cid)) \<longrightarrow> kv_look e db k = Some v) \<and>
     (\<forall>k. fc_look (e, flashCache db) k \<noteq> None \<longrightarrow> (\<exists>v. (k, v) \<in> (\<Union>cid. set (L cid)))))"

lemma disk_ok_cong:
  assumes "fc_dir fc' = fc_dir fc" "writer_cache_id fc' = writer_cache_id fc"
  shows "disk_ok e fc' L = disk_ok e fc L"
  using assms by (simp add: disk_ok_def fc_bytes_def)

lemma durable_frame:
  assumes "durable e db" "fc_dir (flashCache db') = fc_dir (flashCache db)"
    and "writer_cache_id (flashCache db') = writer_cache_id (flashCache db)"
    and "\<And>k. fc_look (e, flashCache db') k \<noteq> None \<Longrightarrow> fc_look (e, flashCache db) k \<noteq> None"
    and "\<And>k v. kv_look e db k = Some v \<Longrightarrow> kv_look e db' k = Some v"
  shows "durable e db'"
  using assms unfolding durable_def disk_ok_cong [OF assms(2,3)] by meson

text \<open>A \<open>get\<close> writes nothing, and removes at most a key from the index.\<close>

lemma fc_Lookup_frame:
  "fc_Lookup w e k fc = Inr (r, fc') \<Longrightarrow> fc_dir fc' = fc_dir fc \<and>
   writer_cache_id fc' = writer_cache_id fc \<and> block_index (fc_meta fc') = block_index (fc_meta fc)"
  by (auto simp: fc_Lookup_def fc_lock_def fc_unlock_def meta_Lookup_file_def bnd_eq_Inr Let_def
      split: if_splits option.splits)

lemma cacheAdd_flash: "cacheAdd sv key ob db = Inr db' \<Longrightarrow> flashCache db' = flashCache db"
  by (auto simp: cacheAdd_def bnd_eq_Inr Let_def db_set_ent_def split: if_splits option.splits)

lemma mem_find_flash: "mem_find sv kbuf db = Inr (r, db') \<Longrightarrow> flashCache db' = flashCache db"
  by (auto simp: mem_find_def bnd_eq_Inr split: if_splits option.splits)

lemma getCommand_frame:
  assumes "getCommand sv e key (c, db) = Inr (c', db')"
  shows "fc_dir (flashCache db') = fc_dir (flashCache db) \<and>
    writer_cache_id (flashCache db') = writer_cache_id (flashCache db) \<and>
    (\<forall>k. map_of (block_index (fc_meta (flashCache db))) k = None \<longrightarrow>
       map_of (block_index (fc_meta (flashCache db'))) k = None)"
  using assms
  by (auto simp: getCommand_def flashCacheLookup_def flashCacheMetakeyDelete_def fc_DeleteMetaData_def
      map_of_meta_Erase bnd_eq_Inr Let_def dest!: fc_Lookup_frame cacheAdd_flash mem_find_flash
      split: if_splits option.splits)


section \<open>Every step keeps it\<close>

lemma durable_insert:
  assumes dur: "durable e db" and app: "appended e k v (flashCache db) (flashCache db')" "good_entry k v"
    and look: "fc_look (e, flashCache db') = (if fc_look (e, flashCache db) k = None
      then (fc_look (e, flashCache db))(k \<mapsto> v) else fc_look (e, flashCache db))"
    and kv: "kv_look e db' = kv_look e db" "kv_look e db k = Some v"
  shows "durable e db'"
proof -
  from dur obtain L where L: "disk_ok e (flashCache db) L"
    "\<forall>k v. (k, v) \<in> (\<Union>cid. set (L cid)) \<longrightarrow> kv_look e db k = Some v"
    "\<forall>k. fc_look (e, flashCache db) k \<noteq> None \<longrightarrow> (\<exists>v. (k, v) \<in> (\<Union>cid. set (L cid)))"
    unfolding durable_def by blast
  from disk_ok_appended [OF L(1) app] obtain cid where
    cid: "disk_ok e (flashCache db') (L(cid := L cid @ [(k, v)]))" by blast
  have recs: "(\<Union>c. set ((L(cid := L cid @ [(k, v)])) c)) = insert (k, v) (\<Union>c. set (L c))"
    by (auto split: if_splits)
  show ?thesis
    unfolding durable_def
  proof (intro exI [of _ "L(cid := L cid @ [(k, v)])"] conjI cid, unfold recs)
    show "\<forall>j w. (j, w) \<in> insert (k, v) (\<Union>c. set (L c)) \<longrightarrow> kv_look e db' j = Some w"
      using L(2) kv by auto
    show "\<forall>j. fc_look (e, flashCache db') j \<noteq> None \<longrightarrow> (\<exists>w. (j, w) \<in> insert (k, v) (\<Union>c. set (L c)))"
    proof (intro allI impI)
      fix j assume "fc_look (e, flashCache db') j \<noteq> None"
      then have "j = k \<or> fc_look (e, flashCache db) j \<noteq> None" using look by (auto split: if_splits)
      then show "\<exists>w. (j, w) \<in> insert (k, v) (\<Union>c. set (L c))" using L(3) by blast
    qed
  qed
qed

lemma durable_step:
  assumes mode: "lru_mode sv" and wf: "store_wf e db" and apart: "tiers_apart e db"
    and step: "store_step sv e ev db db'" and new: "\<forall>k \<in> set (written [ev]). kv_look e db k = None"
    and dur: "durable e db"
  shows "durable e db'"
proof -
  have fl: "\<forall>k \<in> set (written [ev]). fc_look (e, flashCache db) k = None"
    using new by (auto simp: kv_look_def split: option.splits)
  from store_step_dict [OF mode apart wf step fl] have kv: "kv_look e db' = dict_next ev (kv_look e db)"
    by blast
  have wf': "store_wf e db'" using store_step_wf [OF mode step wf] .
  from step show ?thesis
  proof (cases rule: store_step.cases)
    case (check busy)
    from memUsedCheck_lru [OF mode wf check(2)] have "flashCache db' = flashCache db" by blast
    with kv check(1) show ?thesis by (intro durable_frame [OF dur]) simp_all
  next
    case (set c key k v c')
    have "flashCache db' = flashCache db"
      using set(5) mode by (auto simp: setCommand_def bnd_eq_Inr lru_mode_def MODE_MEM_LRU_def
          MODE_ONLY_FLASH_def dest: cacheAdd_flash split: if_splits)
    with kv set(1) new show ?thesis by (intro durable_frame [OF dur]) auto
  next
    case (get c key k c' out)
    note G = getCommand_frame [OF get(4)]
    have w: "fc_wf e (flashCache db)" "fc_wf e (flashCache db')" using wf wf' by (simp_all add: store_wf_def)
    have "fc_look (e, flashCache db) j \<noteq> None" if "fc_look (e, flashCache db') j \<noteq> None" for j
      using that G fc_look_eq(1) [OF w(1), of j] fc_look_eq(1) [OF w(2), of j] by fastforce
    with G kv get(1) show ?thesis by (intro durable_frame [OF dur]) simp_all
  next
    case (flush n)
    obtain p q where q: "store_inv e db" "memQueue db = p # q" by (rule flush_ready [OF wf flush(3)])
    from bworker_flush_lru [OF mode q flush(2)] flush(3) obtain k v where F:
      "mem_look db k = Some v" "fc_look (e, flashCache db') = (if fc_look (e, flashCache db) k = None
        then (fc_look (e, flashCache db))(k \<mapsto> v) else fc_look (e, flashCache db))"
      "appended e k v (flashCache db) (flashCache db')" "good_entry k v" by auto
    then show ?thesis
      using kv flush(1) by (intro durable_insert [OF dur F(3,4,2)]) (simp_all add: kv_look_def)
  qed
qed

lemma durable_run:
  assumes mode: "lru_mode sv" and wf: "store_wf e db0" and apart: "tiers_apart e db0" and dur: "durable e db0"
  shows "store_reach sv e db0 evs db \<Longrightarrow> distinct (written evs) \<Longrightarrow>
    \<forall>k \<in> set (written evs). kv_look e db0 k = None \<Longrightarrow> durable e db"
proof (induction rule: store_reach.induct)
  case start
  then show ?case using dur by simp
next
  case (step evs db ev db')
  then have d: "distinct (written evs)" "\<forall>k \<in> set (written evs). kv_look e db0 k = None" "durable e db"
    by (simp_all add: written_append)
  from store_run [OF mode wf apart step.hyps(1) d(1,2)] have run: "store_wf e db" "tiers_apart e db"
    "kv_look e db = fold dict_next evs (kv_look e db0)" by blast+
  have "kv_look e db k = None" if "k \<in> set (written [ev])" for k
  proof -
    have "k \<notin> set (written evs)" "kv_look e db0 k = None"
      using that step.prems by (auto simp: written_append)
    then show ?thesis using fold_dict_next_other run(3) by metis
  qed
  then show ?case using durable_step [OF mode run(1,2) step.hyps(2) _ d(3)] by blast
qed

section \<open>Starting again\<close>

text \<open>A process that starts on the directory of another one.\<close>

text \<open>\<open>initServer\<close> on a directory that \<open>Open\<close> gets through: an empty memory over the flash cache.\<close>

lemma initServer_flash:
  assumes mode: "lru_mode sv" and dir: "flashCache_dir sv \<noteq> None"
    and fc: "fc_Open e (fc_construct (flashCache_size sv) (flashCache_file_size sv)
       (ucast (flashCache_writebuffer_size sv)) gsize gfile dir) = Inr (0, fc)" "fc_inv (e, fc)"
  obtains db where "initServer sv e gsize gfile dir = Inr db" "flashCache db = fc" "store_inv e db" "tiers_apart e db"
    "kv_look e db = fc_look (e, fc)"
proof -
  have "\<not> cache_mode sv = MODE_MEM_FIFO"
    using mode by (simp add: lru_mode_def MODE_MEM_LRU_def MODE_MEM_FIFO_def)
  then obtain db where db: "initServer sv e gsize gfile dir = Inr db" "flashCache db = fc"
    "memLRU db = lru_new" "memQueue db = []" "sem_bworker db = 0" "flash_live db" "db_ents db = []"
    using fc(1) dir
    by (auto simp: initServer_def flashCacheCreate_def Let_def LRUCacheCreate_def QueueCreate_def)
  have mem: "mem_look db = Map.empty" by (simp add: mem_look_def db fun_eq_iff)
  show ?thesis
  proof
    show "store_inv e db" using fc(2) db by (simp add: store_inv_def mem_ok_def queue_ok_def lru_inv_new)
    show "tiers_apart e db" by (simp add: tiers_apart_def mem)
    show "kv_look e db = fc_look (e, fc)" by (simp add: kv_look_def mem db(2) fun_eq_iff)
  qed (rule db)+
qed

lemma restart_durable:
  assumes e: "env_ok e" "reads_whole e" and mode: "lru_mode sv"
    and conf: "flashCache_dir sv \<noteq> None" "unat (flashCache_file_size sv) \<le> 2 ^ 31"
    and dur: "durable e db" and room: "fc_room (flashCache db) (Suc n)"
    and dir: "distinct (map fst dir)" "map_of dir = map_of (fc_dir (flashCache db))"
  shows "\<exists>db'. initServer sv e gsize gfile dir = Inr db' \<and> store_inv e db' \<and> tiers_apart e db' \<and>
    durable e db' \<and> fc_room (flashCache db') n \<and> kv_look e db' \<subseteq>\<^sub>m kv_look e db \<and>
    dom (fc_look (e, flashCache db)) \<subseteq> dom (kv_look e db')"
proof -
  from dur obtain L where L: "disk_ok e (flashCache db) L"
    "\<forall>k v. (k, v) \<in> (\<Union>cid. set (L cid)) \<longrightarrow> kv_look e db k = Some v"
    "\<forall>k. fc_look (e, flashCache db) k \<noteq> None \<longrightarrow> (\<exists>v. (k, v) \<in> (\<Union>cid. set (L cid)))"
    unfolding durable_def by blast
  have r: "unat (writer_cache_id (flashCache db)) + Suc n < 2 ^ 32" using room by (simp add: fc_room_def)
  from restart_look [OF e L(1) r conf(2) dir(2,1), where cache_size = "flashCache_size sv"
      and wbs = "ucast (flashCache_writebuffer_size sv)" and gs = gsize and gf = gfile]
  obtain fc where fc:
    "fc_Open e (fc_construct (flashCache_size sv) (flashCache_file_size sv)
       (ucast (flashCache_writebuffer_size sv)) gsize gfile dir) = Inr (0, fc)"
    "fc_inv (e, fc)" "fc_room fc n" "disk_ok e fc L"
    "\<forall>k. (\<exists>v. (k, v) \<in> (\<Union>cid. set (L cid))) \<longleftrightarrow> fc_look (e, fc) k \<noteq> None"
    "\<forall>k v. fc_look (e, fc) k = Some v \<longrightarrow> (k, v) \<in> (\<Union>cid. set (L cid))"
    by (elim exE conjE) (rule that; assumption)
  obtain db' where db': "initServer sv e gsize gfile dir = Inr db'" "flashCache db' = fc" "store_inv e db'"
    "tiers_apart e db'" and kv: "kv_look e db' = fc_look (e, fc)"
    by (rule initServer_flash [OF mode conf(1) fc(1,2)])
  have sound: "kv_look e db k = Some v" if "fc_look (e, fc) k = Some v" for k v
    using that fc(6) L(2) by blast
  have has: "fc_look (e, fc) k = Some v" if kv: "(k, v) \<in> (\<Union>cid. set (L cid))" for k v
  proof -
    obtain w where w: "fc_look (e, fc) k = Some w" using fc(5) kv by blast
    moreover have "kv_look e db k = Some v" using L(2) kv by blast
    ultimately show ?thesis using sound [OF w] by simp
  qed
  have "durable e db'"
    unfolding durable_def kv db'(2) using has fc(4,5) by (intro exI [of _ L] conjI allI impI) simp_all
  moreover have "kv_look e db' \<subseteq>\<^sub>m kv_look e db"
    unfolding kv by (auto simp: map_le_def sound)
  moreover have "dom (fc_look (e, flashCache db)) \<subseteq> dom (kv_look e db')"
    unfolding kv using L(3) has by blast
  ultimately show ?thesis using db' fc(3) by blast
qed


section \<open>A server that is killed and started again\<close>

text \<open>
  The lives of a server on one directory: it starts on the empty directory, runs, may be killed
  between any two events, and then starts again on the files that are there, in whatever order
  \<open>readdir\<close> lists them. \<open>evs\<close> is what happened in all lives together.
\<close>

definition relisted :: "(byte list \<times> byte list) list \<Rightarrow> flash_cache \<Rightarrow> bool" where
  "relisted dir fc \<longleftrightarrow> distinct (map fst dir) \<and> map_of dir = map_of (fc_dir fc)"

inductive server_lives :: "kvServer \<Rightarrow> env \<Rightarrow> store_event list \<Rightarrow> kvDb \<Rightarrow> bool" for sv e where
  first: "initServer sv e gsize gfile [] = Inr db \<Longrightarrow> server_lives sv e [] db"
| event: "server_lives sv e evs db \<Longrightarrow> store_step sv e ev db db' \<Longrightarrow> server_lives sv e (evs @ [ev]) db'"
| killed: "server_lives sv e evs db \<Longrightarrow> fc_room (flashCache db) 1 \<Longrightarrow> relisted dir (flashCache db) \<Longrightarrow>
    initServer sv e gsize gfile dir = Inr db' \<Longrightarrow> server_lives sv e evs db'"

definition server_conf :: "kvServer \<Rightarrow> env \<Rightarrow> bool" where
  "server_conf sv e \<longleftrightarrow> env_ok e \<and> reads_whole e \<and> lru_mode sv \<and> flashCache_dir sv \<noteq> None \<and>
     unat (flashCache_file_size sv) \<le> 2 ^ 31"

lemma server_first:
  assumes conf: "server_conf sv e" and run: "initServer sv e gsize gfile [] = Inr db"
  shows "store_inv e db \<and> tiers_apart e db \<and> durable e db \<and> kv_look e db = Map.empty"
proof -
  have e: "env_ok e" "unat (flashCache_file_size sv) \<le> 2 ^ 31" "flashCache_dir sv \<noteq> None" "lru_mode sv"
    using conf by (simp_all add: server_conf_def)
  from fc_Open_empty [OF e(1,2), where n = 0 and cache_size = "flashCache_size sv"
      and wbs = "ucast (flashCache_writebuffer_size sv)" and gs = gsize and gf = gfile]
  obtain fc where fc: "fc_Open e (fc_construct (flashCache_size sv) (flashCache_file_size sv)
       (ucast (flashCache_writebuffer_size sv)) gsize gfile []) = Inr (0, fc)"
    "fc_inv (e, fc)" "disk_ok e fc (\<lambda>_. [])" "fc_look (e, fc) = Map.empty" by auto
  have "\<not> cache_mode sv = MODE_MEM_FIFO"
    using e(4) by (simp add: lru_mode_def MODE_MEM_LRU_def MODE_MEM_FIFO_def)
  then have db: "flashCache db = fc" "memLRU db = lru_new" "memQueue db = []" "sem_bworker db = 0"
    "flash_live db" "db_ents db = []"
    using run fc(1) e(3)
    by (auto simp: initServer_def flashCacheCreate_def Let_def LRUCacheCreate_def QueueCreate_def)
  have m: "mem_look db = Map.empty" by (simp add: mem_look_def db fun_eq_iff)
  have "store_inv e db" using fc(2) db by (simp add: store_inv_def mem_ok_def queue_ok_def lru_inv_new)
  moreover have "durable e db"
    unfolding durable_def using fc(3,4) by (intro exI [of _ "\<lambda>_. []"]) (simp add: db(1))
  ultimately show ?thesis using m fc(4) by (simp add: kv_look_def tiers_apart_def db(1) fun_eq_iff)
qed

lemma server_restart:
  assumes "server_conf sv e" "durable e db" "fc_room (flashCache db) (Suc n)" "relisted dir (flashCache db)"
  shows "\<exists>db'. initServer sv e gsize gfile dir = Inr db' \<and> store_inv e db' \<and> tiers_apart e db' \<and>
    durable e db' \<and> fc_room (flashCache db') n \<and> kv_look e db' \<subseteq>\<^sub>m kv_look e db \<and>
    dom (fc_look (e, flashCache db)) \<subseteq> dom (kv_look e db')"
  using assms unfolding server_conf_def relisted_def by (intro restart_durable) simp_all

text \<open>
  The answer to a \<open>get\<close> of a key is right when it is the value that has been written, or that
  there is none.
\<close>

definition never_wrong :: "byte list \<Rightarrow> store_event \<Rightarrow> (byte list \<rightharpoonup> byte list) \<Rightarrow> bool" where
  "never_wrong tail ev m \<longleftrightarrow> dict_answer tail ev m \<or> (\<exists>k. ev = EvGet k not_found)"

lemma dict_answer_sub:
  assumes "dict_answer tail ev m'" "m' \<subseteq>\<^sub>m m"
  shows "never_wrong tail ev m"
proof (cases ev)
  case (EvGet k out)
  show ?thesis
  proof (cases "m' k")
    case None
    then show ?thesis using assms(1) EvGet by (simp add: never_wrong_def)
  next
    case (Some v)
    then have "m k = Some v" using assms(2) by (auto simp: map_le_def dom_def)
    then show ?thesis using assms(1) EvGet Some by (simp add: never_wrong_def)
  qed
qed (simp_all add: never_wrong_def)

lemma dict_next_sub: "m' \<subseteq>\<^sub>m m \<Longrightarrow> dict_next ev m' \<subseteq>\<^sub>m dict_next ev m"
  by (cases ev) (auto intro: map_le_upd)

lemma fold_dict_next_None: "k \<notin> set (written evs) \<Longrightarrow> fold dict_next evs Map.empty k = None"
  using fold_dict_next_other by fastforce

text \<open>The state after any number of lives.\<close>

lemma lives_inv:
  assumes conf: "server_conf sv e"
  shows "server_lives sv e evs db \<Longrightarrow> distinct (written evs) \<Longrightarrow>
    store_wf e db \<and> tiers_apart e db \<and> durable e db \<and> kv_look e db \<subseteq>\<^sub>m fold dict_next evs Map.empty \<and>
    (\<forall>evs1 ev evs2. evs = evs1 @ ev # evs2 \<longrightarrow>
      never_wrong (env_tail e) ev (fold dict_next evs1 Map.empty))"
proof (induction rule: server_lives.induct)
  case (first gsize gfile db)
  from server_first [OF conf first(1)] show ?case by (simp add: store_inv_wf)
next
  case (event evs db ev db')
  have d: "distinct (written evs)" using event.prems by (simp add: written_append)
  from event.IH [OF d] have IH: "store_wf e db" "tiers_apart e db" "durable e db"
    "kv_look e db \<subseteq>\<^sub>m fold dict_next evs Map.empty"
    "\<forall>evs1 ev evs2. evs = evs1 @ ev # evs2 \<longrightarrow> never_wrong (env_tail e) ev (fold dict_next evs1 Map.empty)"
    by blast+
  have mode: "lru_mode sv" using conf by (simp add: server_conf_def)
  have new: "kv_look e db k = None" if "k \<in> set (written [ev])" for k
  proof -
    have "k \<notin> set (written evs)" using that event.prems by (auto simp: written_append)
    then have "k \<notin> dom (fold dict_next evs Map.empty)" by (simp add: fold_dict_next_None domIff)
    then show ?thesis using map_le_implies_dom_le [OF IH(4)] by blast
  qed
  then have fl: "\<forall>k \<in> set (written [ev]). fc_look (e, flashCache db) k = None"
    by (metis kv_look_def option.simps(3) option.simps(4) option.exhaust option.simps(5))
  from store_step_dict [OF mode IH(2,1) event.hyps(2) fl] have S: "tiers_apart e db'"
    "kv_look e db' = dict_next ev (kv_look e db)" "dict_answer (env_tail e) ev (kv_look e db)" by blast+
  have "store_wf e db'" by (rule store_step_wf [OF mode event.hyps(2) IH(1)])
  moreover have "durable e db'" using durable_step [OF mode IH(1,2) event.hyps(2) _ IH(3)] new by blast
  moreover have "kv_look e db' \<subseteq>\<^sub>m fold dict_next (evs @ [ev]) Map.empty"
    using dict_next_sub [OF IH(4)] by (simp add: S(2))
  moreover have "never_wrong (env_tail e) v (fold dict_next evs1 Map.empty)"
    if "evs @ [ev] = evs1 @ v # evs2" for evs1 v evs2
  proof (cases evs2 rule: rev_cases)
    case Nil
    then show ?thesis using that dict_answer_sub [OF S(3) IH(4)] by simp
  next
    case (snoc evs3 w)
    then have "evs = evs1 @ v # evs3" using that by simp
    then show ?thesis using IH(5) by blast
  qed
  ultimately show ?case using S(1) by blast
next
  case (killed evs db dir gsize gfile db')
  from killed.IH [OF killed.prems] have IH: "durable e db"
    "kv_look e db \<subseteq>\<^sub>m fold dict_next evs Map.empty"
    "\<forall>evs1 ev evs2. evs = evs1 @ ev # evs2 \<longrightarrow> never_wrong (env_tail e) ev (fold dict_next evs1 Map.empty)"
    by blast+
  have room: "fc_room (flashCache db) (Suc 0)" using killed.hyps(2) by simp
  from server_restart [OF conf IH(1) room killed.hyps(3), of gsize gfile] killed.hyps(4)
  have R: "store_inv e db'" "tiers_apart e db'" "durable e db'" "kv_look e db' \<subseteq>\<^sub>m kv_look e db"
    by auto
  show ?case using R(1-3) map_le_trans [OF R(4) IH(2)] IH(3) by (simp add: store_inv_wf)
qed

section \<open>Emptying the queue\<close>

lemma flush_all:
  assumes mode: "lru_mode sv"
  shows "store_inv e db \<Longrightarrow> tiers_apart e db \<Longrightarrow> durable e db \<Longrightarrow>
    fc_room (flashCache db) (length (memQueue db) + m) \<Longrightarrow>
    \<exists>db'. flush_n sv e (length (memQueue db)) db = Inr db' \<and> store_inv e db' \<and> durable e db' \<and>
      kv_look e db' = kv_look e db \<and> memQueue db' = [] \<and>
      lru_order (memLRU db') = lru_order (memLRU db) \<and> fc_room (flashCache db') m"
proof (induction "memQueue db" arbitrary: db)
  case Nil
  then show ?case by simp
next
  case (Cons p q)
  have q: "memQueue db = p # q" using Cons.hyps(2) by simp
  have room: "fc_room (flashCache db) (Suc (length q + m))" using Cons.prems(4) q by simp
  from bworker_flush_lru [OF mode Cons.prems(1) q room] obtain db1 where F:
    "bworker_flush sv e db = Inr db1" "store_inv e db1" "fc_room (flashCache db1) (length q + m)"
    "memQueue db1 = q" "lru_order (memLRU db1) = lru_order (memLRU db)" by blast
  have wf: "store_wf e db" using Cons.prems(1) by (simp add: store_inv_wf)
  have step: "store_step sv e EvFlush db db1" using room F(1) by (rule store_step.flush)
  from store_step_dict [OF mode Cons.prems(2) wf step] have S: "tiers_apart e db1"
    "kv_look e db1 = kv_look e db" by simp_all
  have "durable e db1" using durable_step [OF mode wf Cons.prems(2) step _ Cons.prems(3)] by simp
  from Cons.hyps(1) [OF F(4)[symmetric] F(2) S(1) this] F(3,4) obtain db2 where
    "flush_n sv e (length q) db1 = Inr db2" "store_inv e db2" "durable e db2"
    "kv_look e db2 = kv_look e db1" "memQueue db2 = []"
    "lru_order (memLRU db2) = lru_order (memLRU db1)" "fc_room (flashCache db2) m" by auto
  then show ?case using F(1,5) S(2) q by simp
qed

text \<open>Evicting everything, and then as many rounds of the tiering thread as there are entries.\<close>

lemma drain:
  assumes mode: "lru_mode sv" and inv: "store_inv e db" and apart: "tiers_apart e db" and dur: "durable e db"
    and few: "length (lru_order (memLRU db)) < 2 ^ 31"
    and room: "fc_room (flashCache db) (length (memQueue db) + length (lru_order (memLRU db)) + m)"
  shows "\<exists>db1 db2. evictAllCommand sv db = Inr db1 \<and> flush_n sv e (length (memQueue db1)) db1 = Inr db2 \<and>
    memQueue db2 = [] \<and> lru_order (memLRU db2) = [] \<and> store_inv e db2 \<and> durable e db2 \<and>
    mem_look db2 = Map.empty \<and> kv_look e db2 = kv_look e db \<and> fc_room (flashCache db2) m"
proof -
  have ok: "mem_ok db" "queue_ok db" and m: "cache_mode sv = MODE_MEM_LRU"
    using inv mode by (simp_all add: store_inv_def lru_mode_def)
  from evict_n_lru [OF m ok order_refl] obtain db1 where E:
    "evict_n sv (length (lru_order (memLRU db))) db = Inr db1" "mem_ok db1" "queue_ok db1"
    "flashCache db1 = flashCache db" "flash_live db1 = flash_live db" "mem_look db1 = mem_look db"
    "lru_order (memLRU db1) = []" "length (memQueue db1) = length (memQueue db) + length (lru_order (memLRU db))"
    by auto
  have run: "evictAllCommand sv db = Inr db1"
    using E(1) LRUCacheSize_order [OF ok(1) few] by (simp add: evictAllCommand_def pool_size_lru(1) [OF m])
  have kv: "kv_look e db1 = kv_look e db" using E(6,4) by (rule kv_look_cong)
  have "store_inv e db1" using inv E(2-5) by (simp add: store_inv_def)
  moreover have "tiers_apart e db1" using apart E(4,6) by (simp add: tiers_apart_def)
  moreover have "durable e db1" by (rule durable_frame [OF dur]) (simp_all add: E(4) kv)
  moreover have "fc_room (flashCache db1) (length (memQueue db1) + m)" using room by (simp add: E(4,8))
  ultimately obtain db2 where F: "flush_n sv e (length (memQueue db1)) db1 = Inr db2"
    "store_inv e db2" "durable e db2" "kv_look e db2 = kv_look e db1" "memQueue db2 = []"
    "lru_order (memLRU db2) = lru_order (memLRU db1)" "fc_room (flashCache db2) m"
    using flush_all [OF mode, of e db1 m] by blast
  have lru: "lru_order (memLRU db2) = []" and "queue_ok db2" using F(2,6) E(7) by (simp_all add: store_inv_def)
  then have "mem_look db2 = Map.empty"
    using idle_absent [OF \<open>queue_ok db2\<close> lru F(5)] by (simp add: mem_look_def fun_eq_iff)
  then show ?thesis using run F lru kv by auto
qed

section \<open>Properties\<close>

text \<open>
  C3: when no key is set twice: over any number of lives of the server on one directory, whenever
  it is killed and in whatever order the files are listed when it starts again, it never holds or
  answers a wrong value. The two levels hold part of what has been written, and every \<open>get\<close> is
  answered with the value written under its key, followed by heap bytes when it comes from flash,
  or with the message that there is none.
\<close>

theorem lives_never_wrong:
  assumes conf: "server_conf sv e" and lives: "server_lives sv e evs db" and new: "distinct (written evs)"
  shows "kv_look e db \<subseteq>\<^sub>m fold dict_next evs Map.empty \<and>
    (\<forall>evs1 ev evs2. evs = evs1 @ ev # evs2 \<longrightarrow>
      never_wrong (env_tail e) ev (fold dict_next evs1 Map.empty))"
  using lives_inv [OF conf lives new] by blast

text \<open>
  A server that has been killed after any run can be started again while file numbers
  last. It holds nothing that it did not hold before, and every key that had reached flash.
\<close>

lemma killed_server_restarts:
  assumes conf: "server_conf sv e" and lives: "server_lives sv e evs db" and new: "distinct (written evs)"
    and room: "fc_room (flashCache db) (Suc n)" and dir: "relisted dir (flashCache db)"
  shows "\<exists>db'. initServer sv e gsize gfile dir = Inr db' \<and> server_lives sv e evs db' \<and>
    store_inv e db' \<and> fc_room (flashCache db') n \<and> kv_look e db' \<subseteq>\<^sub>m kv_look e db \<and>
    dom (fc_look (e, flashCache db)) \<subseteq> dom (kv_look e db')"
proof -
  from lives_inv [OF conf lives new] have dur: "durable e db" by blast
  have "fc_room (flashCache db) 1" using room by (simp add: fc_room_def)
  with server_restart [OF conf dur room dir] server_lives.killed [OF lives _ dir] show ?thesis by blast
qed

text \<open>
  C12: after any number of lives in which no key was set twice, and with the mutex of the flash
  cache not left locked: while file numbers last, after an \<open>evict\<close> and as many rounds of the
  tiering thread as entries are queued, a server that is started again holds exactly what was held
  before.
\<close>

theorem drained_restart:
  assumes conf: "server_conf sv e" and lives: "server_lives sv e evs db" and new: "distinct (written evs)"
    and free: "\<not> fcache_mutex (flashCache db)" and few: "length (lru_order (memLRU db)) < 2 ^ 31"
    and room: "fc_room (flashCache db) (length (memQueue db) + length (lru_order (memLRU db)) + 1)"
  shows "\<exists>db1 db2. evictAllCommand sv db = Inr db1 \<and> flush_n sv e (length (memQueue db1)) db1 = Inr db2 \<and>
    memQueue db2 = [] \<and> (\<forall>dir. relisted dir (flashCache db2) \<longrightarrow>
      (\<exists>db3. initServer sv e gsize gfile dir = Inr db3 \<and> kv_look e db3 = kv_look e db))"
proof -
  from lives_inv [OF conf lives new] free have S: "store_inv e db" "tiers_apart e db" "durable e db"
    by (simp_all add: store_inv_wf)
  have mode: "lru_mode sv" using conf by (simp add: server_conf_def)
  from drain [OF mode S few room] obtain db1 db2 where D: "evictAllCommand sv db = Inr db1"
    "flush_n sv e (length (memQueue db1)) db1 = Inr db2" "memQueue db2 = []" "durable e db2"
    "mem_look db2 = Map.empty" "kv_look e db2 = kv_look e db" "fc_room (flashCache db2) (Suc 0)" by auto
  have fl: "fc_look (e, flashCache db2) = kv_look e db2" by (simp add: kv_look_def D(5) fun_eq_iff)
  have "\<exists>db3. initServer sv e gsize gfile dir = Inr db3 \<and> kv_look e db3 = kv_look e db"
    if dir: "relisted dir (flashCache db2)" for dir
  proof -
    from server_restart [OF conf D(4,7) dir] obtain db3 where R: "initServer sv e gsize gfile dir = Inr db3"
      "kv_look e db3 \<subseteq>\<^sub>m kv_look e db2" "dom (kv_look e db2) \<subseteq> dom (kv_look e db3)"
      unfolding fl by blast
    have "kv_look e db3 = kv_look e db2"
      using R(2,3) by (intro map_le_antisym) (auto simp: map_le_def dom_def)
    with R(1) D(6) show ?thesis by simp
  qed
  with D(1-3) show ?thesis by blast
qed

section \<open>Examples\<close>

lemma sample_conf: "server_conf sample_sv sample_env"
  by (simp add: server_conf_def) (simp add: sample_sv_def sample_env_def env_ok_def)

lemma sample_life:
  "\<exists>c' db. setCommand sample_sv sample_env (arg_object ''a'') (arg_object ''one'') (sample_client, sample_db) =
      Inr (c', db) \<and> server_lives sample_sv sample_env [EvSet ''a'' ''one''] db \<and>
    kv_look sample_env db = [''a'' \<mapsto> ''one''] \<and> flashCache db = sample_flash \<and>
    lru_order (memLRU db) = [''a''] \<and> memQueue db = []"
proof -
  obtain c' db where 1: "setCommand sample_sv sample_env (arg_object ''a'') (arg_object ''one'')
      (sample_client, sample_db) = Inr (c', db)" "kv_look sample_env db = [''a'' \<mapsto> ''one'']"
    "flashCache db = sample_flash" "lru_order (memLRU db) = [''a'']" using sample_set by blast
  have step: "store_step sample_sv sample_env (EvSet ''a'' ''one'') sample_db db"
    using 1 sample_requests(3) by (intro store_step.set) simp_all
  have "server_lives sample_sv sample_env ([] @ [EvSet ''a'' ''one'']) db"
    by (rule server_lives.event [OF server_lives.first [OF sample_start] step])
  moreover have "memQueue db = []"
    using 1(1) by (auto simp: setCommand_def bnd_eq_Inr cacheAdd_def Let_def db_set_ent_def sample_db_def
        MODE_MEM_LRU_def MODE_ONLY_FLASH_def MODE_MEM_FIFO_def split: if_splits option.splits)
  ultimately show ?thesis using 1 by auto
qed

lemma sample_relisted: "relisted (fc_dir sample_flash) sample_flash" "fc_room sample_flash (Suc 9)" "fc_room sample_flash 10"
  by (simp_all add: relisted_def sample_flash_def fc_room_def)

text \<open>A key is set, the server is killed before the key reaches flash, and starts again.\<close>

theorem lives_never_wrong_witness:
  "\<exists>c' db db'. setCommand sample_sv sample_env (arg_object ''a'') (arg_object ''one'') (sample_client, sample_db) =
      Inr (c', db) \<and> initServer sample_sv sample_env 5 6 (fc_dir (flashCache db)) = Inr db' \<and>
    kv_look sample_env db' \<subseteq>\<^sub>m [''a'' \<mapsto> ''one'']"
proof -
  obtain c' db where 1: "setCommand sample_sv sample_env (arg_object ''a'') (arg_object ''one'')
      (sample_client, sample_db) = Inr (c', db)" "server_lives sample_sv sample_env [EvSet ''a'' ''one''] db"
    "flashCache db = sample_flash" using sample_life by blast
  have "durable sample_env db" using lives_inv [OF sample_conf 1(2)] by simp
  moreover note sample_relisted [folded 1(3)]
  ultimately obtain db' where 2: "initServer sample_sv sample_env 5 6 (fc_dir (flashCache db)) = Inr db'"
    using server_restart [OF sample_conf] by blast
  have "fc_room (flashCache db) 1" using sample_relisted(2) by (simp add: 1(3) fc_room_def)
  from server_lives.killed [OF 1(2) this _ 2] have "server_lives sample_sv sample_env [EvSet ''a'' ''one''] db'"
    using sample_relisted(1) by (simp add: 1(3))
  from lives_never_wrong [OF sample_conf this] 1(1) 2 show ?thesis by auto
qed

theorem drained_restart_witness:
  "\<exists>c' db db1 db2 dir db3. setCommand sample_sv sample_env (arg_object ''a'') (arg_object ''one'')
      (sample_client, sample_db) = Inr (c', db) \<and> evictAllCommand sample_sv db = Inr db1 \<and>
    flush_n sample_sv sample_env (length (memQueue db1)) db1 = Inr db2 \<and> relisted dir (flashCache db2) \<and>
    initServer sample_sv sample_env 0 0 dir = Inr db3 \<and> kv_look sample_env db3 = [''a'' \<mapsto> ''one'']"
proof -
  obtain c' db where 1: "setCommand sample_sv sample_env (arg_object ''a'') (arg_object ''one'')
      (sample_client, sample_db) = Inr (c', db)" "server_lives sample_sv sample_env [EvSet ''a'' ''one''] db"
    "kv_look sample_env db = [''a'' \<mapsto> ''one'']" "flashCache db = sample_flash"
    "lru_order (memLRU db) = [''a'']" "memQueue db = []" using sample_life by blast
  have "\<exists>db1 db2. evictAllCommand sample_sv db = Inr db1 \<and>
    flush_n sample_sv sample_env (length (memQueue db1)) db1 = Inr db2 \<and>
    memQueue db2 = [] \<and> (\<forall>dir. relisted dir (flashCache db2) \<longrightarrow>
      (\<exists>db3. initServer sample_sv sample_env 0 0 dir = Inr db3 \<and> kv_look sample_env db3 = kv_look sample_env db))"
    by (rule drained_restart [OF sample_conf 1(2)]) (simp_all add: 1(4-6) sample_flash_def fc_room_def)
  then obtain db1 db2 where 2: "evictAllCommand sample_sv db = Inr db1"
    "flush_n sample_sv sample_env (length (memQueue db1)) db1 = Inr db2"
    "\<forall>dir. relisted dir (flashCache db2) \<longrightarrow>
      (\<exists>db3. initServer sample_sv sample_env 0 0 dir = Inr db3 \<and> kv_look sample_env db3 = kv_look sample_env db)"
    by blast
  have dir: "relisted (AList.clearjunk (fc_dir (flashCache db2))) (flashCache db2)"
    by (simp add: relisted_def map_of_clearjunk distinct_clearjunk)
  with 2(3) obtain db3 where 3: "initServer sample_sv sample_env 0 0
      (AList.clearjunk (fc_dir (flashCache db2))) = Inr db3" "kv_look sample_env db3 = kv_look sample_env db" by blast
  have "kv_look sample_env db3 = [''a'' \<mapsto> ''one'']" using 3(2) 1(3) by simp
  with 1(1) 2(1,2) dir 3(1) show ?thesis by blast
qed

end
