(* ===== verification/OnlyFlash.thy ===== *)
theory OnlyFlash
  imports Session
begin

text \<open>
  The mode \<open>ONLY-FLASH\<close>, in which \<open>set\<close> and \<open>get\<close> go to the flash cache directly, for a server
  that writes without buffers.
\<close>

definition flash_mode :: "kvServer \<Rightarrow> bool" where
  "flash_mode sv \<longleftrightarrow> cache_mode sv = MODE_ONLY_FLASH \<and> \<not> wbmode sv"

lemma setCommand_flash_effect:
  assumes mode: "flash_mode sv" and inv: "fc_inv (e, flashCache db)" "flash_live db"
    and room: "fc_room (flashCache db) (Suc n)"
    and key: "holds key k" and val: "holds ob v" "good_entry k v"
  shows "\<exists>fc. (\<forall>c. setCommand sv e key ob (c, db) =
      bnd (reply (''+OK'' @ [CR, LF]) c) (\<lambda>c. Inr (c, db\<lparr>flashCache := fc\<rparr>))) \<and>
    fc_inv (e, fc) \<and> fc_room fc n \<and>
    fc_look (e, fc) = (if fc_look (e, flashCache db) k = None
      then (fc_look (e, flashCache db))(k \<mapsto> v) else fc_look (e, flashCache db))"
proof -
  from fc_Insert_wf [OF inv(1) val(2) room] obtain fc where fc:
    "fc_Insert False e k v (flashCache db) = Inr (0, fc)" "fc_inv (e, fc)" "fc_room fc n"
    "fc_look (e, fc) = (if fc_look (e, flashCache db) k = None
      then (fc_look (e, flashCache db))(k \<mapsto> v) else fc_look (e, flashCache db))" by blast
  have "until_nul (msg_buf (ptr key)) = k" "until_nul (msg_buf (ptr ob)) = v"
    using key val(1) by (simp_all add: holds_def)
  then have "setCommand sv e key ob (c, db) =
      bnd (reply (''+OK'' @ [CR, LF]) c) (\<lambda>c. Inr (c, db\<lparr>flashCache := fc\<rparr>))" for c
    using mode inv(2) fc(1) by (simp add: setCommand_def flash_mode_def flashCacheInsert_def)
  then show ?thesis using fc(2-4) by blast
qed

lemma getCommand_flash_only_effect:
  assumes mode: "flash_mode sv" and inv: "fc_inv (e, flashCache db)" "flash_live db"
    and key: "holds key k" and hit: "fc_look (e, flashCache db) k = Some v"
  shows "\<exists>fc. (\<forall>c. getCommand sv e key (c, db) =
      bnd (reply (bulk (length v) (v @ until_nul (env_tail e))) c) (\<lambda>c. Inr (c, db\<lparr>flashCache := fc\<rparr>))) \<and>
    fc_inv (e, fc) \<and> fc_look (e, fc) = fc_look (e, flashCache db) \<and>
    (\<forall>n. fc_room fc n = fc_room (flashCache db) n)"
proof -
  have good: "good_entry k v"
    using fc_look_good [of e "flashCache db" k v] hit inv(1) by (simp add: fc_inv_def)
  have kk: "until_nul (msg_buf (ptr key)) = k" using key by (simp add: holds_def)
  from fc_Lookup_hit [OF inv(1) hit] obtain fc where fc: "fc_Lookup False e k (flashCache db) = Inr (Some v, fc)"
    "fc_inv (e, fc)" "fc_look (e, fc) = fc_look (e, flashCache db)"
    "\<forall>n. fc_room fc n = fc_room (flashCache db) n" by blast
  have "getCommand sv e key (c, db) =
      bnd (reply (bulk (length v) (v @ until_nul (env_tail e))) c) (\<lambda>c. Inr (c, db\<lparr>flashCache := fc\<rparr>))" for c
    using mode inv(2) fc(1) kk flash_bulk_reply [OF _ good, of e c] fc_wfD(1) [of e fc] fc(2)
    by (simp add: getCommand_def flash_mode_def flashCacheLookup_def Let_def fc_inv_def)
  then show ?thesis using fc(2-4) by blast
qed

section \<open>Properties\<close>

text \<open>
  C22: in the mode \<open>ONLY-FLASH\<close> a \<open>set\<close> of a key that is present is answered with \<open>+OK\<close> and
  without effect: the next \<open>get\<close> answers the older value. Only the first value of a key is found.
\<close>

theorem only_flash_set_get:
  assumes mode: "flash_mode sv" and inv: "fc_inv (e, flashCache db)" "flash_live db" and c: "client_ok c"
    and k: "key_ok k" and v: "v \<noteq> []" "good_entry k v" and room: "fc_room (flashCache db) (Suc n)"
    and w: "w = (case fc_look (e, flashCache db) k of None \<Rightarrow> v | Some w \<Rightarrow> w)"
    and fits: "length (enc_request [''set'', k, v]) \<le> KV_IOBUF_LEN"
      "length (enc_request [''get'', k]) \<le> KV_IOBUF_LEN"
      "length (bulk (length w) (w @ until_nul (env_tail e))) < KV_IOBUF_LEN"
  shows "\<exists>c1 db1 c2 db2.
    session_step sv e False (enc_request [''set'', k, v]) (c, db) =
      Inr (SessionSent (''+OK'' @ [CR, LF]), c1, db1) \<and>
    session_step sv e False (enc_request [''get'', k]) (c1, db1) =
      Inr (SessionSent (bulk (length w) (w @ until_nul (env_tail e))), c2, db2) \<and>
    client_ok c2 \<and> flash_live db2 \<and> fc_inv (e, flashCache db2) \<and> fc_room (flashCache db2) n \<and>
    fc_look (e, flashCache db2) = (fc_look (e, flashCache db))(k \<mapsto> w)"
proof -
  have hk: "holds (arg_object k) k" "holds (arg_object v) v"
    using k v(2) by (simp_all add: key_ok_def good_entry_def holds_arg)
  let ?db0 = "db\<lparr>db_used := parsed_used [''set'', k, v] (db_used db)\<rparr>"
  from setCommand_flash_effect [OF mode _ _ _ hk v(2), of e ?db0 n] inv room obtain fc where fc:
    "\<And>c. setCommand sv e (arg_object k) (arg_object v) (c, ?db0) =
      bnd (reply (''+OK'' @ [CR, LF]) c) (\<lambda>c. Inr (c, ?db0\<lparr>flashCache := fc\<rparr>))"
    "fc_inv (e, fc)" "fc_room fc n"
    "fc_look (e, fc) = (if fc_look (e, flashCache db) k = None
      then (fc_look (e, flashCache db))(k \<mapsto> v) else fc_look (e, flashCache db))" by auto
  have look: "fc_look (e, fc) = (fc_look (e, flashCache db))(k \<mapsto> w)"
    using w fc(4) by (auto simp: fun_eq_iff split: if_splits option.splits)
  obtain c1 um where S: "session_step sv e False (enc_request [''set'', k, v]) (c, db) =
      Inr (SessionSent (''+OK'' @ [CR, LF]), c1, ?db0\<lparr>flashCache := fc, db_used := um\<rparr>)" "client_ok c1"
    using session_set_with [OF c k v fits(1) _ fc(1)] mode by (auto simp: flash_mode_def)
  let ?db1 = "?db0\<lparr>flashCache := fc, db_used := um\<rparr>"
  let ?db2 = "?db1\<lparr>db_used := parsed_used [''get'', k] (db_used ?db1)\<rparr>"
  have hit: "fc_look (e, flashCache ?db2) k = Some w" using look by simp
  from getCommand_flash_only_effect [OF mode _ _ hk(1) hit] fc(2) inv(2) obtain fc2 where G:
    "\<And>c. getCommand sv e (arg_object k) (c, ?db2) =
      bnd (reply (bulk (length w) (w @ until_nul (env_tail e))) c) (\<lambda>c. Inr (c, ?db2\<lparr>flashCache := fc2\<rparr>))"
    "fc_inv (e, fc2)" "fc_look (e, fc2) = fc_look (e, fc)" "\<forall>n. fc_room fc2 n = fc_room fc n" by auto
  obtain c2 um2 where "session_step sv e False (enc_request [''get'', k]) (c1, ?db1) =
      Inr (SessionSent (bulk (length w) (w @ until_nul (env_tail e))), c2,
        ?db2\<lparr>flashCache := fc2, db_used := um2\<rparr>)" "client_ok c2"
    using session_get [OF S(2) k fits(2,3) G(1)] by blast
  moreover have "flash_live (?db2\<lparr>flashCache := fc2, db_used := um2\<rparr>)" using inv(2) by simp
  moreover have "flashCache (?db2\<lparr>flashCache := fc2, db_used := um2\<rparr>) = fc2" by simp
  ultimately show ?thesis using S(1) G(2-4) fc(3) look by metis
qed

text \<open>A server of this mode that starts on a directory with one record.\<close>

theorem only_flash_set_get_witness:
  "\<exists>sv db c1 db1 c2 db2. cache_mode sv = MODE_ONLY_FLASH \<and> initServer sv sample_env 0 0 sample_dir = Inr db \<and>
    session_step sv sample_env False (enc_request [''set'', ''a'', ''two'']) (sample_client, db) =
      Inr (SessionSent (''+OK'' @ [CR, LF]), c1, db1) \<and>
    session_step sv sample_env False (enc_request [''get'', ''a'']) (c1, db1) =
      Inr (SessionSent (bulk 3 ''one''), c2, db2)"
proof -
  define sv where "sv = sample_sv\<lparr>cache_mode := MODE_ONLY_FLASH\<rparr>"
  obtain db where db: "initServer sample_sv sample_env 0 0 sample_dir = Inr db" "store_inv sample_env db"
    "fc_room (flashCache db) 100" "fc_look (sample_env, flashCache db) = [''a'' \<mapsto> ''one'']"
    using sample_on_flash by blast
  have "initServer sv sample_env 0 0 sample_dir = initServer sample_sv sample_env 0 0 sample_dir"
    by (simp add: sv_def initServer_def flashCacheCreate_def Let_def sample_sv_def MODE_ONLY_FLASH_def
        MODE_MEM_LRU_def MODE_MEM_FIFO_def)
  with db(1) have start: "initServer sv sample_env 0 0 sample_dir = Inr db" by simp
  have mode: "flash_mode sv" "cache_mode sv = MODE_ONLY_FLASH"
    using sample_modes(2) by (simp_all add: flash_mode_def sv_def wbmode_def)
  have req: "length (enc_request [''set'', ''a'', ''two'']) \<le> KV_IOBUF_LEN"
    by (simp add: enc_request_def enc_arg_def KV_IOBUF_LEN_def count_char(1))
  have t: "until_nul (env_tail sample_env) = []" by (simp add: sample_env_def)
  have len: "length (bulk (length ''one'') (''one'' @ until_nul (env_tail sample_env))) < KV_IOBUF_LEN"
    unfolding t by (simp add: bulk_def count_char(1) KV_IOBUF_LEN_def)
  have inv: "fc_inv (sample_env, flashCache db)" "flash_live db" using db(2) by (simp_all add: store_inv_def)
  have room: "fc_room (flashCache db) (Suc 99)" using db(3) by simp
  have w: "''one'' = (case fc_look (sample_env, flashCache db) ''a'' of None \<Rightarrow> ''two'' | Some w \<Rightarrow> w)"
    by (simp add: db(4))
  from only_flash_set_get [OF mode(1) inv sample_client_ok sample_requests(2) _ sample_objects(4) room w req
      sample_requests(4) len] start mode(2) show ?thesis unfolding t by (fastforce simp: numeral_3_eq_3)
qed

end
