(* ===== verification/FifoMode.thy ===== *)
theory FifoMode
  imports Session
begin

text \<open>
  The mode \<open>MEM-FIFO\<close> below the memory limit: the memory level is the hash table of \<open>hash.c\<close>, and a
  key that is set again keeps its entry and gets the new value. (What happens at the limit is in
  \<open>Session\<close>: the list holds null pointers.)
\<close>

text \<open>The table of a state of this mode, and what it holds.\<close>

definition fifo_table :: "kvDb \<Rightarrow> kvht \<times> u32" where
  "fifo_table db = (memCache db, db_used db)"

lemma holds_strcmp: "holds key k \<Longrightarrow> strcmp_eq (msg_buf (ptr key)) k' = (until_nul k' = k)"
  by (auto simp: holds_def strcmp_eq_def no_nul_def)

lemma memCache_ok_used: "memCache_ok (mc, a) = memCache_ok (mc, b)" and hash_dict_used: "hash_dict (mc, a) = hash_dict (mc, b)"
  by (auto simp: memCache_ok_def hash_dict_def)

lemma cacheAdd_fifo:
  assumes mode: "fifo_mode sv" and ok: "memCache_ok (fifo_table db)"
    and key: "holds key k" "key_ok k" "fits_table k"
  shows "\<exists>db'. cacheAdd sv key ob db = Inr db' \<and> memCache_ok (fifo_table db') \<and>
    hash_dict (fifo_table db') = (hash_dict (fifo_table db))(k \<mapsto> ob)"
proof -
  let ?kb = "msg_buf (ptr key)" and ?mc = "memCache db"
  have inv: "hash_inv ?mc" and shape: "sizemask ?mc = 100" "length (table ?mc) = 100"
    using ok by (simp_all add: memCache_ok_def fifo_table_def)
  have kb: "?kb = k @ [NUL]" "no_nul k" using key(1) by (simp_all add: holds_def)
  have copy: "msgdup (ptr key) = k @ [NUL]"
    using key(1,2) by (simp add: holds_def msgdup_def key_ok_def unsigned_of_nat take_bit_nat_eq_self)
  have slot: "in_slots ?mc ?kb" using fits_table_slot [OF ok key(3)] by (simp add: fifo_table_def kb)
  have dict: "hash_dict (mc', u) = (hash_dict (fifo_table db))(k \<mapsto> ob)"
    if "\<forall>x. hash_look mc' x = (if strcmp_eq ?kb x then Some ob else hash_look ?mc x)" for mc' u
    using that kb(2) holds_strcmp [OF key(1)] by (auto simp: hash_dict_def fifo_table_def fun_eq_iff)
  show ?thesis
  proof (cases "hash_look ?mc ?kb")
    case None
    then have "entryFind ?mc ?kb = Inr None"
      using bucket_inv(1) [OF inv slot] by (simp add: hash_look_def entryFind_def split: option.splits)
    moreover obtain mc' um where "hashAdd ?mc (k @ [NUL]) ob (charge (length (k @ [NUL])) (db_used db)) = Inr (0, mc', um)"
      "hash_inv mc'" "\<forall>x. hash_look mc' x = (if strcmp_eq ?kb x then Some ob else hash_look ?mc x)"
      using hashAdd_absent [OF inv None slot] unfolding kb by blast
    ultimately show ?thesis
      using mode dict [of mc' um] hashAdd_shape [of ?mc] shape
      by (fastforce simp: cacheAdd_def fifo_mode_def copy fifo_table_def memCache_ok_def Let_def)
  next
    case (Some w)
    then obtain he where "entryFind ?mc ?kb = Inr (Some he)"
      by (auto simp: hash_look_def split: sum.splits option.splits)
    moreover from entrySetVal_present [OF inv Some, of ob] obtain mc' where "entrySetVal ?mc ?kb ob = Inr mc'"
      "hash_inv mc'" "sizemask mc' = 100" "length (table mc') = 100"
      "\<forall>x. hash_look mc' x = (if strcmp_eq ?kb x then Some ob else hash_look ?mc x)" using shape by auto
    ultimately show ?thesis
      using mode dict [of mc' "db_used db"]
      by (auto simp: cacheAdd_def fifo_mode_def fifo_table_def memCache_ok_def Let_def)
  qed
qed

lemma fifo_modes: "fifo_mode sv \<Longrightarrow> cache_mode sv = MODE_MEM_FIFO" "MODE_MEM_FIFO \<noteq> MODE_ONLY_FLASH"
  by (simp_all add: fifo_mode_def MODE_MEM_FIFO_def MODE_ONLY_FLASH_def)

lemma cacheAdd_rest: "cacheAdd sv key ob db = Inr db' \<Longrightarrow> flashCache db' = flashCache db \<and> flash_live db' = flash_live db"
  by (auto simp: cacheAdd_def bnd_eq_Inr Let_def db_set_ent_def split: if_splits option.splits)

lemma getCommand_fifo_effect:
  assumes mode: "fifo_mode sv" and ok: "memCache_ok (fifo_table db)"
    and key: "holds key k" "fits_table k"
    and hit: "hash_dict (fifo_table db) k = Some ob" "holds ob v" "good_entry k v"
  shows "getCommand sv e key (c, db) = bnd (reply (bulk (length v) v) c) (\<lambda>c. Inr (c, db))"
proof -
  let ?kb = "msg_buf (ptr key)" and ?mc = "memCache db"
  have inv: "hash_inv ?mc" using ok by (simp add: memCache_ok_def fifo_table_def)
  have kb: "?kb = k @ [NUL]" "no_nul k" using key(1) by (simp_all add: holds_def)
  have "hash_look ?mc ?kb = Some ob"
    using hit(1) hash_look_term [OF inv kb(2)] kb by (simp add: hash_dict_def fifo_table_def)
  then obtain he where he: "entryFind ?mc ?kb = Inr (Some he)" "he_val he = ob"
    by (auto simp: hash_look_def split: sum.splits option.splits)
  have "bulk_reply (sint (msg_len (ptr ob))) (msg_buf (ptr ob)) c = reply (bulk (length v) v) c"
    using hit(2,3) by (simp add: bulk_reply_def holds_def bulk_def good_entry_def rec_len_def sint_small_nat)
  then show ?thesis
    using fifo_modes(1) [OF mode] fifo_modes(2) he by (simp add: getCommand_def mem_find_def)
qed

text \<open>
  C23: \<open>set\<close> and then \<open>get\<close> in the mode \<open>MEM-FIFO\<close>, from the bytes of the requests to the bytes of the
  replies: while the memory is below its threshold, a key that does not fall on the slot outside
  the table gets the value that was set last, also when it had one before, and no other key
  changes.
\<close>

theorem fifo_set_get:
  assumes mode: "fifo_mode sv" and ok: "memCache_ok (fifo_table db)" and c: "client_ok c"
    and k: "key_ok k" "fits_table k" and v: "v \<noteq> []" "good_entry k v"
    and fits: "length (enc_request [''set'', k, v]) \<le> KV_IOBUF_LEN"
      "length (enc_request [''get'', k]) \<le> KV_IOBUF_LEN" "length (bulk (length v) v) < KV_IOBUF_LEN"
    and idle: "no_pressure sv (db\<lparr>db_used := parsed_used [''set'', k, v] (db_used db)\<rparr>)"
  shows "\<exists>c1 db1 c2 db2.
    session_step sv e False (enc_request [''set'', k, v]) (c, db) =
      Inr (SessionSent (''+OK'' @ [CR, LF]), c1, db1) \<and>
    session_step sv e False (enc_request [''get'', k]) (c1, db1) =
      Inr (SessionSent (bulk (length v) v), c2, db2) \<and>
    client_ok c2 \<and> memCache_ok (fifo_table db2) \<and> flashCache db2 = flashCache db \<and>
    hash_dict (fifo_table db2) = (hash_dict (fifo_table db))(k \<mapsto> arg_object v)"
proof -
  note m = fifo_modes(1) [OF mode]
  have hk: "holds (arg_object k) k" "holds (arg_object v) v"
    using k v(2) by (simp_all add: key_ok_def good_entry_def holds_arg)
  have used: "memCache_ok (fifo_table (d\<lparr>db_used := um\<rparr>)) = memCache_ok (fifo_table d)"
    "hash_dict (fifo_table (d\<lparr>db_used := um\<rparr>)) = hash_dict (fifo_table d)" for d um
    using memCache_ok_used [of "memCache d" um "db_used d"] hash_dict_used [of "memCache d" um "db_used d"]
    by (simp_all add: fifo_table_def)
  let ?db0 = "db\<lparr>db_used := parsed_used [''set'', k, v] (db_used db)\<rparr>"
  obtain d where d: "cacheAdd sv (arg_object k) (arg_object v) ?db0 = Inr d" "memCache_ok (fifo_table d)"
    "hash_dict (fifo_table d) = (hash_dict (fifo_table db))(k \<mapsto> arg_object v)"
    using cacheAdd_fifo [OF mode _ hk(1) k, of ?db0 "arg_object v"] ok by (auto simp: used)
  have set: "setCommand sv e (arg_object k) (arg_object v) (c', ?db0) =
      bnd (reply (''+OK'' @ [CR, LF]) c') (\<lambda>c'. Inr (c', d))" for c'
    using d(1) m fifo_modes(2) by (simp add: setCommand_def)
  obtain c1 um where S: "session_step sv e False (enc_request [''set'', k, v]) (c, db) =
      Inr (SessionSent (''+OK'' @ [CR, LF]), c1, d\<lparr>db_used := um\<rparr>)" "client_ok c1"
    using session_set_with [OF c k(1) v fits(1) _ set] idle m by blast
  let ?db1 = "d\<lparr>db_used := um\<rparr>"
  let ?db2 = "?db1\<lparr>db_used := parsed_used [''get'', k] (db_used ?db1)\<rparr>"
  have get: "getCommand sv e (arg_object k) (c', ?db2) = bnd (reply (bulk (length v) v) c') (\<lambda>c. Inr (c, ?db2))" for c'
    using d(2,3) by (intro getCommand_fifo_effect [OF mode _ hk(1) k(2) _ hk(2) v(2)]) (simp_all add: used)
  obtain c2 um2 where "session_step sv e False (enc_request [''get'', k]) (c1, ?db1) =
      Inr (SessionSent (bulk (length v) v), c2, ?db2\<lparr>db_used := um2\<rparr>)" "client_ok c2"
    using session_get [OF S(2) k(1) fits(2,3) get] by blast
  moreover have "memCache_ok (fifo_table (?db2\<lparr>db_used := um2\<rparr>))" using d(2) by (simp only: used)
  moreover have "hash_dict (fifo_table (?db2\<lparr>db_used := um2\<rparr>)) = (hash_dict (fifo_table db))(k \<mapsto> arg_object v)"
    using d(3) by (simp only: used)
  moreover have "flashCache (?db2\<lparr>db_used := um2\<rparr>) = flashCache db"
    using cacheAdd_rest [OF d(1)] by simp
  ultimately show ?thesis using S(1) by blast
qed

text \<open>A server of this mode that starts on an empty directory.\<close>

theorem fifo_set_get_witness:
  "\<exists>sv db c1 db1 c2 db2. cache_mode sv = MODE_MEM_FIFO \<and> initServer sv sample_env 0 0 [] = Inr db \<and>
    session_step sv sample_env False (enc_request [''set'', ''a'', ''one'']) (sample_client, db) =
      Inr (SessionSent (''+OK'' @ [CR, LF]), c1, db1) \<and>
    session_step sv sample_env False (enc_request [''get'', ''a'']) (c1, db1) =
      Inr (SessionSent (bulk 3 ''one''), c2, db2)"
proof -
  define sv where "sv = sample_sv\<lparr>cache_mode := MODE_MEM_FIFO\<rparr>"
  have mode: "fifo_mode sv" "cache_mode sv = MODE_MEM_FIFO" by (simp_all add: sv_def fifo_mode_def)
  obtain db where db: "initServer sv sample_env 0 0 [] = Inr db" "memCache db = memCache_init" "db_used db = 949"
    using sample_flash_Open [of sample_env]
    by (simp add: initServer_def sv_def sample_sv_def server_zero_def flashCacheCreate_def charge_def
        sizeof_kvDb_def sizeof_hash_def MODE_MEM_FIFO_def Let_def)
  have ok: "memCache_ok (fifo_table db)" using memCache_ok_init db(2) by (simp add: fifo_table_def)
  have idle: "no_pressure sv (db\<lparr>db_used := parsed_used [''set'', ''a'', ''one''] (db_used db)\<rparr>)"
    by (simp add: no_pressure_def sv_def sample_sv_def db(3) mem_used_def parsed_used_def charge_def
        object_bytes_def sizeof_kvObject_def sizeof_msg_def)
  have len: "length (bulk (length ''one'') ''one'') < KV_IOBUF_LEN"
    by (simp add: bulk_def count_char(1) KV_IOBUF_LEN_def)
  from fifo_set_get [OF mode(1) ok sample_client_ok sample_requests(2) sample_keys_fit(1) _ sample_requests(3,1,4) len idle]
    db(1) mode(2) show ?thesis by (fastforce simp: numeral_3_eq_3)
qed

end
