(* ===== verification/Race.thy ===== *)
theory Race
  imports Server
begin

text \<open>
  \<open>memUsedCheck\<close> runs before the mutex is taken (\<open>processCMD\<close> in \<open>command.c\<close>), so the threads of
  several clients can be inside it. The function is cut in two at the point between its test of
  the pool and the eviction, and any number of threads run it in any order.
\<close>

section \<open>The two halves of the check\<close>

definition check_test :: "kvServer \<Rightarrow> kvDb \<Rightarrow> bool res" where
  "check_test sv db =
     bnd (pool_size sv db) (\<lambda>n. Inr (over_90 (mem_used db) (maxmemory sv) \<and> n > 0))"

lemma memUsedCheck_halves:
  "memUsedCheck sv db =
     bnd (check_test sv db) (\<lambda>t. bnd (if t then evict_to_queue sv db else Inr db)
       (\<lambda>db. Inr (unat (maxmemory sv) \<le> mem_used db \<and> QueueSize (memQueue db) > 0, db)))"
  by (cases "pool_size sv db") (simp_all add: memUsedCheck_def check_test_def)

text \<open>Where a thread is: before the test, before the eviction, behind it.\<close>

datatype check_pc = CkTest | CkEvict | CkDone

definition check_step :: "kvServer \<Rightarrow> check_pc \<Rightarrow> kvDb \<Rightarrow> (check_pc \<times> kvDb) res" where
  "check_step sv pc db =
     (case pc of
        CkTest \<Rightarrow> bnd (check_test sv db) (\<lambda>t. Inr (if t then CkEvict else CkDone, db))
      | CkEvict \<Rightarrow> bnd (evict_to_queue sv db) (\<lambda>db. Inr (CkDone, db))
      | CkDone \<Rightarrow> Inr (CkDone, db))"

text \<open>A schedule names the thread that makes the next step.\<close>

fun check_run :: "kvServer \<Rightarrow> nat list \<Rightarrow> check_pc list \<times> kvDb \<Rightarrow> (check_pc list \<times> kvDb) res" where
  "check_run sv [] s = Inr s"
| "check_run sv (i # is) (pcs, db) =
     bnd (check_step sv (pcs ! i) db) (\<lambda>(pc, db). check_run sv is (pcs[i := pc], db))"

lemma check_run_append:
  "check_run sv (is @ js) s = bnd (check_run sv is s) (check_run sv js)"
proof (induction sv "is" s rule: check_run.induct)
  case (2 sv i "is" pcs db)
  then show ?case by (cases "check_step sv (pcs ! i) db") auto
qed simp

text \<open>A thread that is not disturbed makes the steps of \<open>memUsedCheck\<close>.\<close>

lemma check_run_alone:
  "memUsedCheck sv db = Inr (busy, db') \<Longrightarrow> check_run sv [0, 0] ([CkTest], db) = Inr ([CkDone], db')"
proof (cases "check_test sv db")
  case (Inr t)
  assume "memUsedCheck sv db = Inr (busy, db')"
  then show ?thesis
    using Inr by (cases t; cases "evict_to_queue sv db") (simp_all add: memUsedCheck_halves check_step_def)
qed (simp add: memUsedCheck_halves)

section \<open>With enough entries, any schedule is safe\<close>

definition pending :: "check_pc list \<Rightarrow> nat" where
  "pending pcs = length (filter (\<lambda>pc. pc \<noteq> CkDone) pcs)"

lemma pending_update:
  "i < length pcs \<Longrightarrow> pending (pcs[i := pc]) + (if pcs ! i \<noteq> CkDone then 1 else 0) =
     pending pcs + (if pc \<noteq> CkDone then 1 else 0)"
proof (induction pcs arbitrary: i)
  case (Cons a pcs)
  show ?case
  proof (cases i)
    case (Suc j)
    then have "j < length pcs" using Cons.prems by simp
    from Cons.IH [OF this] show ?thesis by (auto simp: Suc pending_def split: if_splits)
  qed (simp add: pending_def)
qed simp

lemma check_step_safe:
  assumes mode: "lru_mode sv" and wf: "store_wf e db" and room: "pc \<noteq> CkDone \<Longrightarrow> lru_order (memLRU db) \<noteq> []"
  shows "\<exists>pc' db'. check_step sv pc db = Inr (pc', db') \<and> store_wf e db' \<and> kv_look e db' = kv_look e db \<and>
    (db' = db \<and> (pc' = CkDone \<or> pc = CkTest \<and> pc' = CkEvict) \<or>
     pc = CkEvict \<and> pc' = CkDone \<and> lru_order (memLRU db') = butlast (lru_order (memLRU db)))"
proof (cases pc)
  case CkTest
  have m: "cache_mode sv = MODE_MEM_LRU" using mode by (simp add: lru_mode_def)
  show ?thesis using CkTest wf by (simp add: check_step_def check_test_def pool_size_lru(1) [OF m])
next
  case CkEvict
  have m: "cache_mode sv = MODE_MEM_LRU" and ok: "mem_ok db" "queue_ok db"
    using mode wf by (simp_all add: lru_mode_def store_wf_def)
  have "lru_order (memLRU db) \<noteq> []" using room CkEvict by simp
  from evict_to_queue_lru [OF m ok this] wf CkEvict show ?thesis
    unfolding store_wf_def by (fastforce simp: check_step_def intro: kv_look_cong)
next
  case CkDone
  then show ?thesis using wf by (simp add: check_step_def)
qed

lemma check_run_safe:
  assumes mode: "lru_mode sv"
  shows "store_wf e db \<Longrightarrow> set is \<subseteq> {..<length pcs} \<Longrightarrow> pending pcs \<le> length (lru_order (memLRU db)) \<Longrightarrow>
    \<exists>pcs' db'. check_run sv is (pcs, db) = Inr (pcs', db') \<and> store_wf e db' \<and> kv_look e db' = kv_look e db"
proof (induction "is" arbitrary: pcs db)
  case (Cons i "is")
  have i: "i < length pcs" using Cons.prems(2) by simp
  have "lru_order (memLRU db) \<noteq> []" if "pcs ! i \<noteq> CkDone"
    using pending_update [OF i, of CkDone] that Cons.prems(3) by auto
  from check_step_safe [OF mode Cons.prems(1) this] obtain pc db' where S:
    "check_step sv (pcs ! i) db = Inr (pc, db')" "store_wf e db'" "kv_look e db' = kv_look e db"
    "db' = db \<and> (pc = CkDone \<or> pcs ! i = CkTest \<and> pc = CkEvict) \<or>
     pcs ! i = CkEvict \<and> pc = CkDone \<and> lru_order (memLRU db') = butlast (lru_order (memLRU db))" by blast
  have "pending (pcs[i := pc]) \<le> length (lru_order (memLRU db'))"
    using pending_update [OF i, of pc] S(4) Cons.prems(3) by (auto split: if_splits)
  from Cons.IH [OF S(2) _ this] Cons.prems(2) S(1,3) show ?case by simp
qed simp

section \<open>With fewer entries than threads, a schedule faults\<close>

lemma check_all_tested:
  assumes "check_test sv db = Inr True"
  shows "check_run sv [0..<n] (replicate n CkTest @ pcs, db) = Inr (replicate n CkEvict @ pcs, db)"
proof (induction n arbitrary: pcs)
  case (Suc n)
  have "check_run sv [0..<n] (replicate n CkTest @ CkTest # pcs, db) =
      Inr (replicate n CkEvict @ CkTest # pcs, db)" by (rule Suc)
  then show ?case
    using assms by (simp add: check_run_append check_step_def nth_append list_update_append
        replicate_append_same [symmetric])
qed simp

lemma check_evictions:
  assumes mode: "lru_mode sv"
  shows "store_wf e db \<Longrightarrow> n \<le> length (lru_order (memLRU db)) \<Longrightarrow>
    \<exists>db'. check_run sv [length qs..<length qs + n] (qs @ replicate n CkEvict @ pcs, db) =
        Inr (qs @ replicate n CkDone @ pcs, db') \<and>
      length (lru_order (memLRU db')) = length (lru_order (memLRU db)) - n"
proof (induction n arbitrary: db qs)
  case (Suc n)
  have m: "cache_mode sv = MODE_MEM_LRU" and ok: "mem_ok db" "queue_ok db"
    using mode Suc.prems(1) by (simp_all add: lru_mode_def store_wf_def)
  have "lru_order (memLRU db) \<noteq> []" using Suc.prems(2) by auto
  from evict_to_queue_lru [OF m ok this] obtain db1 where 1: "evict_to_queue sv db = Inr db1"
    "mem_ok db1" "queue_ok db1" "flashCache db1 = flashCache db" "flash_live db1 = flash_live db"
    "lru_order (memLRU db1) = butlast (lru_order (memLRU db))" by blast
  have "store_wf e db1" using Suc.prems(1) 1 by (simp add: store_wf_def)
  moreover have "n \<le> length (lru_order (memLRU db1))" using Suc.prems(2) 1(6) by simp
  ultimately obtain db2 where 2: "check_run sv [length (qs @ [CkDone])..<length (qs @ [CkDone]) + n]
      ((qs @ [CkDone]) @ replicate n CkEvict @ pcs, db1) = Inr ((qs @ [CkDone]) @ replicate n CkDone @ pcs, db2)"
    "length (lru_order (memLRU db2)) = length (lru_order (memLRU db1)) - n"
    using Suc.IH [of db1 "qs @ [CkDone]"] by blast
  have "[length qs..<length qs + Suc n] = length qs # [Suc (length qs)..<Suc (length qs) + n]"
    by (simp add: upt_conv_Cons)
  then show ?case using 1(1,6) 2 by (simp add: check_step_def list_update_append)
qed simp

section \<open>With no entry, no thread goes on to evict\<close>

lemma check_run_empty:
  assumes mode: "lru_mode sv" and none: "lru_order (memLRU db) = []"
  shows "CkEvict \<notin> set pcs \<Longrightarrow> set is \<subseteq> {..<length pcs} \<Longrightarrow> \<exists>pcs'. check_run sv is (pcs, db) = Inr (pcs', db)"
proof (induction "is" arbitrary: pcs)
  case (Cons i "is")
  have m: "cache_mode sv = MODE_MEM_LRU" using mode by (simp add: lru_mode_def)
  have "check_test sv db = Inr False"
    using pool_size_lru [OF m, of db] none by (auto simp: check_test_def)
  moreover have "pcs ! i \<in> set pcs" using Cons.prems(2) by (intro nth_mem) simp
  then have "pcs ! i \<noteq> CkEvict" using Cons.prems(1) by metis
  ultimately have step: "check_step sv (pcs ! i) db = Inr (CkDone, db)"
    by (cases "pcs ! i") (simp_all add: check_step_def)
  have "CkEvict \<notin> set (pcs[i := CkDone])" using Cons.prems(1) set_update_subset_insert [of pcs i CkDone] by fastforce
  then show ?case using Cons.IH [of "pcs[i := CkDone]"] Cons.prems(2) step by simp
qed simp

section \<open>Properties\<close>

lemma check_test_over:
  assumes mode: "lru_mode sv" and wf: "store_wf e db" and ne: "lru_order (memLRU db) \<noteq> []"
    and few: "length (lru_order (memLRU db)) < 2 ^ 31" and over: "over_90 (mem_used db) (maxmemory sv)"
  shows "check_test sv db = Inr True"
proof -
  have m: "cache_mode sv = MODE_MEM_LRU" and ok: "mem_ok db"
    using mode wf by (simp_all add: lru_mode_def store_wf_def)
  have "0 < LRUCacheSize (memLRU db)" using LRUCacheSize_order [OF ok few] ne by (cases "lru_order (memLRU db)") auto
  then show ?thesis using over by (simp add: check_test_def pool_size_lru(1) [OF m])
qed

text \<open>
  C18: the check for memory that the threads of the clients make without a lock. With memory
  over the threshold, \<open>n\<close> threads can run their checks in any order without a fault exactly when
  the recency list is empty, where no thread goes on to evict, or has at least \<open>n\<close> entries: with
  fewer, the threads that have seen a non-empty list take more entries than there are.
\<close>

theorem unlocked_checks:
  assumes mode: "lru_mode sv" and wf: "store_wf e db"
    and few: "length (lru_order (memLRU db)) < 2 ^ 31" and over: "over_90 (mem_used db) (maxmemory sv)"
  shows "(\<forall>is. set is \<subseteq> {..<n} \<longrightarrow> (\<exists>s. check_run sv is (replicate n CkTest, db) = Inr s)) =
    (lru_order (memLRU db) = [] \<or> n \<le> length (lru_order (memLRU db)))"
proof
  assume n: "lru_order (memLRU db) = [] \<or> n \<le> length (lru_order (memLRU db))"
  show "\<forall>is. set is \<subseteq> {..<n} \<longrightarrow> (\<exists>s. check_run sv is (replicate n CkTest, db) = Inr s)"
  proof (intro allI impI)
    fix "is" assume i: "set is \<subseteq> {..<n}"
    show "\<exists>s. check_run sv is (replicate n CkTest, db) = Inr s"
    proof (cases "lru_order (memLRU db) = []")
      case True
      have "CkEvict \<notin> set (replicate n CkTest)" "set is \<subseteq> {..<length (replicate n CkTest)}" using i by simp_all
      from check_run_empty [OF mode True this] show ?thesis by blast
    next
      case False
      then have "pending (replicate n CkTest) \<le> length (lru_order (memLRU db))" using n by (simp add: pending_def)
      from check_run_safe [OF mode wf _ this, of "is"] i show ?thesis by auto
    qed
  qed
next
  let ?m = "length (lru_order (memLRU db))"
  assume all: "\<forall>is. set is \<subseteq> {..<n} \<longrightarrow> (\<exists>s. check_run sv is (replicate n CkTest, db) = Inr s)"
  show "lru_order (memLRU db) = [] \<or> n \<le> ?m"
  proof (rule ccontr)
    assume neg: "\<not> (lru_order (memLRU db) = [] \<or> n \<le> ?m)"
    then have ne: "lru_order (memLRU db) \<noteq> []" and "\<not> n \<le> ?m" by simp_all
    from this(2) obtain d where d: "n = Suc ?m + d" by (metis not_less_eq_eq le_Suc_ex)
    have t: "check_test sv db = Inr True" by (rule check_test_over [OF mode wf ne few over])
    have rep: "replicate n a = replicate ?m a @ a # replicate d a" for a :: check_pc
      by (simp add: d replicate_add [symmetric] flip: replicate_Suc replicate_append_same)
    have 1: "check_run sv [0..<n] (replicate n CkTest, db) = Inr (replicate n CkEvict, db)"
      using check_all_tested [OF t, of n "[]"] by simp
    from check_evictions [OF mode wf order_refl, of "[]" "CkEvict # replicate d CkEvict"] obtain db' where
      2: "check_run sv [0..<?m] (replicate n CkEvict, db) = Inr (replicate ?m CkDone @ CkEvict # replicate d CkEvict, db')"
      "lru_order (memLRU db') = []" unfolding rep by auto
    obtain err where "evict_to_queue sv db' = Inl err"
      using mode lru_evict_empty [OF 2(2)]
      by (cases "lru_empty (memLRU db')")
        (simp_all add: evict_to_queue_def lru_mode_def MODE_MEM_LRU_def MODE_MEM_FIFO_def LRUCacheEvict_def)
    then have "check_run sv ([0..<n] @ [0..<?m] @ [?m]) (replicate n CkTest, db) = Inl err"
      by (simp add: check_run_append 1 2(1) nth_append check_step_def)
    moreover have "set ([0..<n] @ [0..<?m] @ [?m]) \<subseteq> {..<n}" using d by auto
    with all obtain s where "check_run sv ([0..<n] @ [0..<?m] @ [?m]) (replicate n CkTest, db) = Inr s" by blast
    ultimately show False by simp
  qed
qed

text \<open>Two clients, one entry, and a limit of 40 bytes.\<close>

theorem unlocked_checks_witness:
  "\<exists>sv db is. cacheAdd sv (arg_object ''a'') (arg_object ''one'') sample_db = Inr db \<and> maxmemory sv = 40 \<and>
    set is \<subseteq> {..<2} \<and> (\<forall>s. check_run sv is ([CkTest, CkTest], db) \<noteq> Inr s)"
proof -
  define sv where "sv = sample_sv\<lparr>maxmemory := 40\<rparr>"
  have sv: "lru_mode sv" "maxmemory sv = 40" "cache_mode sv = MODE_MEM_LRU"
    using sample_modes by (simp_all add: sv_def lru_mode_def wbmode_def)
  have ok: "store_inv sample_env sample_db" "mem_ok sample_db" "queue_ok sample_db"
    using sample_inv(1) by (simp_all add: store_inv_def)
  have limbo: "\<not> lru_limbo ''a'' (memLRU sample_db)" by (simp add: sample_db_def lru_limbo_def)
  have good: "good_entry ''a'' ''one''" by (simp add: good_entry_def rec_len_def sizeof_hdr_def)
  have fresh: "mem_look sample_db ''a'' = None" "lru_order (memLRU sample_db) = []" "db_used sample_db = 65"
    by (simp_all add: mem_look_def sample_db_def)
  from cacheAdd_lru [OF sv(3) ok(2,3) sample_objects(1,2) good sample_objects(5) limbo] fresh
  obtain db where db: "cacheAdd sv (arg_object ''a'') (arg_object ''one'') sample_db = Inr db"
    "mem_ok db" "queue_ok db" "flashCache db = flashCache sample_db" "flash_live db = flash_live sample_db"
    "lru_order (memLRU db) = [''a'']" "db_used db = charge sizeof_hashEntry (charge 2 65)" by (auto simp: numeral_2_eq_2)
  have wf: "store_wf sample_env db" using ok(1) db(2-5) by (simp add: store_inv_wf store_wf_def)
  have "mem_used db = 99" by (simp add: mem_used_def db(7) charge_def sizeof_hashEntry_def)
  then have over: "over_90 (mem_used db) (maxmemory sv)" by (simp add: sv(2) over_90_exact)
  have "\<not> (\<forall>is. set is \<subseteq> {..<2} \<longrightarrow> (\<exists>s. check_run sv is (replicate 2 CkTest, db) = Inr s))"
    using unlocked_checks [OF sv(1) wf _ over, of 2] db(6) by simp
  then show ?thesis using db(1) sv(2) by (auto simp: numeral_2_eq_2)
qed

end
