(* ===== verification/FileWriter.thy ===== *)
theory FileWriter
  imports CacheFile
begin

text \<open>
  Write-buffer mode: the appends of the clients (\<open>WriteableCacheFile::Append\<close>, under the
  lock of the flash cache) interleaved with the file's writer thread (\<open>writerJobs\<close> and
  \<open>Write()\<close>, which takes no lock). The state is the file object, the bytes on disk, the
  position of the thread, and the bytes appended so far, which nothing reads.
\<close>

section \<open>Steps\<close>

text \<open>
  The thread waits on its semaphore (\<open>AtWait\<close>), is at the test of its loop (\<open>AtLoop\<close>), has found
  no buffer there and not yet reset \<open>is_writer_running\<close> (\<open>AtReset\<close>), is at the test of \<open>eof_\<close>
  (\<open>AtTest\<close>), or has ended (\<open>AtEnd\<close>).
\<close>

datatype writer_pc = AtWait | AtLoop | AtReset | AtTest | AtEnd

record writer_sys =
  ws_file :: cache_file
  ws_disk :: "byte list"
  ws_pc :: writer_pc
  ws_stream :: "byte list"

inductive writer_step :: "env \<Rightarrow> writer_sys \<Rightarrow> writer_sys \<Rightarrow> bool" for e where
  append: "rec_len k v < 2 ^ 32 \<Longrightarrow>
    cf_Append True e k v (ws_file s) (ws_disk s) = Inr (True, lba, f, c) \<Longrightarrow>
    writer_step e s (s\<lparr>ws_file := f, ws_disk := c,
      ws_stream := ws_stream s @ record_bytes (mk_record (env_crc e) k v)\<rparr>)"
| wake: "ws_pc s = AtWait \<Longrightarrow> 0 < sem_writer (ws_file s) \<Longrightarrow>
    writer_step e s (s\<lparr>ws_file := (ws_file s)\<lparr>sem_writer := sem_writer (ws_file s) - 1\<rparr>,
      ws_pc := AtLoop\<rparr>)"
| flush: "ws_pc s = AtLoop \<Longrightarrow> buf_doff (ws_file s) < buf_woff (ws_file s) \<Longrightarrow>
    cf_write_one e (\<lambda>n. False) (ws_file s) (ws_disk s) = Inr (f, c) \<Longrightarrow>
    writer_step e s (s\<lparr>ws_file := f, ws_disk := c\<rparr>)"
| drained: "ws_pc s = AtLoop \<Longrightarrow> \<not> buf_doff (ws_file s) < buf_woff (ws_file s) \<Longrightarrow>
    writer_step e s (s\<lparr>ws_file := (ws_file s)\<lparr>tid := Leaving\<rparr>, ws_pc := AtReset\<rparr>)"
| reset: "ws_pc s = AtReset \<Longrightarrow>
    writer_step e s (s\<lparr>ws_file := (ws_file s)\<lparr>is_writer_running := False\<rparr>, ws_pc := AtTest\<rparr>)"
| again: "ws_pc s = AtTest \<Longrightarrow> \<not> eof (ws_file s) \<Longrightarrow>
    writer_step e s (s\<lparr>ws_file := (ws_file s)\<lparr>tid := Running\<rparr>, ws_pc := AtWait\<rparr>)"
| leave: "ws_pc s = AtTest \<Longrightarrow> eof (ws_file s) \<Longrightarrow>
    writer_step e s (s\<lparr>ws_file := (cf_ClearBuffers (ws_file s))\<lparr>tid := Finished\<rparr>, ws_pc := AtEnd\<rparr>)"

inductive_simps writer_step_simps: "writer_step e s s'"

inductive writer_reach :: "env \<Rightarrow> writer_sys \<Rightarrow> writer_sys \<Rightarrow> bool" for e s0 where
  start: "writer_reach e s0 s0"
| step: "writer_reach e s0 s \<Longrightarrow> writer_step e s s' \<Longrightarrow> writer_reach e s0 s'"

definition writer_init :: "u32 \<Rightarrow> u32 \<Rightarrow> u32 \<Rightarrow> writer_sys" where
  "writer_init cid max_size wbs =
     \<lparr>ws_file = fst (snd (cf_Create False (cf_new cid max_size wbs))), ws_disk = [],
      ws_pc = AtWait, ws_stream = []\<rparr>"

section \<open>The appends on the stream\<close>

text \<open>\<open>bufs_of f st\<close>: the buffers of \<open>f\<close> hold the stream \<open>st\<close>, and none is empty.\<close>

definition bufs_of :: "cache_file \<Rightarrow> byte list \<Rightarrow> bool" where
  "bufs_of f st \<longleftrightarrow> 0 < unat (cf_wbs f) \<and>
     (\<exists>n. length st \<le> n * unat (cf_wbs f) \<and> n * unat (cf_wbs f) < length st + unat (cf_wbs f) \<and>
        cf_bufs f = mk_bufs (unat (cf_wbs f)) n st)"

lemma bufs_of_frame [simp]:
  "bufs_of (f\<lparr>buf_woff := a\<rparr>) st = bufs_of f st" "bufs_of (f\<lparr>buf_doff := a\<rparr>) st = bufs_of f st"
  "bufs_of (f\<lparr>filesize := w\<rparr>) st = bufs_of f st" "bufs_of (f\<lparr>sem_writer := a\<rparr>) st = bufs_of f st"
  "bufs_of (f\<lparr>is_writer_running := b\<rparr>) st = bufs_of f st" "bufs_of (f\<lparr>eof := b\<rparr>) st = bufs_of f st"
  "bufs_of (f\<lparr>disk_woff := w\<rparr>) st = bufs_of f st" "bufs_of (f\<lparr>key_lists := l\<rparr>) st = bufs_of f st"
  "bufs_of (f\<lparr>tid := t\<rparr>) st = bufs_of f st"
  by (simp_all add: bufs_of_def)

text \<open>What an append does to a file that is not full.\<close>

lemma cf_Append_buffered:
  fixes e :: env and k v :: "byte list"
  assumes "bufs_of f st" "\<not> eof f" "buf_woff f = length st div unat (cf_wbs f)"
    and "rec_len k v < 2 ^ 32"
  defines "r \<equiv> record_bytes (mk_record (env_crc e) k v)"
  shows "\<exists>bufs. let sz = disk_woff f + word_of_nat (rec_len k v);
      f1 = f\<lparr>cf_bufs := bufs, buf_woff := length (st @ r) div unat (cf_wbs f),
        key_lists := key_lists f @ [k], disk_woff := sz, eof := (cf_max_size f \<le> sz)\<rparr> in
    cf_Append True e k v f c =
      Inr (True, \<lparr>lba_cache_id = cf_id f, lba_off = disk_woff f, lba_size = word_of_nat (rec_len k v)\<rparr>,
           cf_DispatchBuffer f1, c) \<and>
    bufs_of f1 (st @ r)"
proof -
  let ?w = "unat (cf_wbs f)"
  from assms(1) obtain n where w: "0 < ?w" and n: "length st \<le> n * ?w" "cf_bufs f = mk_bufs ?w n st"
    "n * ?w < length st + ?w"
    unfolding bufs_of_def by blast
  have sz: "unat (CalcSize k v) = length r"
    using assms(4) by (simp add: CalcSize_rec_len r_def unsigned_of_nat take_bit_nat_eq_self)
  from ExpandBuffer_mk_bufs [OF w n(1), of "unat (CalcSize k v)"] obtain n' where
    n': "ExpandBuffer ?w (unat (CalcSize k v)) (cf_bufs f) (buf_woff f) = Inr (mk_bufs ?w n' st)"
    "length st + length r \<le> n' * ?w" "n' = n \<or> n' * ?w < length st + length r + ?w"
    using n(2) assms(3) sz by auto
  have n'': "n' * ?w < length st + length r + ?w" using n'(3) n(3) by auto
  have ser: "Serialize (mk_record (env_crc e) k v) (mk_bufs ?w n' st) (buf_woff f) =
      Inr (True, mk_bufs ?w n' (st @ r), length (st @ r) div ?w)"
    using Serialize_stream [OF w, of st "mk_record (env_crc e) k v" n'] n'(2) assms(3)
    by (simp add: r_def)
  have "bufs_of (f\<lparr>cf_bufs := mk_bufs ?w n' (st @ r)\<rparr>) (st @ r)"
    unfolding bufs_of_def using w n'(2) n'' by (intro conjI exI [of _ n']) simp_all
  then show ?thesis
    unfolding Let_def using assms(2) n'(1) ser CalcSize_rec_len [of k v]
    by (intro exI [of _ "mk_bufs ?w n' (st @ r)"])
      (simp add: cf_Append_def Let_def bufs_of_def)
qed

text \<open>A buffer below the end of the stream.\<close>

lemma bufs_of_nth:
  assumes "bufs_of f st" "i < length (cf_bufs f)"
  shows "wb_data (cf_bufs f ! i) = take (unat (cf_wbs f)) (drop (i * unat (cf_wbs f)) st)"
  using assms by (auto simp: bufs_of_def)

text \<open>\<open>DispatchBuffer\<close> touches three members.\<close>

lemma cf_DispatchBuffer_cases:
  "cf_DispatchBuffer f = f \<or>
   (\<not> is_writer_running f \<and> (eof f \<or> buf_doff f \<noteq> buf_woff f) \<and>
    cf_DispatchBuffer f = f\<lparr>buf_woff := (if eof f then buf_woff f + 1 else buf_woff f),
      sem_writer := sem_writer f + 1, is_writer_running := True\<rparr>)"
  by (auto simp: cf_DispatchBuffer_def Let_def)

section \<open>What is on disk is a prefix of what was appended\<close>

definition writer_ok :: "writer_sys \<Rightarrow> bool" where
  "writer_ok s \<longleftrightarrow>
     (let f = ws_file s; st = ws_stream s; w = unat (cf_wbs f) in
      0 < w \<and> cf_fd f = FdOpen \<and> (ws_pc s \<noteq> AtEnd \<longrightarrow> bufs_of f st) \<and>
      (ws_pc s = AtEnd \<longrightarrow> eof f \<and> cf_bufs f = []) \<and>
      ws_disk s = take (buf_doff f * w) st \<and> buf_doff f \<le> buf_woff f \<and>
      buf_woff f \<le> length st div w + (if eof f then 1 else 0) \<and>
      (\<not> eof f \<longrightarrow> buf_woff f = length st div w))"

lemma writer_ok_init: "0 < wbs \<Longrightarrow> writer_ok (writer_init cid max_size wbs)"
  by (auto simp: writer_ok_def writer_init_def cf_Create_def cf_new_def Let_def bufs_of_def
      mk_bufs_def word_less_nat_alt)

lemma take_doff:
  fixes w :: nat
  assumes "d \<le> length st div w"
  shows "take (d * w) (st @ r) = take (d * w) st"
proof -
  have "d * w \<le> length st div w * w" using assms by (rule mult_le_mono1)
  also have "\<dots> \<le> length st" by simp
  finally show ?thesis by simp
qed

lemma cf_DispatchBuffer_frame [simp]:
  "cf_bufs (cf_DispatchBuffer f) = cf_bufs f" "cf_wbs (cf_DispatchBuffer f) = cf_wbs f"
  "cf_fd (cf_DispatchBuffer f) = cf_fd f" "buf_doff (cf_DispatchBuffer f) = buf_doff f"
  "eof (cf_DispatchBuffer f) = eof f" "bufs_of (cf_DispatchBuffer f) st = bufs_of f st"
  "buf_woff f \<le> buf_woff (cf_DispatchBuffer f)"
  "buf_woff (cf_DispatchBuffer f) \<le> buf_woff f + (if eof f then 1 else 0)"
  by (auto simp: cf_DispatchBuffer_def Let_def bufs_of_def)

lemma cf_Append_eof: "eof f \<Longrightarrow> cf_Append wbmode e k v f c = Inr (False, lba_zero, f, c)"
  by (simp add: cf_Append_def)

lemma writer_ok_append:
  assumes ok: "writer_ok s" "ws_pc s \<noteq> AtEnd" and k: "rec_len k v < 2 ^ 32"
    and ap: "cf_Append True e k v (ws_file s) (ws_disk s) = Inr (True, lba, f, c)"
  shows "writer_ok (s\<lparr>ws_file := f, ws_disk := c,
      ws_stream := ws_stream s @ record_bytes (mk_record (env_crc e) k v)\<rparr>)"
proof -
  let ?g = "ws_file s" and ?st = "ws_stream s" and ?r = "record_bytes (mk_record (env_crc e) k v)"
  have ne: "\<not> eof ?g" using ap cf_Append_eof [of ?g] by fastforce
  from ok have g: "bufs_of ?g ?st" "buf_woff ?g = length ?st div unat (cf_wbs ?g)"
    "buf_doff ?g \<le> buf_woff ?g" "ws_disk s = take (buf_doff ?g * unat (cf_wbs ?g)) ?st"
    "0 < unat (cf_wbs ?g)" "cf_fd ?g = FdOpen"
    using ne by (simp_all add: writer_ok_def Let_def)
  from cf_Append_buffered [OF g(1) ne g(2) k, of e "ws_disk s"] ap obtain f1 where f1:
    "f = cf_DispatchBuffer f1" "c = ws_disk s" "bufs_of f1 (?st @ ?r)"
    "buf_woff f1 = length (?st @ ?r) div unat (cf_wbs ?g)" "cf_wbs f1 = cf_wbs ?g"
    "cf_fd f1 = cf_fd ?g" "buf_doff f1 = buf_doff ?g"
    by (fastforce simp: Let_def)
  have "buf_woff f = buf_woff f1" if "\<not> eof f1"
    using that by (auto simp: f1(1) cf_DispatchBuffer_def Let_def)
  moreover have "length ?st div unat (cf_wbs ?g) \<le> length (?st @ ?r) div unat (cf_wbs ?g)"
    by (intro div_le_mono) simp
  moreover have "buf_woff f1 \<le> buf_woff f" "buf_woff f \<le> buf_woff f1 + (if eof f1 then 1 else 0)"
    unfolding f1(1) by (rule cf_DispatchBuffer_frame)+
  moreover have "take (buf_doff ?g * unat (cf_wbs ?g)) (?st @ ?r) = ws_disk s"
    using g(2-4) take_doff [of "buf_doff ?g" ?st "unat (cf_wbs ?g)" ?r] by simp
  ultimately show ?thesis
    using ok(2) g f1 by (simp add: writer_ok_def Let_def)
qed

lemma writer_ok_step: "writer_step e s s' \<Longrightarrow> writer_ok s \<Longrightarrow> writer_ok s'"
proof (induction rule: writer_step.induct)
  case (append k v s lba f c)
  then have "\<not> eof (ws_file s)" using cf_Append_eof [of "ws_file s"] by fastforce
  then have "ws_pc s \<noteq> AtEnd" using append.prems by (auto simp: writer_ok_def Let_def)
  with append writer_ok_append show ?case by blast
next
  case (flush s f c)
  let ?f = "ws_file s" and ?w = "unat (cf_wbs (ws_file s))"
  from cf_write_one_Inr [OF flush(3)] have f: "buf_doff ?f < length (cf_bufs ?f)"
    "c = ws_disk s @ wb_data (cf_bufs ?f ! buf_doff ?f)" "cf_bufs f = cf_bufs ?f"
    "cf_wbs f = cf_wbs ?f" "eof f = eof ?f" "buf_woff f = buf_woff ?f"
    "buf_doff f = buf_doff ?f + 1" "cf_fd f = cf_fd ?f"
    by (auto simp: Let_def)
  have b: "bufs_of ?f (ws_stream s)" using flush by (simp add: writer_ok_def Let_def)
  have "take (buf_doff ?f * ?w) (ws_stream s) @ take ?w (drop (buf_doff ?f * ?w) (ws_stream s)) =
      take (buf_doff ?f * ?w + ?w) (ws_stream s)" by (simp add: take_add)
  with f bufs_of_nth [OF b f(1)] flush b show ?case
    by (simp add: writer_ok_def Let_def bufs_of_def add.commute)
qed (auto simp: writer_ok_def Let_def cf_ClearBuffers_def)

lemma writer_reach_ok: "writer_reach e s0 s \<Longrightarrow> writer_ok s0 \<Longrightarrow> writer_ok s"
  by (induction rule: writer_reach.induct) (auto intro: writer_ok_step)

section \<open>The tail of a file\<close>

text \<open>
  A full file is complete on disk in the end when the last buffer was dispatched (\<open>buf_woff\<close>
  one past it), and never when it was not.
\<close>

lemma div_mult_bounds:
  fixes w :: nat
  assumes "0 < w"
  shows "length st \<le> (length st div w + 1) * w"
    and "length st mod w \<noteq> 0 \<Longrightarrow> length st div w * w < length st"
proof -
  show "length st \<le> (length st div w + 1) * w"
    using mod_less_divisor [OF assms, of "length st"] div_mult_mod_eq [of "length st" w]
    unfolding add_mult_distrib by linarith
  show "length st div w * w < length st" if "length st mod w \<noteq> 0"
    using that div_mult_mod_eq [of "length st" w] by linarith
qed

lemma writer_step_full:
  assumes "writer_step e s s'" and "eof (ws_file s)"
  shows "eof (ws_file s') \<and> ws_stream s' = ws_stream s \<and> cf_wbs (ws_file s') = cf_wbs (ws_file s) \<and>
    buf_woff (ws_file s') = buf_woff (ws_file s) \<and>
    (ws_pc s' \<in> {AtReset, AtTest, AtEnd} \<longrightarrow>
       ws_pc s \<in> {AtReset, AtTest, AtEnd} \<and> buf_doff (ws_file s') = buf_doff (ws_file s) \<or>
       buf_woff (ws_file s) \<le> buf_doff (ws_file s'))"
  using assms
  by (cases rule: writer_step.cases)
    (auto simp: cf_Append_eof cf_ClearBuffers_def Let_def dest!: cf_write_one_Inr)

lemma writer_reach_full:
  assumes "writer_reach e s s'" "eof (ws_file s)"
  shows "eof (ws_file s') \<and> ws_stream s' = ws_stream s \<and> cf_wbs (ws_file s') = cf_wbs (ws_file s) \<and>
    buf_woff (ws_file s') = buf_woff (ws_file s) \<and>
    (ws_pc s \<in> {AtWait, AtLoop} \<longrightarrow> ws_pc s' \<in> {AtReset, AtTest, AtEnd} \<longrightarrow>
       buf_woff (ws_file s) \<le> buf_doff (ws_file s'))"
  using assms
proof (induction rule: writer_reach.induct)
  case (step s1 s2)
  then have "eof (ws_file s1)" by simp
  from writer_step_full [OF step(2) this] step show ?case by (auto simp del: insert_iff)
qed auto

lemma cf_Append_tid:
  "cf_Append wbmode e k v f c = Inr (ok, lba, f', c') \<Longrightarrow> tid f' = tid f"
  by (auto simp: cf_Append_def cf_Write_direct_def cf_DispatchBuffer_def Let_def bnd_eq_Inr
      split: if_splits fd_state.splits)

text \<open>The thread runs until it has left its loop.\<close>

lemma writer_reach_tid:
  "writer_reach e s0 s \<Longrightarrow> ws_pc s0 = AtWait \<Longrightarrow> tid (ws_file s0) = Running \<Longrightarrow>
   ws_pc s \<in> {AtWait, AtLoop} \<longrightarrow> tid (ws_file s) = Running"
proof (induction rule: writer_reach.induct)
  case (step s s')
  from step(2) show ?case
  proof cases
    case (append k v lba f c)
    then show ?thesis using step.IH step.prems cf_Append_tid [OF append(3)] by simp
  next
    case (flush f c)
    then show ?thesis using step.IH step.prems cf_write_one_Inr [OF flush(4)] by (simp add: Let_def)
  qed (use step.IH step.prems in simp_all)
qed simp

lemma writer_tail_flushed:
  assumes ok: "writer_ok s" and full: "eof (ws_file s)" and pc: "ws_pc s \<in> {AtWait, AtLoop}"
    and disp: "buf_woff (ws_file s) = length (ws_stream s) div unat (cf_wbs (ws_file s)) + 1"
    and reach: "writer_reach e s s'" and fin: "ws_pc s' = AtEnd"
  shows "ws_disk s' = ws_stream s"
proof -
  let ?w = "unat (cf_wbs (ws_file s))" and ?st = "ws_stream s"
  note R = writer_reach_full [OF reach full]
  have ok': "writer_ok s'" using writer_reach_ok [OF reach ok] .
  then have w: "0 < ?w" and disk: "ws_disk s' = take (buf_doff (ws_file s') * ?w) ?st"
    using R by (simp_all add: writer_ok_def Let_def)
  have "(length ?st div ?w + 1) * ?w \<le> buf_doff (ws_file s') * ?w"
    using R pc fin disp by (intro mult_le_mono1) auto
  with div_mult_bounds(1) [OF w, of ?st] have "length ?st \<le> buf_doff (ws_file s') * ?w" by linarith
  with disk show ?thesis by simp
qed

lemma writer_tail_lost:
  assumes ok: "writer_ok s" and full: "eof (ws_file s)"
    and undisp: "buf_woff (ws_file s) = length (ws_stream s) div unat (cf_wbs (ws_file s))"
    and partial: "length (ws_stream s) mod unat (cf_wbs (ws_file s)) \<noteq> 0"
    and reach: "writer_reach e s s'"
  shows "ws_stream s' = ws_stream s" "length (ws_disk s') < length (ws_stream s)"
proof -
  let ?w = "unat (cf_wbs (ws_file s))" and ?st = "ws_stream s"
  note R = writer_reach_full [OF reach full]
  have ok': "writer_ok s'" using writer_reach_ok [OF reach ok] .
  then have w: "0 < ?w" and disk: "ws_disk s' = take (buf_doff (ws_file s') * ?w) ?st"
    and d: "buf_doff (ws_file s') \<le> length ?st div ?w"
    using R undisp by (simp_all add: writer_ok_def Let_def)
  from d have "buf_doff (ws_file s') * ?w \<le> length ?st div ?w * ?w" by (rule mult_le_mono1)
  with div_mult_bounds(2) [OF w partial] have "buf_doff (ws_file s') * ?w < length ?st" by linarith
  with disk show "length (ws_disk s') < length (ws_stream s)" by simp
  show "ws_stream s' = ws_stream s" using R by blast
qed

text \<open>The two cases of the append that fills the file.\<close>

lemma cf_Append_fills:
  assumes ok: "writer_ok s" and k: "rec_len k v < 2 ^ 32"
    and ap: "cf_Append True e k v (ws_file s) (ws_disk s) = Inr (True, lba, f, c)" and full: "eof f"
  shows "cf_wbs f = cf_wbs (ws_file s) \<and>
    buf_woff f = length (ws_stream s @ record_bytes (mk_record (env_crc e) k v)) div unat (cf_wbs f) +
      (if is_writer_running (ws_file s) then 0 else 1)"
proof -
  let ?g = "ws_file s"
  have ne: "\<not> eof ?g" using ap cf_Append_eof [of ?g] by fastforce
  have pc: "ws_pc s \<noteq> AtEnd" using ok ne by (auto simp: writer_ok_def Let_def)
  from ok have g: "bufs_of ?g (ws_stream s)" "buf_woff ?g = length (ws_stream s) div unat (cf_wbs ?g)"
    using ne pc by (simp_all add: writer_ok_def Let_def)
  from cf_Append_buffered [OF g(1) ne g(2) k, of e "ws_disk s"] ap obtain f1 where f1:
    "f = cf_DispatchBuffer f1" "is_writer_running f1 = is_writer_running ?g"
    "buf_woff f1 = length (ws_stream s @ record_bytes (mk_record (env_crc e) k v)) div unat (cf_wbs ?g)"
    "cf_wbs f1 = cf_wbs ?g"
    by (fastforce simp: Let_def)
  have "eof f1" using full by (simp add: f1(1))
  with f1 show ?thesis by (auto simp: cf_DispatchBuffer_def Let_def)
qed

section \<open>Reading buffered records\<close>

lemma cf_Read_buffered:
  assumes e: "env_ok e" and ok: "writer_ok s" and ne: "\<not> eof (ws_file s)"
    and st: "stored e (ws_stream s) lba k v"
  shows "cf_Read True e lba (ws_file s) (ws_disk s) = Inr (Some (k, v))"
proof -
  let ?f = "ws_file s" and ?st = "ws_stream s"
  let ?w = "unat (cf_wbs ?f)"
  let ?bs = "take (unat (lba_size lba)) (drop (unat (lba_off lba)) ?st)"
  from ok ne obtain n where w: "0 < ?w" and n: "length ?st \<le> n * ?w"
    "cf_bufs ?f = mk_bufs ?w n ?st" "buf_woff ?f = length ?st div ?w"
    by (auto simp: writer_ok_def Let_def bufs_of_def)
  have "ReadBuffer ?w (cf_bufs ?f) (buf_woff ?f) (unat (lba_off lba)) (unat (lba_size lba)) = Inr ?bs"
    using ReadBuffer_stream [OF w n(1)] n(2,3) st by (simp add: stored_def)
  moreover have "length ?bs = unat (lba_size lba)" using st by (simp add: stored_def)
  ultimately show ?thesis using stored_decode [OF e st] st ne by (simp add: cf_Read_def)
qed

text \<open>
  Once the last, partly filled buffer has been dispatched, \<open>buf_woff\<close> is one past it, and
  the assertion of \<open>ReadBuffer\<close> fails for every record that reaches into it.
\<close>

lemma read_loop_asserts:
  fixes w :: nat
  assumes w: "0 < w" and part: "length s mod w \<noteq> 0" and n: "length s \<le> n * w"
  defines "q \<equiv> length s div w"
  shows "i \<le> q \<Longrightarrow> off < w \<Longrightarrow> q * w < i * w + off + k \<Longrightarrow> 0 < k \<Longrightarrow>
    read_loop_buf (q + 1) i k off (drop i (mk_bufs w n s)) = Inl AssertFail"
proof (induction "q - i" arbitrary: i off k)
  case 0
  have len: "length s = q * w + length s mod w" by (simp add: q_def)
  have qn: "q < n" using n part len by (metis less_mult_imp_div_less q_def le_neq_implies_less
      mod_mult_self2_is_0)
  from 0 have i: "i = q" by simp
  have m: "length s mod w < w" using w by simp
  have "drop q (mk_bufs w n s) = mk_bufs w n s ! q # drop (Suc q) (mk_bufs w n s)"
    using qn Cons_nth_drop_Suc [of q "mk_bufs w n s"] by simp
  moreover have "wb_free (mk_bufs w n s ! q) = w - length s mod w"
    using mk_bufs_current(2) [OF len m qn] .
  moreover have "\<not> w \<le> length s mod w" using m by linarith
  ultimately show ?case using 0 i by simp
next
  case (Suc d)
  have len: "length s = q * w + length s mod w" by (simp add: q_def)
  from Suc have i: "i < q" by simp
  then have "Suc i * w \<le> q * w" by (intro mult_le_mono1) simp
  then have full: "i * w + w \<le> length s" and iq: "i * w + w \<le> q * w" using len by simp_all
  have "i * w < n * w" using full n w by linarith
  then have qn: "i < n" by simp
  let ?b = "mk_bufs w n s ! i"
  have b: "wb_used ?b = w" "wb_free ?b = 0" using qn full by (simp_all add: wb_used_def wb_free_def)
  have dr: "drop i (mk_bufs w n s) = ?b # drop (Suc i) (mk_bufs w n s)"
    using qn Cons_nth_drop_Suc [of i "mk_bufs w n s"] by simp
  have k: "w - off < k" using Suc.prems iq by linarith
  have "read_loop_buf (q + 1) (i + 1) (k - (w - off)) 0 (drop (i + 1) (mk_bufs w n s)) = Inl AssertFail"
    using Suc.prems Suc.hyps(2) i k by (intro Suc.hyps(1)) (auto simp: algebra_simps)
  then show ?case using dr b k i Suc.prems by simp
qed

lemma ReadBuffer_asserts:
  assumes "0 < w" and "length s mod w \<noteq> 0" and "length s \<le> n * w"
    and "off + sz \<le> length s" and "length s div w * w < off + sz" and "0 < sz"
  shows "ReadBuffer w (mk_bufs w n s) (length s div w + 1) off sz = Inl AssertFail"
proof -
  have i: "off div w \<le> length s div w" using assms(4) by (intro div_le_mono) simp
  moreover have "length s div w * w < off div w * w + off mod w + sz" using assms(5) by simp
  ultimately have "read_loop_buf (length s div w + 1) (off div w) sz (off mod w)
      (drop (off div w) (mk_bufs w n s)) = Inl AssertFail"
    using read_loop_asserts [OF assms(1-3), of "off div w" "off mod w" sz] assms(1,6) by simp
  with i assms(1) show ?thesis by (simp add: ReadBuffer_def)
qed

section \<open>Closing a file that is not full\<close>

text \<open>
  \<open>Close\<close> and the last \<open>DispatchBuffer\<close> count \<open>buf_woff\<close> up by one to make the thread write
  the last buffer. The thread then writes everything, unless there is no such buffer.
\<close>

lemma cf_write_bufs_stream:
  assumes e: "env_ok e" and w: "unat (cf_wbs f) = w"
  shows "cf_fd f = FdOpen \<Longrightarrow> cf_bufs f = mk_bufs w n st \<Longrightarrow> buf_doff f \<le> buf_woff f \<Longrightarrow>
    buf_doff f \<le> n \<Longrightarrow>
    (if buf_woff f \<le> n
     then \<exists>f'. cf_write_bufs e (\<lambda>_. False) f (take (buf_doff f * w) st) = Inr (f', take (buf_woff f * w) st) \<and>
       is_writer_running f' = False
     else cf_write_bufs e (\<lambda>_. False) f (take (buf_doff f * w) st) = Inl OutOfBounds)"
  using w
proof (induction "buf_woff f - buf_doff f" arbitrary: f)
  case 0
  then show ?case by (simp add: cf_write_bufs.simps [of e _ f])
next
  case (Suc j)
  show ?case
  proof (cases "buf_doff f < n")
    case False
    then have "buf_doff f < buf_woff f" "\<not> buf_woff f \<le> n" using Suc.prems Suc.hyps(2) by simp_all
    with False Suc.prems show ?thesis
      by (simp add: cf_write_bufs.simps [of e _ f] cf_write_one_def)
  next
    case True
    let ?d = "take w (drop (buf_doff f * w) st)"
    let ?f1 = "f\<lparr>filesize := filesize f + word_of_nat (length ?d), buf_doff := buf_doff f + 1\<rparr>"
    have "take (buf_doff f * w) st @ ?d = take (buf_doff ?f1 * w) st"
    proof -
      have "buf_doff ?f1 * w = buf_doff f * w + w" by simp
      then show ?thesis by (simp only: take_add)
    qed
    then have *: "cf_write_one e (\<lambda>_. False) f (take (buf_doff f * w) st) = Inr (?f1, take (buf_doff ?f1 * w) st)"
      using Suc.prems True e
      by (simp add: cf_write_one_def Let_def env_ok_def write_loop_delivers wb_used_def)
    have "cf_write_bufs e (\<lambda>_. False) f (take (buf_doff f * w) st) =
        cf_write_bufs e (\<lambda>_. False) ?f1 (take (buf_doff ?f1 * w) st)"
    proof -
      have "buf_doff f < buf_woff f" using Suc.hyps(2) by simp
      with * show ?thesis by (simp add: cf_write_bufs.simps [of e _ f])
    qed
    moreover obtain f1 where f1: "f1 = ?f1" by blast
    ultimately have eq: "cf_write_bufs e (\<lambda>_. False) f (take (buf_doff f * w) st) =
        cf_write_bufs e (\<lambda>_. False) f1 (take (buf_doff f1 * w) st)" by simp
    have "j = buf_woff f1 - buf_doff f1" "buf_doff f1 \<le> buf_woff f1" "buf_doff f1 \<le> n"
      "cf_fd f1 = FdOpen" "cf_bufs f1 = mk_bufs w n st" "unat (cf_wbs f1) = w" "buf_woff f1 = buf_woff f"
      using Suc.hyps(2) Suc.prems True by (simp_all add: f1)
    with Suc.hyps(1) [of f1] show ?thesis unfolding eq by (auto split: if_splits)
  qed
qed

lemma bufs_of_count:
  assumes "bufs_of f st"
  shows "cf_bufs f = mk_bufs (unat (cf_wbs f))
    (length st div unat (cf_wbs f) + (if length st mod unat (cf_wbs f) = 0 then 0 else 1)) st"
proof -
  let ?w = "unat (cf_wbs f)"
  from assms obtain n where n: "0 < ?w" "length st \<le> n * ?w" "n * ?w < length st + ?w"
    "cf_bufs f = mk_bufs ?w n st" by (auto simp: bufs_of_def)
  define q m where "q = length st div ?w" and "m = length st mod ?w"
  have len: "length st = q * ?w + m" and m: "m < ?w" using n(1) by (simp_all add: q_def m_def)
  have "n = q + (if m = 0 then 0 else 1)"
  proof -
    have "(q + 2) * ?w = q * ?w + 2 * ?w" by (simp add: algebra_simps)
    then have "n * ?w < (q + 2) * ?w" "q * ?w \<le> n * ?w" using n(2,3) len m by linarith+
    then have r: "q \<le> n" "n < q + 2" using n(1) by (simp_all only: mult_less_cancel2 mult_le_cancel2)
    show ?thesis
    proof (cases "n = q")
      case True
      then show ?thesis using n(2) len by auto
    next
      case False
      then have "n = q + 1" using r by simp
      then show ?thesis using n(3) len by auto
    qed
  qed
  with n(4) show ?thesis by (simp add: q_def m_def)
qed

lemma rec_len_pos: "0 < rec_len k v"
  by (simp add: rec_len_def sizeof_hdr_def)

section \<open>The writer finishes\<close>

text \<open>
  Once the file is full and the writer thread is in its loop, it writes what has been handed to
  it and ends, if all these buffers exist.
\<close>

lemma cf_write_one_done:
  assumes "env_ok e" "cf_fd f = FdOpen" "buf_doff f < length (cf_bufs f)"
  shows "\<exists>c'. cf_write_one e (\<lambda>n. False) f c = Inr
    (f\<lparr>filesize := filesize f + word_of_nat (wb_used (cf_bufs f ! buf_doff f)), buf_doff := buf_doff f + 1\<rparr>, c')"
  using assms by (auto simp: cf_write_one_def Let_def env_ok_def write_loop_delivers)

lemma writer_reach_trans:
  "writer_reach e b c \<Longrightarrow> writer_reach e a b \<Longrightarrow> writer_reach e a c"
  by (induction rule: writer_reach.induct) (auto intro: writer_reach.intros)

lemma writer_drains:
  assumes e: "env_ok e"
  shows "cf_fd (ws_file s) = FdOpen \<Longrightarrow> eof (ws_file s) \<Longrightarrow> ws_pc s = AtLoop \<Longrightarrow>
    buf_woff (ws_file s) \<le> length (cf_bufs (ws_file s)) \<Longrightarrow>
    \<exists>s'. writer_reach e s s' \<and> ws_pc s' = AtEnd"
proof (induction "buf_woff (ws_file s) - buf_doff (ws_file s)" arbitrary: s)
  case 0
  let ?s0 = "s\<lparr>ws_file := (ws_file s)\<lparr>tid := Leaving\<rparr>, ws_pc := AtReset\<rparr>"
  let ?s1 = "?s0\<lparr>ws_file := (ws_file ?s0)\<lparr>is_writer_running := False\<rparr>, ws_pc := AtTest\<rparr>"
  let ?s2 = "?s1\<lparr>ws_file := (cf_ClearBuffers (ws_file ?s1))\<lparr>tid := Finished\<rparr>, ws_pc := AtEnd\<rparr>"
  have "writer_step e s ?s0" using 0 by (intro writer_step.drained) simp_all
  moreover have "writer_step e ?s0 ?s1" by (intro writer_step.reset) simp
  moreover have "writer_step e ?s1 ?s2" using 0 by (intro writer_step.leave) simp_all
  ultimately have "writer_reach e s ?s2" by (meson writer_reach.intros)
  then show ?case by (intro exI [of _ ?s2]) simp
next
  case (Suc n)
  let ?f = "ws_file s"
  have d: "buf_doff ?f < buf_woff ?f" using Suc.hyps(2) by simp
  obtain f1 c1 where w: "cf_write_one e (\<lambda>n. False) ?f (ws_disk s) = Inr (f1, c1)"
    and f1: "f1 = ?f\<lparr>filesize := filesize ?f + word_of_nat (wb_used (cf_bufs ?f ! buf_doff ?f)), buf_doff := buf_doff ?f + 1\<rparr>"
    using cf_write_one_done [OF e, of ?f "ws_disk s"] d Suc.prems by auto
  let ?s1 = "s\<lparr>ws_file := f1, ws_disk := c1\<rparr>"
  have step: "writer_step e s ?s1" using w d Suc.prems(3) by (intro writer_step.flush)
  have "\<exists>s'. writer_reach e ?s1 s' \<and> ws_pc s' = AtEnd"
    using Suc.hyps(2) Suc.prems by (intro Suc.hyps(1)) (simp_all add: f1)
  then show ?case using step writer_reach_trans writer_reach.intros by meson
qed

lemma bufs_of_length:
  assumes "bufs_of f st" "length st mod unat (cf_wbs f) \<noteq> 0"
  shows "length st div unat (cf_wbs f) < length (cf_bufs f)"
proof -
  let ?w = "unat (cf_wbs f)"
  from assms(1) obtain n where n: "0 < ?w" "length st \<le> n * ?w" "length (cf_bufs f) = n"
    by (auto simp: bufs_of_def)
  have "length st div ?w * ?w < length st" using div_mult_bounds(2) [OF n(1) assms(2)] .
  with n(2) have "length st div ?w * ?w < n * ?w" by linarith
  with n show ?thesis by simp
qed

text \<open>The state after an append that filled the file.\<close>

definition after_append :: "env \<Rightarrow> byte list \<Rightarrow> byte list \<Rightarrow> cache_file \<Rightarrow> byte list \<Rightarrow> writer_sys \<Rightarrow> writer_sys" where
  "after_append e k v f c s = s\<lparr>ws_file := f, ws_disk := c,
     ws_stream := ws_stream s @ record_bytes (mk_record (env_crc e) k v)\<rparr>"

lemma after_append_simps [simp]:
  "ws_file (after_append e k v f c s) = f" "ws_pc (after_append e k v f c s) = ws_pc s"
  "ws_stream (after_append e k v f c s) = ws_stream s @ record_bytes (mk_record (env_crc e) k v)"
  by (simp_all add: after_append_def)

lemma append_posts:
  assumes "writer_ok s" "ws_pc s \<noteq> AtEnd" "rec_len k v < 2 ^ 32" "\<not> is_writer_running (ws_file s)"
    and ap: "cf_Append True e k v (ws_file s) (ws_disk s) = Inr (True, lba, f, c)" and "eof f"
  shows "0 < sem_writer f"
proof -
  have ne: "\<not> eof (ws_file s)" using ap by (cases "eof (ws_file s)") (simp_all add: cf_Append_eof)
  have "bufs_of (ws_file s) (ws_stream s)"
    "buf_woff (ws_file s) = length (ws_stream s) div unat (cf_wbs (ws_file s))"
    using assms(1,2) ne by (simp_all add: writer_ok_def Let_def)
  from cf_Append_buffered [OF this(1) ne this(2) assms(3), of e "ws_disk s"] ap assms(4,6) show ?thesis
    by (auto simp: Let_def cf_DispatchBuffer_def split: if_splits)
qed

section \<open>Properties\<close>

text \<open>
  C28: the bytes on disk are a prefix of the bytes appended. From the creation of a file with
  write buffers on, under any interleaving of the appending thread with the writer thread, the
  file holds the first bytes of the records appended so far, a whole number of buffers of them,
  and never more buffers than have been handed to the writer.
\<close>

theorem disk_is_prefix:
  assumes "0 < wbs" and "writer_reach e (writer_init cid max_size wbs) s"
  shows "ws_disk s = take (buf_doff (ws_file s) * unat (cf_wbs (ws_file s))) (ws_stream s) \<and>
    buf_doff (ws_file s) \<le> buf_woff (ws_file s)"
  using writer_reach_ok [OF assms(2) writer_ok_init [OF assms(1)]] by (simp add: writer_ok_def Let_def)

text \<open>The first append to a new file, for the examples.\<close>

lemma first_append:
  fixes cid max_size wbs :: u32 and k v :: "byte list"
  assumes "0 < wbs" and "rec_len k v < 2 ^ 32"
  defines "s \<equiv> writer_init cid max_size wbs" and "n \<equiv> word_of_nat (rec_len k v) :: u32"
  shows "\<exists>f. cf_Append True e k v (ws_file s) (ws_disk s) =
      Inr (True, \<lparr>lba_cache_id = cid, lba_off = 0, lba_size = n\<rparr>, f, []) \<and>
    eof f = (max_size \<le> n) \<and> cf_wbs f = wbs \<and> disk_woff f = n \<and> cf_max_size f = max_size \<and> cf_id f = cid \<and>
    (unat wbs \<le> rec_len k v \<longrightarrow> is_writer_running f)"
proof -
  let ?r = "record_bytes (mk_record (env_crc e) k v)"
  have f: "cf_wbs (ws_file s) = wbs" "cf_bufs (ws_file s) = []" "\<not> eof (ws_file s)"
    "buf_woff (ws_file s) = 0" "disk_woff (ws_file s) = 0" "cf_max_size (ws_file s) = max_size"
    "cf_id (ws_file s) = cid" "\<not> is_writer_running (ws_file s)" "buf_doff (ws_file s) = 0" "ws_disk s = []"
    by (simp_all add: s_def writer_init_def cf_Create_def cf_new_def)
  have w: "0 < unat wbs" using assms(1) by (simp add: word_less_nat_alt)
  have "bufs_of (ws_file s) []" using w f(1,2) by (simp add: bufs_of_def mk_bufs_def)
  from cf_Append_buffered [OF this f(3) _ assms(2), of e "ws_disk s"] f obtain bufs where
    A: "cf_Append True e k v (ws_file s) (ws_disk s) =
      Inr (True, \<lparr>lba_cache_id = cid, lba_off = 0, lba_size = n\<rparr>, cf_DispatchBuffer
        ((ws_file s)\<lparr>cf_bufs := bufs, buf_woff := length ?r div unat wbs,
          key_lists := key_lists (ws_file s) @ [k], disk_woff := n, eof := (max_size \<le> n)\<rparr>), [])"
    by (auto simp: Let_def n_def)
  have "0 < rec_len k v div unat wbs" if "unat wbs \<le> rec_len k v" using that w by (simp add: div_greater_zero_iff)
  with A f show ?thesis by (auto simp: cf_DispatchBuffer_def)
qed

lemma sample_rec_len [simp]: "rec_len ''k'' ''v'' = 18"
  by (simp add: rec_len_def sizeof_hdr_def)

lemma sample_first:
  obtains f lba where
    "cf_Append True sample_env ''k'' ''v'' (ws_file (writer_init 0 max_size 16)) [] = Inr (True, lba, f, [])"
    "lba = \<lparr>lba_cache_id = 0, lba_off = 0, lba_size = 18\<rparr>"
    "eof f = (max_size \<le> 18)" "cf_wbs f = 16" "is_writer_running f" "disk_woff f = 18"
    "cf_max_size f = max_size"
    "writer_step sample_env (writer_init 0 max_size 16)
      (after_append sample_env ''k'' ''v'' f [] (writer_init 0 max_size 16))"
proof -
  let ?s = "writer_init 0 max_size 16"
  obtain f where f: "cf_Append True sample_env ''k'' ''v'' (ws_file ?s) (ws_disk ?s) =
      Inr (True, \<lparr>lba_cache_id = 0, lba_off = 0, lba_size = 18\<rparr>, f, [])"
    "eof f = (max_size \<le> 18)" "cf_wbs f = 16" "is_writer_running f" "disk_woff f = 18"
    "cf_max_size f = max_size"
    using first_append [of 16 "''k''" "''v''" sample_env 0 max_size] by auto
  moreover have "ws_disk ?s = []" by (simp add: writer_init_def)
  moreover have "writer_step sample_env ?s (after_append sample_env ''k'' ''v'' f [] ?s)"
    unfolding after_append_def using f(1) by (intro writer_step.append) simp_all
  ultimately show ?thesis using that by simp
qed

theorem disk_is_prefix_witness:
  "\<exists>s. writer_reach sample_env (writer_init 0 30 16) s \<and> length (ws_stream s) = 18 \<and>
    ws_disk s = take (buf_doff (ws_file s) * unat (cf_wbs (ws_file s))) (ws_stream s)"
proof -
  obtain f lba where "writer_step sample_env (writer_init 0 30 16)
      (after_append sample_env ''k'' ''v'' f [] (writer_init 0 30 16))"
    by (rule sample_first [of 30])
  then have "writer_reach sample_env (writer_init 0 30 16)
      (after_append sample_env ''k'' ''v'' f [] (writer_init 0 30 16))"
    using writer_reach.intros by meson
  moreover have "ws_stream (writer_init 0 30 16) = []" by (simp add: writer_init_def)
  ultimately show ?thesis
    using disk_is_prefix [of 16 sample_env 0 30] by (intro exI conjI) (assumption, simp, simp)
qed

text \<open>
  A record that is still in the buffers is found. While a file is not full, \<open>Read\<close> in the
  write buffer mode takes the bytes from the buffers, and returns the key and the value of every
  record that has been appended, however far the writer thread has come.
\<close>

lemma buffered_record_read:
  assumes "env_ok e" "0 < wbs" "writer_reach e (writer_init cid max_size wbs) s"
    and "\<not> eof (ws_file s)" and "stored e (ws_stream s) lba k v"
  shows "cf_Read True e lba (ws_file s) (ws_disk s) = Inr (Some (k, v))"
  using cf_Read_buffered [OF assms(1) writer_reach_ok [OF assms(3) writer_ok_init [OF assms(2)]] assms(4,5)] .

text \<open>
  The tail of a file reaches the disk when the writer was idle. Let the append that fills
  a file find the writer thread waiting, and let the bytes not end at the border of a buffer:
  the last, partly filled buffer is handed over too, the thread can run to its end, and
  whenever it ends the file holds every byte that was appended.
\<close>

lemma idle_writer_flushes_tail:
  assumes e: "env_ok e" and w: "0 < wbs" and r: "writer_reach e (writer_init cid max_size wbs) s"
    and idle: "ws_pc s = AtWait" "\<not> is_writer_running (ws_file s)" and k: "rec_len k v < 2 ^ 32"
    and ap: "cf_Append True e k v (ws_file s) (ws_disk s) = Inr (True, lba, f, c)" and full: "eof f"
    and part: "length (ws_stream (after_append e k v f c s)) mod unat (cf_wbs f) \<noteq> 0"
  shows "(\<exists>s'. writer_reach e (after_append e k v f c s) s' \<and> ws_pc s' = AtEnd) \<and>
    (\<forall>s'. writer_reach e (after_append e k v f c s) s' \<longrightarrow> ws_pc s' = AtEnd \<longrightarrow>
      ws_disk s' = ws_stream s @ record_bytes (mk_record (env_crc e) k v))"
proof -
  let ?s = "after_append e k v f c s"
  have ok0: "writer_ok s" using writer_reach_ok [OF r writer_ok_init [OF w]] .
  have pc: "ws_pc s \<noteq> AtEnd" using idle(1) by simp
  have ok: "writer_ok ?s" using writer_ok_append [OF ok0 pc k ap] by (simp add: after_append_def)
  from cf_Append_fills [OF ok0 k ap full] idle(2)
  have woff: "buf_woff f = length (ws_stream ?s) div unat (cf_wbs f) + 1" by simp
  have "bufs_of f (ws_stream ?s)" "cf_fd f = FdOpen"
    using ok idle(1) by (simp_all add: writer_ok_def Let_def)
  with bufs_of_length [OF this(1) part] woff have bufs: "buf_woff f \<le> length (cf_bufs f)" by simp
  let ?s1 = "?s\<lparr>ws_file := f\<lparr>sem_writer := sem_writer f - 1\<rparr>, ws_pc := AtLoop\<rparr>"
  have "writer_step e ?s ?s1"
    using writer_step.wake [of ?s e] idle(1) append_posts [OF ok0 pc k idle(2) ap full] by simp
  then have "writer_reach e ?s ?s1" by (meson writer_reach.intros)
  moreover have "\<exists>s'. writer_reach e ?s1 s' \<and> ws_pc s' = AtEnd"
    using bufs full \<open>cf_fd f = FdOpen\<close> by (intro writer_drains [OF e]) simp_all
  ultimately have "\<exists>s'. writer_reach e ?s s' \<and> ws_pc s' = AtEnd"
    using writer_reach_trans by blast
  moreover have "ws_disk s' = ws_stream ?s" if "writer_reach e ?s s'" "ws_pc s' = AtEnd" for s'
    using writer_tail_flushed [OF ok _ _ _ that] full idle(1) woff by simp
  ultimately show ?thesis by simp
qed

text \<open>
  C29: the tail is lost when the writer was busy. Let the append that fills a file find the
  writer thread at work, and let the bytes not end at the border of a buffer: the last buffer
  is never handed over, and in no later state does the file hold what was appended, although
  the append was acknowledged.
\<close>

theorem busy_writer_loses_tail:
  assumes w: "0 < wbs" and r: "writer_reach e (writer_init cid max_size wbs) s"
    and busy: "ws_pc s \<noteq> AtEnd" "is_writer_running (ws_file s)" and k: "rec_len k v < 2 ^ 32"
    and ap: "cf_Append True e k v (ws_file s) (ws_disk s) = Inr (True, lba, f, c)" and full: "eof f"
    and part: "length (ws_stream (after_append e k v f c s)) mod unat (cf_wbs f) \<noteq> 0"
    and later: "writer_reach e (after_append e k v f c s) s'"
  shows "length (ws_disk s') < length (ws_stream s @ record_bytes (mk_record (env_crc e) k v))"
proof -
  let ?s = "after_append e k v f c s"
  have ok0: "writer_ok s" using writer_reach_ok [OF r writer_ok_init [OF w]] .
  have ok: "writer_ok ?s" using writer_ok_append [OF ok0 busy(1) k ap] by (simp add: after_append_def)
  from cf_Append_fills [OF ok0 k ap full] busy(2)
  have "buf_woff f = length (ws_stream ?s) div unat (cf_wbs f)" by simp
  with writer_tail_lost(2) [OF ok _ _ _ later] full part show ?thesis by simp
qed

theorem busy_writer_loses_tail_witness:
  "\<exists>s f c lba. writer_reach sample_env (writer_init 0 30 16) s \<and>
    cf_Append True sample_env ''k'' ''v'' (ws_file s) (ws_disk s) = Inr (True, lba, f, c) \<and>
    (\<forall>s'. writer_reach sample_env (after_append sample_env ''k'' ''v'' f c s) s' \<longrightarrow>
      length (ws_disk s') < 36)"
proof -
  let ?s = "writer_init 0 30 16" and ?r = "record_bytes (mk_record (env_crc sample_env) ''k'' ''v'')"
  obtain f1 lba where f1: "\<not> eof f1" "cf_wbs f1 = 16" "is_writer_running f1" "disk_woff f1 = 18"
    "cf_max_size f1 = 30" "writer_step sample_env ?s (after_append sample_env ''k'' ''v'' f1 [] ?s)"
    by (rule sample_first [of 30]) auto
  let ?s1 = "after_append sample_env ''k'' ''v'' f1 [] ?s"
  have r: "writer_reach sample_env ?s ?s1" using f1(6) writer_reach.intros by meson
  have ok: "writer_ok ?s1" using writer_reach_ok [OF r] by (simp add: writer_ok_init)
  have st: "ws_stream ?s1 = ?r" "ws_pc ?s1 = AtWait" by (simp_all add: writer_init_def)
  have b: "bufs_of f1 ?r" "buf_woff f1 = length ?r div unat (cf_wbs f1)"
    using ok st f1(1) by (simp_all add: writer_ok_def Let_def)
  obtain f lba2 where f: "cf_Append True sample_env ''k'' ''v'' f1 (ws_disk ?s1) =
      Inr (True, lba2, f, ws_disk ?s1)" "eof f" "cf_wbs f = 16"
    using cf_Append_buffered [OF b(1) f1(1) b(2), of "''k''" "''v''" sample_env "ws_disk ?s1"] f1(2-5)
    by (auto simp: Let_def)
  have part: "length (ws_stream (after_append sample_env ''k'' ''v'' f (ws_disk ?s1) ?s1)) mod unat (cf_wbs f) \<noteq> 0"
    using f(3) by (simp add: writer_init_def)
  have ap: "cf_Append True sample_env ''k'' ''v'' (ws_file ?s1) (ws_disk ?s1) = Inr (True, lba2, f, ws_disk ?s1)"
    using f(1) by simp
  have busy: "ws_pc ?s1 \<noteq> AtEnd" "is_writer_running (ws_file ?s1)" using st f1(3) by simp_all
  have "length (ws_disk s') < 36"
    if "writer_reach sample_env (after_append sample_env ''k'' ''v'' f (ws_disk ?s1) ?s1) s'" for s'
    using busy_writer_loses_tail [OF _ r busy _ ap f(2) part that] st(1) by simp
  then show ?thesis using r ap by blast
qed

text \<open>
  The record that filled a file cannot be read while the writer still has it. When the
  bytes do not end at the border of a buffer and the writer was idle, the counter
  \<open>buf_woff_\<close> has been moved past the last, partly filled buffer, and \<open>ReadBuffer\<close> on the
  location that \<open>Append\<close> just returned ends the server at an assertion.
\<close>

lemma full_file_read_asserts:
  assumes w: "0 < wbs" and r: "writer_reach e (writer_init cid max_size wbs) s"
    and idle: "ws_pc s \<noteq> AtEnd" "\<not> is_writer_running (ws_file s)" and k: "rec_len k v < 2 ^ 32"
    and ap: "cf_Append True e k v (ws_file s) (ws_disk s) = Inr (True, lba, f, c)" and full: "eof f"
    and part: "length (ws_stream (after_append e k v f c s)) mod unat (cf_wbs f) \<noteq> 0"
    and off: "unat (lba_off lba) = length (ws_stream s)"
  shows "cf_Read True e lba f c = Inl AssertFail"
proof -
  let ?s = "after_append e k v f c s" and ?w = "unat (cf_wbs f)"
  have ok0: "writer_ok s" using writer_reach_ok [OF r writer_ok_init [OF w]] .
  have ok: "writer_ok ?s" using writer_ok_append [OF ok0 idle(1) k ap] by (simp add: after_append_def)
  from cf_Append_fills [OF ok0 k ap full] idle(2)
  have woff: "buf_woff f = length (ws_stream ?s) div ?w + 1" by simp
  have b: "bufs_of f (ws_stream ?s)" using ok idle(1) by (simp add: writer_ok_def Let_def)
  then obtain n where n: "0 < ?w" "length (ws_stream ?s) \<le> n * ?w"
    "cf_bufs f = mk_bufs ?w n (ws_stream ?s)" by (auto simp: bufs_of_def)
  have ne: "cf_bufs f \<noteq> []" using bufs_of_length [OF b part] by auto
  have eof0: "\<not> eof (ws_file s)" using ap by (cases "eof (ws_file s)") (simp_all add: cf_Append_eof)
  have "bufs_of (ws_file s) (ws_stream s)"
    "buf_woff (ws_file s) = length (ws_stream s) div unat (cf_wbs (ws_file s))"
    using ok0 idle(1) eof0 by (simp_all add: writer_ok_def Let_def)
  from cf_Append_buffered [OF this(1) eof0 this(2) k, of e "ws_disk s"] ap
  have sz: "unat (lba_size lba) = rec_len k v" using k by (auto simp: Let_def unsigned_of_nat take_bit_nat_eq_self)
  have len: "length (ws_stream ?s) = length (ws_stream s) + rec_len k v" by simp
  have "length (ws_stream ?s) div ?w * ?w < length (ws_stream ?s)"
    using div_mult_bounds(2) [OF n(1) part] .
  then have "ReadBuffer ?w (cf_bufs f) (buf_woff f) (unat (lba_off lba)) (unat (lba_size lba)) = Inl AssertFail"
    unfolding n(3) woff off sz using rec_len_pos [of k v]
    by (intro ReadBuffer_asserts [OF n(1) part n(2)]) (simp_all only: len order_refl)
  then show ?thesis using ne by (simp add: cf_Read_def Let_def)
qed

text \<open>
  C30: closing a file that is not full. Let the writer thread wait, whatever has been appended and
  written so far. When the bytes end inside a buffer, \<open>Close\<close> has them all written and the file
  on disk is the stream of the appended records. When they end at the border of a buffer, in
  particular when nothing was ever appended, \<open>Close\<close> makes the thread take a buffer behind the
  end of the vector.
\<close>

theorem close_flushes_or_faults:
  assumes "env_ok e" "0 < wbs" "writer_reach e (writer_init cid max_size wbs) s"
    and "ws_pc s = AtWait" "\<not> eof (ws_file s)"
  shows "if length (ws_stream s) mod unat (cf_wbs (ws_file s)) = 0
    then cf_Close True e (\<lambda>_. False) (ws_file s) (ws_disk s) = Inl OutOfBounds
    else \<exists>f. cf_Close True e (\<lambda>_. False) (ws_file s) (ws_disk s) = Inr (f, ws_stream s) \<and>
      cf_fd f = FdClosed \<and> tid f = NoThread"
proof -
  let ?f = "ws_file s" and ?st = "ws_stream s"
  let ?w = "unat (cf_wbs ?f)"
  let ?n = "length ?st div ?w + (if length ?st mod ?w = 0 then 0 else 1)"
  let ?g = "(cf_Close_post True ?f)\<lparr>sem_writer := sem_writer ?f\<rparr>"
  have ok: "writer_ok s" using writer_reach_ok [OF assms(3) writer_ok_init [OF assms(2)]] .
  with assms(4,5) have f: "0 < ?w" "cf_fd ?f = FdOpen" "cf_bufs ?f = mk_bufs ?w ?n ?st"
    "ws_disk s = take (buf_doff ?f * ?w) ?st" "buf_doff ?f \<le> buf_woff ?f" "buf_woff ?f = length ?st div ?w"
    using bufs_of_count by (simp_all add: writer_ok_def Let_def)
  have run: "tid ?f = Running" using writer_reach_tid [OF assms(3)] assms(4) by (simp add: writer_init_def cf_Create_def)
  have g: "cf_wbs ?g = cf_wbs ?f" "cf_fd ?g = FdOpen" "cf_bufs ?g = mk_bufs ?w ?n ?st"
    "buf_doff ?g = buf_doff ?f" "buf_woff ?g = length ?st div ?w + 1" "buf_doff ?g \<le> ?n"
    using f by (simp_all add: cf_Close_post_def Let_def)
  have J: "cf_join e (\<lambda>_. False) (cf_Close_post True ?f) (ws_disk s) =
      bnd (cf_write_bufs e (\<lambda>_. False) ?g (take (buf_doff ?g * ?w) ?st))
        (\<lambda>(f1, c). Inr ((cf_ClearBuffers f1)\<lparr>tid := NoThread\<rparr>, c))"
    using run f(4) g(4) by (simp add: cf_join_def cf_Close_post_def Let_def)
  have "buf_doff ?g \<le> buf_woff ?g" using f(5,6) g(4,5) by simp
  note W = cf_write_bufs_stream [OF assms(1) _ g(2,3) this g(6)]
  show ?thesis
  proof (cases "length ?st mod ?w = 0")
    case True
    with W g(1,5) run J show ?thesis by (simp add: cf_Close_def)
  next
    case False
    have "length ?st \<le> buf_woff ?g * ?w" using div_mult_bounds(1) [OF f(1), of ?st] g(5) by simp
    with False W g(1,5) run J show ?thesis by (auto simp: cf_Close_def cf_ClearBuffers_def)
  qed
qed

theorem close_flushes_or_faults_witness:
  "cf_Close True sample_env (\<lambda>_. False) (ws_file (writer_init 0 30 16)) [] = Inl OutOfBounds \<and>
   (\<exists>s f. writer_reach sample_env (writer_init 0 30 16) s \<and>
     cf_Close True sample_env (\<lambda>_. False) (ws_file s) (ws_disk s) =
       Inr (f, record_bytes (mk_record (env_crc sample_env) ''k'' ''v'')))"
proof
  show "cf_Close True sample_env (\<lambda>_. False) (ws_file (writer_init 0 30 16)) [] = Inl OutOfBounds"
    using close_flushes_or_faults [OF env_ok_sample _ writer_reach.start, of 16 0 30]
    by (simp add: writer_init_def cf_Create_def cf_new_def)
  obtain f lba where f: "\<not> eof f" "writer_step sample_env (writer_init 0 30 16)
      (after_append sample_env ''k'' ''v'' f [] (writer_init 0 30 16))" "cf_wbs f = 16"
    by (rule sample_first [of 30]) auto
  let ?s = "after_append sample_env ''k'' ''v'' f [] (writer_init 0 30 16)"
  have r: "writer_reach sample_env (writer_init 0 30 16) ?s" using f(2) writer_reach.intros by meson
  have "ws_stream (writer_init 0 30 16) = []" "ws_pc ?s = AtWait" by (simp_all add: writer_init_def)
  with close_flushes_or_faults [OF env_ok_sample _ r] f(1,3)
  show "\<exists>s f. writer_reach sample_env (writer_init 0 30 16) s \<and>
     cf_Close True sample_env (\<lambda>_. False) (ws_file s) (ws_disk s) =
       Inr (f, record_bytes (mk_record (env_crc sample_env) ''k'' ''v''))"
    using r by (intro exI [of _ ?s]) (auto simp: rec_len_def sizeof_hdr_def)
qed

end
