(* ===== verification/DispatchRace.thy ===== *)
theory DispatchRace
  imports FileWriter
begin

text \<open>
  The two threads of one cache file with the end of \<open>DispatchBuffer\<close> taken apart: the client posts
  the semaphore first and sets \<open>is_writer_running\<close> in the next statement, and nothing keeps the
  writer thread from running in between. (\<open>FileWriter\<close> takes the two statements as one step.)
\<close>

section \<open>Steps\<close>

text \<open>\<open>ds_mid\<close>: the client is between the two statements.\<close>

record dispatch_sys =
  ds_sys :: writer_sys
  ds_mid :: bool

text \<open>
  \<open>Append\<close> up to the semaphore, the assignment, and the steps of the writer thread, which are
  those of \<open>writer_step\<close> that append nothing.
\<close>

inductive dispatch_step :: "env \<Rightarrow> dispatch_sys \<Rightarrow> dispatch_sys \<Rightarrow> bool" for e where
  post: "\<not> ds_mid s \<Longrightarrow> rec_len k v < 2 ^ 32 \<Longrightarrow>
    cf_Append True e k v (ws_file (ds_sys s)) (ws_disk (ds_sys s)) = Inr (True, lba, f, c) \<Longrightarrow>
    posted = (sem_writer f \<noteq> sem_writer (ws_file (ds_sys s))) \<Longrightarrow>
    dispatch_step e s \<lparr>ds_sys = after_append e k v (if posted then f\<lparr>is_writer_running := False\<rparr> else f) c (ds_sys s),
      ds_mid = posted\<rparr>"
| flag: "ds_mid s \<Longrightarrow> dispatch_step e s
    \<lparr>ds_sys = (ds_sys s)\<lparr>ws_file := (ws_file (ds_sys s))\<lparr>is_writer_running := True\<rparr>\<rparr>, ds_mid = False\<rparr>"
| thread: "writer_step e (ds_sys s) t \<Longrightarrow> ws_stream t = ws_stream (ds_sys s) \<Longrightarrow>
    dispatch_step e s (s\<lparr>ds_sys := t\<rparr>)"

inductive dispatch_reach :: "env \<Rightarrow> dispatch_sys \<Rightarrow> dispatch_sys \<Rightarrow> bool" for e s0 where
  start: "dispatch_reach e s0 s0"
| step: "dispatch_reach e s0 s \<Longrightarrow> dispatch_step e s s' \<Longrightarrow> dispatch_reach e s0 s'"

text \<open>Without a step of the thread in between, the two client steps are \<open>Append\<close>.\<close>

lemma cf_Append_flag:
  assumes "cf_Append True e k v f c = Inr (True, lba, g, c')"
  shows "c' = c" "is_writer_running f \<Longrightarrow> is_writer_running g \<and> sem_writer g = sem_writer f"
    and "sem_writer g \<noteq> sem_writer f \<Longrightarrow> is_writer_running g \<and> \<not> is_writer_running f"
  using assms by (auto simp: cf_Append_def cf_DispatchBuffer_def bnd_eq_Inr Let_def split: if_splits)

lemma dispatch_post_flag:
  assumes "\<not> ds_mid s" "rec_len k v < 2 ^ 32"
    and "cf_Append True e k v (ws_file (ds_sys s)) (ws_disk (ds_sys s)) = Inr (True, lba, f, c)"
  shows "\<exists>s1. dispatch_step e s s1 \<and> (if ds_mid s1 then dispatch_step e s1 else (=) s1)
    \<lparr>ds_sys = after_append e k v f c (ds_sys s), ds_mid = False\<rparr>"
proof (intro exI conjI)
  let ?p = "sem_writer f \<noteq> sem_writer (ws_file (ds_sys s))"
  let ?s1 = "\<lparr>ds_sys = after_append e k v (if ?p then f\<lparr>is_writer_running := False\<rparr> else f) c (ds_sys s), ds_mid = ?p\<rparr>"
  show "dispatch_step e s ?s1" using assms by (intro dispatch_step.post) simp_all
  have "f\<lparr>is_writer_running := True\<rparr> = f" if ?p using cf_Append_flag(3) [OF assms(3) that] by simp
  then have "(ds_sys ?s1)\<lparr>ws_file := (ws_file (ds_sys ?s1))\<lparr>is_writer_running := True\<rparr>\<rparr> =
      after_append e k v f c (ds_sys s)" if ?p using that by (simp add: after_append_def)
  then show "(if ds_mid ?s1 then dispatch_step e ?s1 else (=) ?s1) \<lparr>ds_sys = after_append e k v f c (ds_sys s), ds_mid = False\<rparr>"
    using dispatch_step.flag [of ?s1 e] by auto
qed

section \<open>A writer that sleeps for good\<close>

definition asleep :: "dispatch_sys \<Rightarrow> bool" where
  "asleep s \<longleftrightarrow> \<not> ds_mid s \<and> is_writer_running (ws_file (ds_sys s)) \<and>
     sem_writer (ws_file (ds_sys s)) = 0 \<and> ws_pc (ds_sys s) = AtWait"

lemma asleep_step:
  assumes "dispatch_step e s s'" "asleep s"
  shows "asleep s' \<and> ws_disk (ds_sys s') = ws_disk (ds_sys s)"
  using assms(1)
proof cases
  case (post k v lba f c posted)
  from cf_Append_flag [OF post(4)] assms(2) post show ?thesis by (auto simp: asleep_def after_append_def)
next
  case flag
  with assms(2) show ?thesis by (simp add: asleep_def)
next
  case (thread t)
  from thread(2) show ?thesis
  proof cases
    case (append k v lba f c)
    with thread(3) have "length (record_bytes (mk_record (env_crc e) k v)) = 0" by simp
    then show ?thesis using rec_len_pos [of k v] by simp
  qed (use assms(2) in \<open>simp_all add: asleep_def\<close>)
qed

lemma asleep_reach:
  "dispatch_reach e s s' \<Longrightarrow> asleep s \<Longrightarrow> asleep s' \<and> ws_disk (ds_sys s') = ws_disk (ds_sys s)"
  by (induction rule: dispatch_reach.induct) (use asleep_step in auto)

lemma dispatch_reach_trans: "dispatch_reach e b c \<Longrightarrow> dispatch_reach e a b \<Longrightarrow> dispatch_reach e a c"
  by (induction rule: dispatch_reach.induct) (auto intro: dispatch_reach.step)

lemma dispatch_thread:
  "writer_step e s t \<Longrightarrow> ws_stream t = ws_stream s \<Longrightarrow> dispatch_step e \<lparr>ds_sys = s, ds_mid = b\<rparr> \<lparr>ds_sys = t, ds_mid = b\<rparr>"
  using dispatch_step.thread [of e "\<lparr>ds_sys = s, ds_mid = b\<rparr>" t] by simp

text \<open>The thread writes all it has been given, and sleeps, before the client sets the flag.\<close>

lemma drains_to_sleep:
  assumes e: "env_ok e"
  shows "cf_fd (ws_file s) = FdOpen \<Longrightarrow> \<not> eof (ws_file s) \<Longrightarrow> ws_pc s = AtLoop \<Longrightarrow>
    sem_writer (ws_file s) = 0 \<Longrightarrow> buf_woff (ws_file s) \<le> length (cf_bufs (ws_file s)) \<Longrightarrow>
    \<exists>s'. dispatch_reach e \<lparr>ds_sys = s, ds_mid = True\<rparr> s' \<and> asleep s' \<and> ws_stream (ds_sys s') = ws_stream s"
proof (induction "buf_woff (ws_file s) - buf_doff (ws_file s)" arbitrary: s)
  case 0
  let ?s0 = "s\<lparr>ws_file := (ws_file s)\<lparr>tid := Leaving\<rparr>, ws_pc := AtReset\<rparr>"
  let ?s1 = "?s0\<lparr>ws_file := (ws_file ?s0)\<lparr>is_writer_running := False\<rparr>, ws_pc := AtTest\<rparr>"
  let ?s2 = "?s1\<lparr>ws_file := (ws_file ?s1)\<lparr>tid := Running\<rparr>, ws_pc := AtWait\<rparr>"
  let ?s3 = "?s2\<lparr>ws_file := (ws_file ?s2)\<lparr>is_writer_running := True\<rparr>\<rparr>"
  have "writer_step e s ?s0" using 0 by (intro writer_step.drained) simp_all
  then have a: "dispatch_step e \<lparr>ds_sys = s, ds_mid = True\<rparr> \<lparr>ds_sys = ?s0, ds_mid = True\<rparr>"
    by (rule dispatch_thread) simp
  have "writer_step e ?s0 ?s1" by (intro writer_step.reset) simp
  then have 1: "dispatch_step e \<lparr>ds_sys = ?s0, ds_mid = True\<rparr> \<lparr>ds_sys = ?s1, ds_mid = True\<rparr>"
    by (rule dispatch_thread) simp
  have "writer_step e ?s1 ?s2" using 0 by (intro writer_step.again) simp_all
  then have 2: "dispatch_step e \<lparr>ds_sys = ?s1, ds_mid = True\<rparr> \<lparr>ds_sys = ?s2, ds_mid = True\<rparr>"
    by (rule dispatch_thread) simp
  have 3: "dispatch_step e \<lparr>ds_sys = ?s2, ds_mid = True\<rparr> \<lparr>ds_sys = ?s3, ds_mid = False\<rparr>"
    using dispatch_step.flag [of "\<lparr>ds_sys = ?s2, ds_mid = True\<rparr>" e] by simp
  have "dispatch_reach e \<lparr>ds_sys = s, ds_mid = True\<rparr> \<lparr>ds_sys = ?s3, ds_mid = False\<rparr>"
    by (rule dispatch_reach.step [OF dispatch_reach.step [OF dispatch_reach.step [OF dispatch_reach.step [OF dispatch_reach.start a] 1] 2] 3])
  moreover have "asleep \<lparr>ds_sys = ?s3, ds_mid = False\<rparr>" using 0 by (simp add: asleep_def)
  ultimately show ?case by (intro exI [of _ "\<lparr>ds_sys = ?s3, ds_mid = False\<rparr>"]) simp
next
  case (Suc n)
  let ?f = "ws_file s"
  have d: "buf_doff ?f < buf_woff ?f" using Suc.hyps(2) by simp
  obtain f1 c1 where w: "cf_write_one e (\<lambda>n. False) ?f (ws_disk s) = Inr (f1, c1)"
    and f1: "f1 = ?f\<lparr>filesize := filesize ?f + word_of_nat (wb_used (cf_bufs ?f ! buf_doff ?f)), buf_doff := buf_doff ?f + 1\<rparr>"
    using cf_write_one_done [OF e, of ?f "ws_disk s"] d Suc.prems by auto
  let ?s1 = "s\<lparr>ws_file := f1, ws_disk := c1\<rparr>"
  have "writer_step e s ?s1" using w d Suc.prems(3) by (intro writer_step.flush)
  then have 1: "dispatch_step e \<lparr>ds_sys = s, ds_mid = True\<rparr> \<lparr>ds_sys = ?s1, ds_mid = True\<rparr>"
    by (rule dispatch_thread) simp
  have "\<exists>s'. dispatch_reach e \<lparr>ds_sys = ?s1, ds_mid = True\<rparr> s' \<and> asleep s' \<and> ws_stream (ds_sys s') = ws_stream ?s1"
    using Suc.hyps(2) Suc.prems by (intro Suc.hyps(1)) (simp_all add: f1)
  then obtain s' where "dispatch_reach e \<lparr>ds_sys = ?s1, ds_mid = True\<rparr> s'" "asleep s'"
    "ws_stream (ds_sys s') = ws_stream s" by auto
  with dispatch_reach_trans [OF _ dispatch_reach.step [OF dispatch_reach.start 1]] show ?case by blast
qed

section \<open>Properties\<close>

text \<open>
  C13: The writer thread of a file can fall asleep for good. Whenever the thread is idle and an
  append fills a buffer but not the file, there is a schedule in which the thread wakes between
  the post and the assignment of \<open>DispatchBuffer\<close>, writes the buffer, resets \<open>is_writer_running\<close> and
  waits again, and the client then sets the flag. From there on, whatever is appended and whatever
  runs, nothing is ever written to the file: every later \<open>DispatchBuffer\<close> sees a running writer.
\<close>

theorem dispatch_race_stops_writer:
  assumes e: "env_ok e" and w: "0 < wbs" and r: "writer_reach e (writer_init cid max_size wbs) s"
    and idle: "ws_pc s = AtWait" "\<not> is_writer_running (ws_file s)" "sem_writer (ws_file s) = 0"
    and k: "rec_len k v < 2 ^ 32"
    and ap: "cf_Append True e k v (ws_file s) (ws_disk s) = Inr (True, lba, f, c)"
    and post: "sem_writer f = 1" "\<not> eof f"
  shows "\<exists>s'. dispatch_reach e \<lparr>ds_sys = s, ds_mid = False\<rparr> s' \<and>
    ws_stream (ds_sys s') = ws_stream s @ record_bytes (mk_record (env_crc e) k v) \<and>
    (\<forall>s''. dispatch_reach e s' s'' \<longrightarrow> ws_disk (ds_sys s'') = ws_disk (ds_sys s') \<and> ws_pc (ds_sys s'') = AtWait)"
proof -
  let ?s0 = "\<lparr>ds_sys = s, ds_mid = False\<rparr>" and ?f = "f\<lparr>is_writer_running := False\<rparr>"
  let ?s1 = "after_append e k v ?f c s"
  let ?s2 = "?s1\<lparr>ws_file := ?f\<lparr>sem_writer := 0\<rparr>, ws_pc := AtLoop\<rparr>"
  have "writer_ok s" using writer_reach_ok [OF r writer_ok_init [OF w]] .
  from writer_ok_append [OF this _ k ap] idle have "writer_ok (after_append e k v f c s)"
    by (simp add: after_append_def)
  then have f: "cf_fd f = FdOpen" and b: "bufs_of f (ws_stream s @ record_bytes (mk_record (env_crc e) k v))"
    and woff: "buf_woff f = length (ws_stream s @ record_bytes (mk_record (env_crc e) k v)) div unat (cf_wbs f)"
    using idle post(2) by (auto simp: writer_ok_def Let_def)
  have len: "buf_woff f \<le> length (cf_bufs f)"
    using b woff by (auto simp: bufs_of_def intro: div_le_mono [THEN order_trans])
  have 1: "dispatch_step e ?s0 \<lparr>ds_sys = ?s1, ds_mid = True\<rparr>"
    using dispatch_step.post [of ?s0 k v e lba f c True] k ap idle post by simp
  have "writer_step e ?s1 ?s2"
    using writer_step.wake [of ?s1 e] idle(1) post(1) by simp
  then have 2: "dispatch_step e \<lparr>ds_sys = ?s1, ds_mid = True\<rparr> \<lparr>ds_sys = ?s2, ds_mid = True\<rparr>"
    by (rule dispatch_thread) simp
  from drains_to_sleep [OF e, of ?s2] f len post(2) obtain s' where
    s': "dispatch_reach e \<lparr>ds_sys = ?s2, ds_mid = True\<rparr> s'" "asleep s'" "ws_stream (ds_sys s') = ws_stream ?s2" by auto
  have "dispatch_reach e ?s0 s'"
    using dispatch_reach_trans [OF s'(1) dispatch_reach.step [OF dispatch_reach.step [OF dispatch_reach.start 1] 2]] .
  moreover have "ws_disk (ds_sys s'') = ws_disk (ds_sys s') \<and> ws_pc (ds_sys s'') = AtWait"
    if "dispatch_reach e s' s''" for s'' using asleep_reach [OF that s'(2)] by (simp add: asleep_def)
  ultimately show ?thesis using s'(3) by auto
qed

theorem dispatch_race_stops_writer_witness:
  "\<exists>s'. dispatch_reach sample_env \<lparr>ds_sys = writer_init 0 30 16, ds_mid = False\<rparr> s' \<and>
    (\<forall>s''. dispatch_reach sample_env s' s'' \<longrightarrow> ws_disk (ds_sys s'') = ws_disk (ds_sys s') \<and> ws_pc (ds_sys s'') = AtWait)"
proof -
  obtain f lba where f: "cf_Append True sample_env ''k'' ''v'' (ws_file (writer_init 0 30 16)) (ws_disk (writer_init 0 30 16)) =
      Inr (True, lba, f, [])" "\<not> eof f" "is_writer_running f"
    by (rule sample_first [of 30]) (auto simp: writer_init_def)
  have i: "ws_pc (writer_init 0 30 16) = AtWait" "\<not> is_writer_running (ws_file (writer_init 0 30 16))"
    "sem_writer (ws_file (writer_init 0 30 16)) = 0"
    by (simp_all add: writer_init_def cf_Create_def cf_new_def)
  have "sem_writer f = 1"
    using f(1,3) i(2,3) by (auto simp: cf_Append_def cf_DispatchBuffer_def bnd_eq_Inr Let_def split: if_splits)
  then show ?thesis
    using dispatch_race_stops_writer [OF _ _ writer_reach.start i _ f(1) _ f(2)] by auto
qed

end
