(* ===== verification/FlashEvict.thy ===== *)
theory FlashEvict
  imports FlashIndex
begin

text \<open>
  Eviction from the flash cache: what \<open>FlashCache::Evict\<close> removes from the indices, in both
  writing modes, the threshold at which it starts, and where it does not come back: a file whose
  thread still runs, and the file that is being written.
\<close>

section \<open>Closing a file keeps its identity and its keys\<close>

lemma cf_write_bufs_frame:
  "cf_write_bufs e over f c = Inr (f', c') \<Longrightarrow>
   cf_id f' = cf_id f \<and> key_lists f' = key_lists f \<and> tid f' = tid f \<and> cf_fd f' = cf_fd f \<and>
   eof f' = eof f \<and> disk_woff f' = disk_woff f \<and> cf_bufs f' = cf_bufs f \<and>
   (\<exists>d. c' = c @ d \<and> filesize f' = filesize f + word_of_nat (length d))"
proof (induction e over f c rule: cf_write_bufs.induct)
  case (1 e over f c)
  show ?case
  proof (cases "buf_doff f < buf_woff f")
    case False
    with "1.prems" show ?thesis by (auto simp: cf_write_bufs.simps [of e over f c])
  next
    case True
    from "1.prems" True obtain f1 c1 where st: "cf_write_one e over f c = Inr (f1, c1)"
      "cf_write_bufs e over f1 c1 = Inr (f', c')"
      by (auto simp: cf_write_bufs.simps [of e over f c] bnd_eq_Inr)
    from cf_write_one_Inr [OF st(1)] "1.IH" [OF True st(1) refl st(2)] show ?thesis
      by (auto simp: Let_def)
  qed
qed

lemma cf_Close_frame:
  "cf_Close wbmode e over f c = Inr (f', c') \<Longrightarrow>
   cf_id f' = cf_id f \<and> key_lists f' = key_lists f \<and> cf_fd f' = FdClosed \<and>
   cf_bufs f' = [] \<and> tid f' = NoThread"
  by (auto simp: cf_Close_def cf_Close_post_def cf_join_def cf_ClearBuffers_def Let_def bnd_eq_Inr
      split: if_splits thread_state.splits dest!: cf_write_bufs_frame)

section \<open>What one round of eviction removes\<close>

lemma map_of_fold_Erase:
  "map_of (block_index (fold meta_Erase ks m)) =
     (map_of (block_index m)) |` (- set ks)"
proof (induction ks arbitrary: m)
  case (Cons k ks)
  then show ?case by (auto simp: map_of_meta_Erase restrict_map_def fun_eq_iff)
qed (simp add: restrict_map_def)

lemma fc_evict_one_effect:
  assumes settled: "lru.settled (fc_idx fc)" and files: "files_ok fc"
    and ev: "fc_evict_one wbmode e caller fc = Inr fc'"
  defines "cid \<equiv> last (lru_order (fc_idx fc))"
  shows "\<exists>p f. lru_order (fc_idx fc) \<noteq> [] \<and> lru_value (fc_idx fc) cid = Some p \<and>
    map_of (fc_objs fc) p = Some f \<and> cf_id f = cid \<and> caller \<noteq> Some p \<and>
    lru.settled (fc_idx fc') \<and> lru_order (fc_idx fc') = butlast (lru_order (fc_idx fc)) \<and>
    lru_value (fc_idx fc') = (lru_value (fc_idx fc))(cid := None) \<and>
    map_of (block_index (fc_meta fc')) = map_of (block_index (fc_meta fc)) |` (- set (key_lists f)) \<and>
    map_of (fc_dir fc') = (map_of (fc_dir fc))(cf_name cid := None) \<and>
    map_of (fc_objs fc') = (map_of (fc_objs fc))(p := None)"
proof -
  from ev obtain p m f n f1 c1 where st: "meta_Evict (fc_objs fc) (fc_meta fc) = Inr (p, m)"
    "fc_obj p fc = Inr f" "caller \<noteq> Some p"
    "cf_Delete wbmode e (\<lambda>n. fc_over (word_of_nat n) fc)
       (map_of (fc_dir fc) (cf_name (cf_id f)) \<noteq> None) f (fc_content f fc) = Inr (n, f1, c1)"
    "fc' = fc\<lparr>fc_size := fc_size fc - word_of_int n, fc_meta := fold meta_Erase (key_lists f1) m,
       fc_dir := AList.delete (cf_name (cf_id f)) (fc_dir fc), fc_objs := AList.delete p (fc_objs fc)\<rparr>"
    by (auto simp: fc_evict_one_def bnd_eq_Inr split: if_splits)
  from st(2) have f: "map_of (fc_objs fc) p = Some f" by (auto simp: fc_obj_def split: option.splits)
  from st(4) have keys: "key_lists f1 = key_lists f"
    by (auto simp: cf_Delete_def bnd_eq_Inr dest: cf_Close_frame)
  from st(1) f obtain idx where idx: "lru_evict (fc_idx fc) = Inr (p, idx)"
    "m = (fc_meta fc)\<lparr>cache_file_index := lru_erase (cf_id f) idx\<rparr>"
    by (auto simp: meta_Evict_def bnd_eq_Inr split: option.splits)
  have ne: "lru_order (fc_idx fc) \<noteq> []"
    using idx(1) by (auto simp: lru_order_def lru_evict_def split: if_splits)
  from lru.evict_erase_settled [OF settled ne] idx(1) have lru:
    "lru_value (fc_idx fc) cid = Some p" "lru.settled (lru_erase cid idx)"
    "lru_order (lru_erase cid idx) = butlast (lru_order (fc_idx fc))"
    "lru_value (lru_erase cid idx) = (lru_value (fc_idx fc))(cid := None)"
    by (auto simp: cid_def)
  from files_okD(2) [OF files lru(1)] f have id: "cf_id f = cid" by simp
  have "fc_idx fc' = lru_erase cid idx" by (simp add: st(5) idx(2) id)
  moreover have "map_of (block_index (fc_meta fc')) =
      map_of (block_index (fc_meta fc)) |` (- set (key_lists f))"
    by (simp add: st(5) map_of_fold_Erase keys idx(2))
  ultimately show ?thesis
    using ne lru f id st(3) by (intro exI [of _ p] exI [of _ f]) (simp add: st(5) delete_conv')
qed

text \<open>
  \<open>keys_listed\<close>: every entry of the block index is among the keys its file lists. It is what
  makes eviction leave no entry that refers to a file that is gone.
\<close>

definition keys_listed :: "flash_cache \<Rightarrow> bool" where
  "keys_listed fc \<longleftrightarrow>
     (\<forall>k lba. map_of (block_index (fc_meta fc)) k = Some lba \<longrightarrow>
        (\<exists>p f. lru_value (fc_idx fc) (lba_cache_id lba) = Some p \<and>
           map_of (fc_objs fc) p = Some f \<and> k \<in> set (key_lists f)))"

lemma fc_evict_one_keys_listed:
  assumes settled: "lru.settled (fc_idx fc)" and files: "files_ok fc" and listed: "keys_listed fc"
    and ev: "fc_evict_one wbmode e caller fc = Inr fc'"
  shows "lru.settled (fc_idx fc') \<and> files_ok fc' \<and> keys_listed fc'"
proof -
  let ?cid = "last (lru_order (fc_idx fc))"
  from fc_evict_one_effect [OF settled files ev] obtain p f where E:
    "lru_value (fc_idx fc) ?cid = Some p" "map_of (fc_objs fc) p = Some f" "cf_id f = ?cid"
    "lru.settled (fc_idx fc')" "lru_value (fc_idx fc') = (lru_value (fc_idx fc))(?cid := None)"
    "map_of (block_index (fc_meta fc')) = map_of (block_index (fc_meta fc)) |` (- set (key_lists f))"
    "map_of (fc_dir fc') = (map_of (fc_dir fc))(cf_name ?cid := None)"
    "map_of (fc_objs fc') = (map_of (fc_objs fc))(p := None)" by blast
  note F = files_okD [OF files]
  have same: "fc_next fc' = fc_next fc" "writer_cache_id fc' = writer_cache_id fc"
    using ev by (auto simp: fc_evict_one_def bnd_eq_Inr split: if_splits)
  have other: "q \<noteq> p" if "lru_value (fc_idx fc) c = Some q" "c \<noteq> ?cid" for c q
    using F(2) [OF that(1)] E(2,3) that(2) by auto
  have "files_ok fc'"
    unfolding files_ok_def same
  proof (intro conjI allI impI)
    fix c q assume "lru_value (fc_idx fc') c = Some q"
    then have c: "lru_value (fc_idx fc) c = Some q" "c \<noteq> ?cid" by (auto simp: E(5) split: if_splits)
    from F(2) [OF c(1)] other [OF c] show "c < writer_cache_id fc"
      "\<exists>f. map_of (fc_objs fc') q = Some f \<and> cf_id f = c \<and> cf_fd f = FdOpen"
      by (auto simp: E(8))
  qed (use F(1,3) in \<open>auto simp: E(7,8) split: if_splits\<close>)
  moreover have "\<exists>q g. lru_value (fc_idx fc') (lba_cache_id lba) = Some q \<and>
      map_of (fc_objs fc') q = Some g \<and> k \<in> set (key_lists g)"
    if "map_of (block_index (fc_meta fc')) k = Some lba" for k lba
  proof -
    from that have k: "map_of (block_index (fc_meta fc)) k = Some lba" "k \<notin> set (key_lists f)"
      by (auto simp: E(6) restrict_map_def split: if_splits)
    with listed obtain q g where q: "lru_value (fc_idx fc) (lba_cache_id lba) = Some q"
      "map_of (fc_objs fc) q = Some g" "k \<in> set (key_lists g)" unfolding keys_listed_def by blast
    with E(1,2) k(2) have "lba_cache_id lba \<noteq> ?cid" by auto
    with q other [OF q(1)] show ?thesis by (auto simp: E(5,8))
  qed
  ultimately show ?thesis using E(4) unfolding keys_listed_def by blast
qed

lemma fc_unlock_frame:
  "fc_meta (fc_unlock fc) = fc_meta fc" "fc_objs (fc_unlock fc) = fc_objs fc"
  "files_ok (fc_unlock fc) = files_ok fc" "keys_listed (fc_unlock fc) = keys_listed fc"
  by (simp_all add: fc_unlock_def files_ok_def keys_listed_def)

section \<open>The threshold\<close>

lemma fc_over_exact:
  assumes "unat (sz + fc_size fc) < 2 ^ 24" "unat (opt_cache_size fc) < 2 ^ 24"
  shows "fc_over sz fc \<longleftrightarrow> opt_cache_size fc < sz + fc_size fc"
  using assms by (simp add: fc_over_def round_bits_exact word_less_nat_alt)

section \<open>Properties\<close>

text \<open>
  C25: eviction keeps the index sound. When \<open>Evict\<close> returns, from a state in which every key
  in the index is listed in the file that its location names, this is so again: no location
  points into a file that is closed and deleted. The recency list and the table of files agree,
  and the cache is within its limit for the bytes about to be written.
\<close>

theorem fc_Evict_keys_listed:
  "fc_Evict wbmode e caller sz fc = Inr fc' \<Longrightarrow>
   lru.settled (fc_idx fc) \<Longrightarrow> files_ok fc \<Longrightarrow> keys_listed fc \<Longrightarrow>
   lru.settled (fc_idx fc') \<and> files_ok fc' \<and> keys_listed fc' \<and> \<not> fc_over sz fc'"
proof (induction wbmode e caller sz fc rule: fc_Evict.induct)
  case (1 wbmode e caller sz fc)
  show ?case
  proof (cases "fc_over sz fc")
    case False
    with "1.prems" show ?thesis by (simp add: fc_Evict.simps [of wbmode e caller sz fc])
  next
    case True
    let ?fc1 = "fc\<lparr>fcache_mutex := True\<rparr>"
    from "1.prems"(1) True obtain fc2 where st: "fc_lock fc = Inr ?fc1"
      "fc_evict_one wbmode e caller ?fc1 = Inr fc2"
      "fc_Evict wbmode e caller sz (fc_unlock fc2) = Inr fc'"
      by (auto simp: fc_Evict.simps [of wbmode e caller sz fc] bnd_eq_Inr fc_lock_def split: if_splits)
    have "lru.settled (fc_idx ?fc1)" "files_ok ?fc1" "keys_listed ?fc1"
      using "1.prems"(2-4) by (simp_all add: files_ok_def keys_listed_def)
    from fc_evict_one_keys_listed [OF this st(2)] "1.IH" [OF True st(1,2,3)] show ?thesis
      by (simp add: fc_unlock_frame)
  qed
qed

text \<open>
  A cache of two full files, as they are after the key \<open>a\<close> has been inserted, deleted and
  inserted again.
\<close>

definition sample_file :: "u32 \<Rightarrow> u32 \<Rightarrow> cache_file" where
  "sample_file cid n = (cf_new cid 10 0)\<lparr>filesize := n, cf_fd := FdOpen, key_lists := [''a''],
     eof := True, disk_woff := n, tid := Running\<rparr>"

definition sample_two_files :: flash_cache where
  "sample_two_files =
     \<lparr>fc_objs = [(1, sample_file 1 21), (0, sample_file 0 19)], fc_next = 2,
      fc_dir = [(cf_name 0, record_bytes (mk_record (env_crc sample_env) ''a'' ''one'')), (cf_name 1, record_bytes (mk_record (env_crc sample_env) ''a'' ''three''))],
      fc_size = 40, writer_cache_id = 2, fc_cur = 1,
      fc_meta = \<lparr>cache_file_index = lru_insert 1 1 (lru_insert 0 0 lru_new),
        block_index = [(''a'', \<lparr>lba_cache_id = 1, lba_off = 0, lba_size = 21\<rparr>)]\<rparr>,
      fcache_mutex = False, opt_cache_size = 30, opt_file_size = 10, opt_wbs = 0\<rparr>"

lemma sample_index:
  "lru_order (fc_idx sample_two_files) = [1, 0]"
  "lru_value (fc_idx sample_two_files) = [0 \<mapsto> 0, 1 \<mapsto> 1]"
  "lru.settled (fc_idx sample_two_files)"
  by (auto simp: sample_two_files_def lru_settled_def lru_inv_def lru_order_def lru_value_def
      lru_insert_def lru_push_front_def lru_new_def fun_eq_iff split: if_splits)

lemma sample_files_ok: "files_ok sample_two_files"
proof -
  have "map_of (fc_dir sample_two_files) (cf_name cid) = None" if "2 \<le> cid" for cid
    using that by (auto simp: sample_two_files_def word_le_nat_alt)
  then show ?thesis
    unfolding files_ok_def sample_index
    by (auto simp: sample_two_files_def sample_file_def cf_new_def split: if_splits)
qed

lemma sample_keys_listed: "keys_listed sample_two_files"
  unfolding keys_listed_def sample_index
  by (auto simp: sample_two_files_def sample_file_def split: if_splits)

lemma sample_evict_one:
  "\<exists>fc. fc_evict_one False sample_env None (sample_two_files\<lparr>fcache_mutex := True\<rparr>) = Inr fc \<and>
    fc_size fc = 21 \<and> opt_cache_size fc = 30"
  by (simp add: fc_evict_one_def meta_Evict_def sample_two_files_def lru_insert_def lru_push_front_def
      lru_new_def lru_evict_def sample_file_def cf_new_def fc_obj_def fc_content_def cf_Delete_def
      cf_Close_def cf_Close_post_def cf_join_def cf_write_bufs.simps cf_ClearBuffers_def lru_erase_def Let_def)

lemma sample_sizes: "fc_size sample_two_files = 40" "opt_cache_size sample_two_files = 30"
  by (simp_all add: sample_two_files_def)

lemma sample_over: "fc_over 0 sample_two_files"
  "fc_size fc = 21 \<Longrightarrow> opt_cache_size fc = 30 \<Longrightarrow> \<not> fc_over 0 fc"
  by (simp_all add: fc_over_exact sample_sizes)

lemma sample_Evict: "\<exists>fc. fc_Evict False sample_env None 0 sample_two_files = Inr fc"
proof -
  have "fc_lock sample_two_files = Inr (sample_two_files\<lparr>fcache_mutex := True\<rparr>)"
    by (simp add: fc_lock_def) (simp add: sample_two_files_def)
  moreover obtain fc where fc: "fc_evict_one False sample_env None (sample_two_files\<lparr>fcache_mutex := True\<rparr>) = Inr fc"
    "fc_size fc = 21" "opt_cache_size fc = 30" using sample_evict_one by blast
  have "\<not> fc_over 0 (fc_unlock fc)" using fc(2,3) by (intro sample_over(2)) (simp_all add: fc_unlock_def)
  then have "fc_Evict False sample_env None 0 (fc_unlock fc) = Inr (fc_unlock fc)"
    by (subst fc_Evict.simps) simp
  ultimately have "fc_Evict False sample_env None 0 sample_two_files = Inr (fc_unlock fc)"
    using fc(1) sample_over(1) by (subst fc_Evict.simps) simp
  then show ?thesis by blast
qed

theorem fc_Evict_keys_listed_witness:
  "\<exists>fc. fc_Evict False sample_env None 0 sample_two_files = Inr fc \<and>
    lru.settled (fc_idx fc) \<and> files_ok fc \<and> keys_listed fc \<and> \<not> fc_over 0 fc"
  using fc_Evict_keys_listed [OF _ sample_index(3) sample_files_ok sample_keys_listed] sample_Evict by blast

text \<open>
  C26: eviction forgets keys that live elsewhere. The keys of the evicted file are erased from
  the index one by one, without a look at where the index says they are: a key that was deleted
  and inserted again, into a newer file, is gone, while its record is still on disk, unchanged,
  in a file that stays open.
\<close>

theorem evict_erases_newer_entry:
  assumes "lru.settled (fc_idx fc)" "files_ok fc" and ev: "fc_evict_one wbmode e caller fc = Inr fc'"
    and f: "lru_value (fc_idx fc) (last (lru_order (fc_idx fc))) = Some p" "map_of (fc_objs fc) p = Some f"
    and k: "k \<in> set (key_lists f)" "map_of (block_index (fc_meta fc)) k = Some lba"
    and newer: "lba_cache_id lba \<noteq> last (lru_order (fc_idx fc))"
  shows "map_of (block_index (fc_meta fc')) k = None \<and>
    fc_bytes fc' (lba_cache_id lba) = fc_bytes fc (lba_cache_id lba) \<and>
    lru_value (fc_idx fc') (lba_cache_id lba) = lru_value (fc_idx fc) (lba_cache_id lba)"
proof -
  from fc_evict_one_effect [OF assms(1-3)] obtain q g where E:
    "lru_value (fc_idx fc) (last (lru_order (fc_idx fc))) = Some q" "map_of (fc_objs fc) q = Some g"
    "lru_value (fc_idx fc') = (lru_value (fc_idx fc))(last (lru_order (fc_idx fc)) := None)"
    "map_of (block_index (fc_meta fc')) = map_of (block_index (fc_meta fc)) |` (- set (key_lists g))"
    "map_of (fc_dir fc') = (map_of (fc_dir fc))(cf_name (last (lru_order (fc_idx fc))) := None)"
    by blast
  have "g = f" using E(1,2) f by simp
  then show ?thesis using k(1) newer by (simp add: E(3-5) fc_bytes_def restrict_map_def)
qed

theorem evict_erases_newer_entry_witness:
  "\<exists>fc. fc_evict_one False sample_env None (sample_two_files\<lparr>fcache_mutex := True\<rparr>) = Inr fc \<and>
    meta_Lookup ''a'' (fc_meta sample_two_files) \<noteq> None \<and> meta_Lookup ''a'' (fc_meta fc) = None \<and>
    fc_bytes fc 1 = record_bytes (mk_record (env_crc sample_env) ''a'' ''three'')"
proof -
  let ?fc = "sample_two_files\<lparr>fcache_mutex := True\<rparr>"
  let ?lba = "\<lparr>lba_cache_id = 1, lba_off = 0, lba_size = 21\<rparr> :: LBA"
  obtain fc where fc: "fc_evict_one False sample_env None ?fc = Inr fc" using sample_evict_one by blast
  have s: "lru.settled (fc_idx ?fc)" "files_ok ?fc" "last (lru_order (fc_idx ?fc)) = 0"
    "lru_value (fc_idx ?fc) 0 = Some 0"
    using sample_index sample_files_ok by (simp_all add: files_ok_def)
  have f: "map_of (fc_objs ?fc) 0 = Some (sample_file 0 19)" "''a'' \<in> set (key_lists (sample_file 0 19))"
    "map_of (block_index (fc_meta ?fc)) ''a'' = Some ?lba" "fc_bytes ?fc 1 = record_bytes (mk_record (env_crc sample_env) ''a'' ''three'')"
    by (simp_all add: sample_two_files_def sample_file_def fc_bytes_def)
  from evict_erases_newer_entry [OF s(1,2) fc _ f(1,2,3)] s(3,4) f(3,4) fc
  show ?thesis by (auto simp: meta_Lookup_def)
qed

lemma fc_Evict_gone:
  "fc_Evict wbmode e caller sz fc = Inr fc' \<Longrightarrow>
   fc_cur fc' = fc_cur fc \<and> fcache_mutex fc' = fcache_mutex fc \<and>
   (map_of (fc_objs fc) p = None \<longrightarrow> map_of (fc_objs fc') p = None)"
proof (induction wbmode e caller sz fc rule: fc_Evict.induct)
  case (1 wbmode e caller sz fc)
  show ?case
  proof (cases "fc_over sz fc")
    case False
    with "1.prems" show ?thesis by (simp add: fc_Evict.simps [of wbmode e caller sz fc])
  next
    case True
    with "1.prems" obtain fc1 fc2 where st: "fc_lock fc = Inr fc1" "fc_evict_one wbmode e caller fc1 = Inr fc2"
      "fc_Evict wbmode e caller sz (fc_unlock fc2) = Inr fc'"
      by (auto simp: fc_Evict.simps [of wbmode e caller sz fc] bnd_eq_Inr)
    from st(1,2) have "fc_cur fc2 = fc_cur fc" "\<not> fcache_mutex fc" "map_of (fc_objs fc) p = None \<Longrightarrow> map_of (fc_objs fc2) p = None"
      by (auto simp: fc_lock_def fc_evict_one_def bnd_eq_Inr delete_conv' split: if_splits)
    with "1.IH" [OF True st] show ?thesis by (simp add: fc_unlock_def)
  qed
qed

lemma meta_Evict_victim:
  assumes "lru.settled (fc_idx fc)" "files_ok fc" "lru_order (fc_idx fc) \<noteq> []"
    and "lru_value (fc_idx fc) (last (lru_order (fc_idx fc))) = Some p"
  shows "\<exists>m. meta_Evict (fc_objs fc) (fc_meta fc) = Inr (p, m)"
proof -
  from files_okD(2) [OF assms(2,4)] obtain f where "map_of (fc_objs fc) p = Some f" by blast
  with lru.evict_erase_settled [OF assms(1,3)] assms(4) show ?thesis by (auto simp: meta_Evict_def)
qed

text \<open>
  C27: The file that is being written can be evicted. When the least recently read file is the
  current one and the cache is over its limit, the writer thread of that file, which calls
  \<open>Evict\<close>, ends the process, because it joins itself. If another thread evicts it, the pointer to
  the current file is left dangling, and the next insertion, of whatever key, goes through it.
\<close>

theorem current_file_evicted:
  assumes "lru.settled (fc_idx fc)" "files_ok fc" and ne: "lru_order (fc_idx fc) \<noteq> []"
    and cur: "lru_value (fc_idx fc) (last (lru_order (fc_idx fc))) = Some (fc_cur fc)"
    and over: "fc_over sz fc" and free: "\<not> fcache_mutex fc"
  shows "fc_Evict wbmode e (Some (fc_cur fc)) sz fc = Inl ProcessExit \<and>
    (fc_Evict wbmode e caller sz fc = Inr fc' \<longrightarrow>
      fc_Insert wbmode e k v fc' = Inl UseAfterFree)"
proof (intro conjI impI)
  let ?fc = "fc\<lparr>fcache_mutex := True\<rparr>"
  have s: "lru.settled (fc_idx ?fc)" "files_ok ?fc" using assms(1,2) by (simp_all add: files_ok_def)
  from meta_Evict_victim [OF assms(1,2) ne cur] obtain m where m: "meta_Evict (fc_objs fc) (fc_meta fc) = Inr (fc_cur fc, m)" ..
  from files_okD(2) [OF assms(2) cur] obtain f where "map_of (fc_objs fc) (fc_cur fc) = Some f" by blast
  then have "fc_evict_one wbmode e (Some (fc_cur fc)) ?fc = Inl ProcessExit"
    using m by (simp add: fc_evict_one_def fc_obj_def)
  then show "fc_Evict wbmode e (Some (fc_cur fc)) sz fc = Inl ProcessExit"
    using over free by (simp add: fc_Evict.simps [of wbmode e _ sz fc] fc_lock_def)
  assume run: "fc_Evict wbmode e caller sz fc = Inr fc'"
  from run over free obtain fc2 where st: "fc_evict_one wbmode e caller ?fc = Inr fc2"
    "fc_Evict wbmode e caller sz (fc_unlock fc2) = Inr fc'"
    by (auto simp: fc_Evict.simps [of wbmode e caller sz fc] bnd_eq_Inr fc_lock_def)
  from fc_evict_one_effect [OF s st(1)] cur have "map_of (fc_objs fc2) (fc_cur fc) = None" by auto
  moreover have "fc_cur fc2 = fc_cur fc" using st(1) by (auto simp: fc_evict_one_def bnd_eq_Inr split: if_splits)
  ultimately have "map_of (fc_objs fc') (fc_cur fc') = None" "\<not> fcache_mutex fc'"
    using fc_Evict_gone [OF st(2), of "fc_cur fc"] by (simp_all add: fc_unlock_def)
  then show "fc_Insert wbmode e k v fc' = Inl UseAfterFree"
    by (simp add: fc_Insert_def fc_lock_def numeral_2_eq_2 fc_obj_def)
qed

text \<open>File 0 has been read after file 1, the current one, was filled; the thread of file 1 is \<open>t\<close>.\<close>

definition sample_read_files :: "thread_state \<Rightarrow> CacheWriteBuffer list \<Rightarrow> flash_cache" where
  "sample_read_files t bufs = sample_two_files\<lparr>
     fc_objs := [(1, (sample_file 1 21)\<lparr>tid := t, cf_bufs := bufs\<rparr>), (0, (sample_file 0 19)\<lparr>tid := Finished\<rparr>)],
     fc_meta := (fc_meta sample_two_files)\<lparr>cache_file_index := lru_insert 0 0 (lru_insert 1 1 lru_new)\<rparr>\<rparr>"

lemma sample_read_index:
  "lru_order (fc_idx (sample_read_files t bs)) = [0, 1]"
  "lru_value (fc_idx (sample_read_files t bs)) = [0 \<mapsto> 0, 1 \<mapsto> 1]"
  "lru.settled (fc_idx (sample_read_files t bs))"
  by (auto simp: sample_read_files_def lru_settled_def lru_inv_def lru_order_def lru_value_def
      lru_insert_def lru_push_front_def lru_new_def fun_eq_iff split: if_splits)

lemma sample_read_ok: "files_ok (sample_read_files t bs)" "fc_over 0 (sample_read_files t bs)"
  "\<not> fcache_mutex (sample_read_files t bs)" "fc_cur (sample_read_files t bs) = 1"
proof -
  have "map_of (fc_dir (sample_read_files t bs)) (cf_name cid) = None" if "2 \<le> cid" for cid
    using that by (auto simp: sample_read_files_def sample_two_files_def word_le_nat_alt)
  then show "files_ok (sample_read_files t bs)"
    unfolding files_ok_def sample_read_index
    by (auto simp: sample_read_files_def sample_two_files_def sample_file_def cf_new_def split: if_splits)
  show "fc_over 0 (sample_read_files t bs)"
    using sample_over(1) by (simp add: fc_over_def) (simp add: sample_read_files_def)
  show "\<not> fcache_mutex (sample_read_files t bs)" "fc_cur (sample_read_files t bs) = 1"
    by (simp_all add: sample_read_files_def sample_two_files_def)
qed

lemma sample_read_evict:
  "\<exists>fc. fc_Evict True sample_env (Some 0) 0 (sample_read_files Finished []) = Inr fc"
proof -
  let ?fc = "sample_read_files Finished []"
  have "\<exists>fc. fc_evict_one True sample_env (Some 0) (?fc\<lparr>fcache_mutex := True\<rparr>) = Inr fc \<and>
      fc_size fc = 19 \<and> opt_cache_size fc = 30"
    by (simp add: fc_evict_one_def meta_Evict_def sample_read_files_def sample_two_files_def lru_insert_def
        lru_push_front_def lru_new_def lru_evict_def sample_file_def cf_new_def fc_obj_def fc_content_def
        cf_Delete_def cf_Close_def cf_Close_post_def cf_join_def cf_ClearBuffers_def lru_erase_def Let_def)
  then obtain fc where fc: "fc_evict_one True sample_env (Some 0) (?fc\<lparr>fcache_mutex := True\<rparr>) = Inr fc"
    "fc_size fc = 19" "opt_cache_size fc = 30" by blast
  have "\<not> fc_over 0 (fc_unlock fc)" using fc(2,3) by (simp add: fc_over_exact fc_unlock_def)
  then have "fc_Evict True sample_env (Some 0) 0 (fc_unlock fc) = Inr (fc_unlock fc)"
    by (subst fc_Evict.simps) simp
  moreover have "fc_lock ?fc = Inr (?fc\<lparr>fcache_mutex := True\<rparr>)" using sample_read_ok(3) by (simp add: fc_lock_def)
  ultimately show ?thesis using fc(1) sample_read_ok(2) by (subst fc_Evict.simps) simp
qed

theorem current_file_evicted_witness:
  "fc_Evict True sample_env (Some 1) 0 (sample_read_files Finished []) = Inl ProcessExit \<and>
   (\<exists>fc. fc_Evict True sample_env (Some 0) 0 (sample_read_files Finished []) = Inr fc \<and>
     fc_Insert True sample_env ''b'' ''two'' fc = Inl UseAfterFree)"
proof -
  let ?fc = "sample_read_files Finished []"
  obtain fc where "fc_Evict True sample_env (Some 0) 0 ?fc = Inr fc" using sample_read_evict by blast
  with current_file_evicted [of ?fc 0 True sample_env "Some 0" fc "''b''" "''two''"] show ?thesis
    by (auto simp: sample_read_index sample_read_ok)
qed

text \<open>
  C17: Evicting a file whose writer thread has not finished, in the write-buffer mode. The cache is
  over its limit, the mutex is free, and \<open>Evict\<close> is called by another thread than that of the file;
  it holds the mutex while it joins the thread. Let the thread wait for its semaphore or be in its
  loop between two buffers, and let the next buffer it has to write, when there is one, be such
  that the cache is over its limit with it too. Woken for that buffer, the thread calls \<open>Evict\<close>
  itself, as the victim's bytes are only taken off after the join, and waits for the mutex: neither
  goes on. When no buffer is left, the increment of \<open>buf_woff_\<close> in \<open>Close\<close> makes the thread read
  behind the end of the vector. Only a thread that is past its loop is joined: it finds \<open>eof_\<close> set
  and leaves, the file is removed, and \<open>Evict\<close> goes on with its loop.
\<close>

theorem evicting_busy_file_hangs:
  assumes "lru.settled (fc_idx fc)" "files_ok fc" and ne: "lru_order (fc_idx fc) \<noteq> []"
    and p: "lru_value (fc_idx fc) (last (lru_order (fc_idx fc))) = Some p" "map_of (fc_objs fc) p = Some f"
    and f: "tid f = Running \<or> tid f = Leaving" "buf_doff f \<le> buf_woff f" and caller: "caller \<noteq> Some p"
    and over: "fc_over sz fc" "tid f = Running \<Longrightarrow> buf_doff f < length (cf_bufs f) \<Longrightarrow>
      fc_over (word_of_nat (wb_used (cf_bufs f ! buf_doff f))) fc"
    and free: "\<not> fcache_mutex fc"
  shows "if tid f = Running
    then fc_Evict True e caller sz fc =
      Inl (if buf_doff f < length (cf_bufs f) then Blocked else OutOfBounds)
    else \<exists>fc1. fc_Evict True e caller sz fc = fc_Evict True e caller sz fc1 \<and>
      \<not> fcache_mutex fc1 \<and> map_of (fc_objs fc1) = (map_of (fc_objs fc))(p := None)"
proof -
  let ?fc = "fc\<lparr>fcache_mutex := True\<rparr>"
  have o: "fc_over n ?fc = fc_over n fc" for n by (simp add: fc_over_def)
  from meta_Evict_victim [OF assms(1,2) ne p(1)] obtain m where m: "meta_Evict (fc_objs fc) (fc_meta fc) = Inr (p, m)" ..
  have step: "fc_Evict True e caller sz fc =
      bnd (fc_evict_one True e caller ?fc) (\<lambda>fc2. fc_Evict True e caller sz (fc_unlock fc2))"
    using over(1) free by (simp add: fc_Evict.simps [of True e _ sz fc] fc_lock_def)
  show ?thesis
  proof (cases "tid f = Running")
    case True
    then have "cf_Close True e (\<lambda>n. fc_over (word_of_nat n) ?fc) f c =
        Inl (if buf_doff f < length (cf_bufs f) then Blocked else OutOfBounds)" for c
      using f(2) over(2) by (simp add: cf_Close_def cf_join_def cf_Close_post_def cf_write_bufs.simps cf_write_one_def Let_def o)
    then have "fc_evict_one True e caller ?fc =
        Inl (if buf_doff f < length (cf_bufs f) then Blocked else OutOfBounds)"
      using m p caller by (simp add: fc_evict_one_def fc_obj_def cf_Delete_def)
    then show ?thesis using True step by simp
  next
    case False
    then have t: "tid f = Leaving" using f(1) by simp
    have "\<exists>fc2. fc_evict_one True e caller ?fc = Inr fc2 \<and>
      map_of (fc_objs fc2) = (map_of (fc_objs fc))(p := None)"
      using m p caller by (simp add: fc_evict_one_def fc_obj_def cf_Delete_def cf_Close_def cf_join_def t
          cf_Close_post_def Let_def delete_conv')
    then obtain fc2 where "fc_evict_one True e caller ?fc = Inr fc2"
      "map_of (fc_objs fc2) = (map_of (fc_objs fc))(p := None)" by blast
    then show ?thesis using False step by (auto simp: fc_unlock_def intro!: exI [of _ "fc_unlock fc2"])
  qed
qed

theorem evicting_busy_file_hangs_witness:
  "fc_Evict True sample_env (Some 0) 0 (sample_read_files Running [\<lparr>wb_size = 16, wb_data = ''abc''\<rparr>]) = Inl Blocked \<and>
   (\<exists>fc1. fc_Evict True sample_env (Some 0) 0 (sample_read_files Leaving []) = fc_Evict True sample_env (Some 0) 0 fc1 \<and>
     dom (map_of (fc_objs fc1)) = {0})"
proof
  let ?bs = "[\<lparr>wb_size = 16, wb_data = ''abc''\<rparr>]"
  let ?fc = "sample_read_files Running ?bs" and ?f = "(sample_file 1 21)\<lparr>tid := Running, cf_bufs := ?bs\<rparr>"
  have "map_of (fc_objs ?fc) 1 = Some ?f" by (simp add: sample_read_files_def)
  moreover have "tid ?f = Running" "buf_doff ?f \<le> buf_woff ?f" "buf_doff ?f < length (cf_bufs ?f)" "buf_doff ?f = 0"
    by (simp_all add: sample_file_def cf_new_def)
  moreover have "fc_over 3 ?fc"
    by (simp add: fc_over_exact sample_read_files_def sample_two_files_def)
  ultimately show "fc_Evict True sample_env (Some 0) 0 ?fc = Inl Blocked"
    using evicting_busy_file_hangs [of ?fc 1 ?f "Some 0" 0 sample_env]
    by (simp add: sample_read_index sample_read_ok wb_used_def)
  let ?fc = "sample_read_files Leaving []" and ?f = "(sample_file 1 21)\<lparr>tid := Leaving, cf_bufs := []\<rparr>"
  have "map_of (fc_objs ?fc) 1 = Some ?f" by (simp add: sample_read_files_def)
  moreover have "tid ?f = Leaving" "buf_doff ?f \<le> buf_woff ?f"
    by (simp_all add: sample_file_def cf_new_def)
  ultimately have "\<exists>fc1. fc_Evict True sample_env (Some 0) 0 ?fc = fc_Evict True sample_env (Some 0) 0 fc1 \<and>
      map_of (fc_objs fc1) = (map_of (fc_objs ?fc))(1 := None)"
    using evicting_busy_file_hangs [of ?fc 1 ?f "Some 0" 0 sample_env]
    by (simp add: sample_read_index sample_read_ok) blast
  moreover have "dom ((map_of (fc_objs ?fc))(1 := None)) = {0}" by (auto simp: sample_read_files_def)
  ultimately show "\<exists>fc1. fc_Evict True sample_env (Some 0) 0 ?fc = fc_Evict True sample_env (Some 0) 0 fc1 \<and>
     dom (map_of (fc_objs fc1)) = {0}" by metis
qed

end
