(* ===== verification/Buffered.thy ===== *)
theory Buffered
  imports FileWriter FlashEvict
begin

text \<open>
  The whole flash cache in the write-buffer mode: the calls of the clients and of the tiering
  thread (\<open>Insert\<close>, \<open>Lookup\<close>, \<open>DeleteMetaData\<close>) interleaved with the writer threads of all files,
  which evict files as they write. The part of a state that concerns one file is a state of
  \<open>FileWriter\<close>, and its invariant is lifted to all files.
\<close>

section \<open>Reading from a file in any state\<close>

text \<open>Whatever \<open>buf_woff_\<close> is, the loop of \<open>ReadBuffer\<close> copies the stream or does not return.\<close>

lemma read_loop_Cons:
  assumes "read_loop_buf woff i k off (b # bs) = Inr (out, 0)" and "k \<noteq> 0"
  obtains rest where "read_loop_buf woff (Suc i) (k - min k (wb_used b - off)) 0 bs = Inr (rest, 0)"
    "out = take (min k (wb_used b - off)) (drop off (wb_data b)) @ rest"
proof -
  define m where "m = (if k > wb_used b - off then wb_used b - off else k)"
  have m: "min k (wb_used b - off) = m" by (simp add: m_def)
  from assms obtain rest where "read_loop_buf woff (Suc i) (k - m) 0 bs = Inr (rest, 0)"
    "out = take m (drop off (wb_data b)) @ rest"
    by (auto simp: bnd_eq_Inr m_def [symmetric] split: if_split_asm)
  then show ?thesis using that m by simp
qed

lemma read_loop_partial:
  fixes w :: nat
  assumes w: "0 < w" and n: "length s \<le> n * w"
  shows "read_loop_buf woff i k off (drop i (mk_bufs w n s)) = Inr (out, 0) \<Longrightarrow>
    i * w + off + k \<le> length s \<Longrightarrow> off < w \<Longrightarrow> out = take k (drop (i * w + off) s)"
proof (induction k arbitrary: i off out rule: less_induct)
  case (less k)
  show ?case
  proof (cases "k = 0")
    case True
    then show ?thesis using less.prems(1) by (cases "drop i (mk_bufs w n s)") simp_all
  next
    case False
    then have "i * w < n * w" using less.prems(2) n by linarith
    then have i: "i < n" by simp
    let ?b = "\<lparr>wb_size = w, wb_data = take w (drop (i * w) s)\<rparr>"
    have bs: "drop i (mk_bufs w n s) = ?b # drop (Suc i) (mk_bufs w n s)"
      using i by (simp add: Cons_nth_drop_Suc [symmetric])
    let ?u = "min (length s - i * w) w"
    define m where "m = min k (?u - off)"
    from less.prems(1) [unfolded bs] False obtain rest where rest:
      "read_loop_buf woff (Suc i) (k - m) 0 (drop (Suc i) (mk_bufs w n s)) = Inr (rest, 0)"
      "out = take m (drop off (take w (drop (i * w) s))) @ rest"
      by (rule read_loop_Cons) (simp add: wb_used_def m_def)
    have u: "off < ?u" using less.prems(2,3) False by linarith
    have m: "m \<le> w - off" "m < k \<Longrightarrow> m = w - off"
      using less.prems(2,3) False by (auto simp: m_def)
    have first: "take m (drop off (take w (drop (i * w) s))) = take m (drop (i * w + off) s)"
      using m(1) by (simp add: drop_take min_def add.commute)
    show ?thesis
    proof (cases "m < k")
      case True
      then have mw: "m = w - off" by (rule m(2))
      have "k - m < k" using False u by (simp add: m_def)
      moreover have "Suc i * w + 0 + (k - m) \<le> length s" using less.prems(2,3) mw True by simp
      ultimately have "rest = take (k - m) (drop (Suc i * w + 0) s)" using less.IH rest(1) w by blast
      moreover have pos: "Suc i * w + 0 = i * w + off + m" using mw less.prems(3) by simp
      ultimately have "rest = take (k - m) (drop (i * w + off + m) s)" by (simp only: pos)
      moreover have "take k (drop (i * w + off) s) =
          take m (drop (i * w + off) s) @ take (k - m) (drop (i * w + off + m) s)"
        using True by (intro take_split) simp
      ultimately show ?thesis using rest(2) first by simp
    next
      case False
      then have mk: "m = k" by (simp add: m_def)
      have "rest = []" using rest(1) mk by (cases "drop (Suc i) (mk_bufs w n s)") simp_all
      then show ?thesis using rest(2) first mk by simp
    qed
  qed
qed

lemma ReadBuffer_partial:
  assumes "0 < w" "length s \<le> n * w" "off + sz \<le> length s"
    and "ReadBuffer w (mk_bufs w n s) woff off sz = Inr out"
  shows "out = take sz (drop off s)"
proof -
  from assms(1,4) have "read_loop_buf woff (off div w) sz (off mod w) (drop (off div w) (mk_bufs w n s)) = Inr (out, 0)"
    by (auto simp: ReadBuffer_def bnd_eq_Inr split: if_splits)
  from read_loop_partial [OF assms(1,2) this] assms(1,3) show ?thesis by simp
qed

text \<open>A record of which only the beginning is there is not taken for another one.\<close>

lemma Deserialize_short:
  assumes st: "stored e st lba k v" and n: "n < rec_len k v"
  shows "Deserialize crc (take n (drop (unat (lba_off lba)) st) @ tail) n = Inr None"
proof (cases "n < sizeof_hdr")
  case False
  let ?r = "mk_record (env_crc e) k v"
  have "take n (drop (unat (lba_off lba)) st) = take n (take (rec_len k v) (drop (unat (lba_off lba)) st))"
    using n by (simp add: min_def)
  also have "\<dots> = take n (record_bytes ?r)" using st by (simp add: stored_def)
  also have "\<dots> = hdr_bytes (rec_hdr ?r) @ take (n - 16) (rec_key ?r @ rec_val ?r)"
    using False by (simp add: record_bytes_def sizeof_hdr_def)
  finally have "hdr_of_bytes (take n (drop (unat (lba_off lba)) st) @ tail) = rec_hdr ?r" by simp
  moreover have "unat (word_of_nat (length k) + word_of_nat (length v) :: u32) = length k + length v"
    using st by (simp add: stored_def rec_len_def unsigned_of_nat take_bit_nat_eq_self flip: of_nat_add)
  ultimately show ?thesis using n by (simp add: Deserialize_def Let_def rec_len_def)
qed (simp add: Deserialize_def)

lemma pread_loop_prefix:
  "pread_loop rs c off n = Inr (out, neg) \<Longrightarrow> length out \<le> n \<and> out = take (length out) (drop off c)"
proof (induction rs c off n arbitrary: out rule: pread_loop.induct)
  case (3 k rs c off left)
  define got where "got = take (min k (Suc left)) (drop off c)"
  show ?case
  proof (cases "got = []")
    case True
    with 3(2) show ?thesis by (simp add: got_def [symmetric])
  next
    case False
    with 3(2) obtain rest where rest: "pread_loop rs c (off + length got) (Suc left - length got) = Inr (rest, neg)"
      "out = got @ rest" by (auto simp: got_def [symmetric] bnd_eq_Inr)
    from 3(1) [OF got_def False rest(1)] have m: "length rest \<le> Suc left - length got"
      "rest = take (length rest) (drop (off + length got) c)" by blast+
    have l: "length got \<le> Suc left" by (simp add: got_def)
    have "got = take (length got) (drop off c)" by (simp add: got_def min_def)
    then have "take (length got + length rest) (drop off c) = got @ rest"
      using m(2) by (metis add.commute drop_drop take_add)
    then show ?thesis using m(1) l rest(2) by simp
  qed
qed auto

lemma file_get_prefix:
  assumes "file_get off n (e, c) = Inr bs"
  obtains m where "m \<le> n" "bs = take m (drop off c)" "length bs = m"
proof -
  from assms obtain out neg where "pread_loop (env_read e off n) c off n = Inr (out, neg)"
    "bs = (if neg then [] else out)" by (auto simp: file_get_def bnd_eq_Inr)
  with pread_loop_prefix [of "env_read e off n" c off n out neg] that [of 0] that [of "length out"] show ?thesis
    by (cases neg) simp_all
qed

text \<open>
  From a file that holds the beginning of the stream, a \<open>pread\<close> of the record gets the beginning of
  the record.
\<close>

lemma cf_Read_prefix:
  assumes e: "env_ok e" and st: "stored e st lba k v" and f: "eof f" "cf_bufs f = []" "cf_fd f = FdOpen"
    and run: "cf_Read True e lba f (take d st) = Inr r"
  shows "r = Some (k, v) \<or> r = None"
proof -
  let ?off = "unat (lba_off lba)" and ?sz = "unat (lba_size lba)"
  have sz: "?sz = rec_len k v" using st by (simp add: stored_def)
  from run f obtain bs where bs: "file_get ?off ?sz (e, take d st) = Inr bs"
    "bnd (Deserialize (env_crc e) (bs @ env_tail e) (length bs))
      (\<lambda>r. Inr (map_option (\<lambda>r. (rec_key r, rec_val r)) r)) = Inr r"
    by (auto simp: cf_Read_def bnd_eq_Inr Let_def)
  from file_get_prefix [OF bs(1)] obtain m where m: "m \<le> ?sz" "bs = take m (drop ?off (take d st))"
    "length bs = m" by blast
  have bs': "bs = take m (take (d - ?off) (drop ?off st))" using m(2) by (simp add: drop_take)
  then have "m \<le> d - ?off" using m(3) by (metis length_take min.bounded_iff order_refl)
  with bs' m have n: "bs = take m (drop ?off st)" "length bs = m" by (simp_all add: min_def)
  show ?thesis
  proof (cases "m = ?sz")
    case True
    then show ?thesis using bs(2) n stored_decode [OF e st] by simp
  next
    case False
    with m(1) sz have "m < rec_len k v" by simp
    from Deserialize_short [OF st this] bs(2) n show ?thesis by simp
  qed
qed

text \<open>
  A record of the stream is read as it was written, or cannot be read. It is read while the
  file is not full.
\<close>

lemma cf_Read_any:
  assumes e: "env_ok e" and ok: "writer_ok s" and st: "stored e (ws_stream s) lba k v"
    and run: "cf_Read True e lba (ws_file s) (ws_disk s) = Inr r"
  shows "r = Some (k, v) \<or> r = None"
proof -
  let ?f = "ws_file s" and ?st = "ws_stream s" and ?off = "unat (lba_off lba)" and ?sz = "unat (lba_size lba)"
  let ?w = "unat (cf_wbs ?f)"
  have sz: "?sz = rec_len k v" "?off + ?sz \<le> length ?st" using st by (simp_all add: stored_def)
  consider "\<not> eof ?f" | "eof ?f" "cf_bufs ?f \<noteq> []" | "eof ?f" "cf_bufs ?f = []" by blast
  then show ?thesis
  proof cases
    case 1
    from cf_Read_buffered [OF e ok 1 st] run show ?thesis by simp
  next
    case 2
    with ok have w: "0 < ?w" and b: "bufs_of ?f ?st" by (auto simp: writer_ok_def Let_def)
    then obtain n where n: "length ?st \<le> n * ?w" "cf_bufs ?f = mk_bufs ?w n ?st"
      by (auto simp: bufs_of_def)
    from run 2 obtain bs where bs: "ReadBuffer ?w (mk_bufs ?w n ?st) (buf_woff ?f) ?off ?sz = Inr bs"
      "bnd (Deserialize (env_crc e) (bs @ env_tail e) (length bs))
        (\<lambda>r. Inr (map_option (\<lambda>r. (rec_key r, rec_val r)) r)) = Inr r"
      by (auto simp: cf_Read_def n(2) bnd_eq_Inr Let_def)
    from ReadBuffer_partial [OF w n(1) sz(2) bs(1)] have "bs = take ?sz (drop ?off ?st)" .
    then show ?thesis using bs(2) sz stored_decode [OF e st] by simp
  next
    case 3
    have "cf_fd ?f = FdOpen" "ws_disk s = take (buf_doff ?f * ?w) ?st"
      using ok by (simp_all add: writer_ok_def Let_def)
    then show ?thesis using cf_Read_prefix [OF e st 3] run by simp
  qed
qed

section \<open>States and steps\<close>

text \<open>
  \<open>bs_pc\<close> is where the writer thread of the file object at an address is, \<open>bs_log\<close> the bytes that
  have been appended under a file number, which nothing reads.
\<close>

record buf_sys =
  bs_fc :: flash_cache
  bs_pc :: "nat \<Rightarrow> writer_pc"
  bs_log :: "u32 \<Rightarrow> byte list"

text \<open>The part of the state that concerns one file.\<close>

definition file_view :: "buf_sys \<Rightarrow> nat \<Rightarrow> cache_file \<Rightarrow> writer_sys" where
  "file_view s p f = \<lparr>ws_file = f, ws_disk = fc_content f (bs_fc s), ws_pc = bs_pc s p,
     ws_stream = bs_log s (cf_id f)\<rparr>"

text \<open>
  A step of the writer thread of the file at \<open>p\<close>. Before a buffer is written, \<open>Evict\<close> may delete
  other files, and joins their threads. Where the call does not return (the mutex is held, a
  thread cannot be joined), there is no step.
\<close>

inductive thread_move :: "env \<Rightarrow> nat \<Rightarrow> buf_sys \<Rightarrow> buf_sys \<Rightarrow> bool" for e p where
  wake: "map_of (fc_objs (bs_fc s)) p = Some f \<Longrightarrow> bs_pc s p = AtWait \<Longrightarrow> 0 < sem_writer f \<Longrightarrow>
    thread_move e p s (s\<lparr>bs_fc := fc_set_obj p (f\<lparr>sem_writer := sem_writer f - 1\<rparr>) (bs_fc s),
      bs_pc := (bs_pc s)(p := AtLoop)\<rparr>)"
| flush: "map_of (fc_objs (bs_fc s)) p = Some f \<Longrightarrow> bs_pc s p = AtLoop \<Longrightarrow> buf_doff f < buf_woff f \<Longrightarrow>
    buf_doff f < length (cf_bufs f) \<Longrightarrow>
    fc_Evict True e (Some p) (word_of_nat (wb_used (cf_bufs f ! buf_doff f))) (bs_fc s) = Inr fc \<Longrightarrow>
    cf_write_one e (\<lambda>_. False) f (fc_content f fc) = Inr (g, c) \<Longrightarrow>
    thread_move e p s (s\<lparr>bs_fc := fc_put p g c fc\<rparr>)"
| drained: "map_of (fc_objs (bs_fc s)) p = Some f \<Longrightarrow> bs_pc s p = AtLoop \<Longrightarrow> \<not> buf_doff f < buf_woff f \<Longrightarrow>
    thread_move e p s (s\<lparr>bs_fc := fc_set_obj p (f\<lparr>tid := Leaving\<rparr>) (bs_fc s),
      bs_pc := (bs_pc s)(p := AtReset)\<rparr>)"
| reset: "map_of (fc_objs (bs_fc s)) p = Some f \<Longrightarrow> bs_pc s p = AtReset \<Longrightarrow>
    thread_move e p s (s\<lparr>bs_fc := fc_set_obj p (f\<lparr>is_writer_running := False\<rparr>) (bs_fc s),
      bs_pc := (bs_pc s)(p := AtTest)\<rparr>)"
| again: "map_of (fc_objs (bs_fc s)) p = Some f \<Longrightarrow> bs_pc s p = AtTest \<Longrightarrow> \<not> eof f \<Longrightarrow>
    thread_move e p s (s\<lparr>bs_fc := fc_set_obj p (f\<lparr>tid := Running\<rparr>) (bs_fc s),
      bs_pc := (bs_pc s)(p := AtWait)\<rparr>)"
| leave: "map_of (fc_objs (bs_fc s)) p = Some f \<Longrightarrow> bs_pc s p = AtTest \<Longrightarrow> eof f \<Longrightarrow>
    thread_move e p s (s\<lparr>bs_fc := fc_set_obj p ((cf_ClearBuffers f)\<lparr>tid := Finished\<rparr>) (bs_fc s),
      bs_pc := (bs_pc s)(p := AtEnd)\<rparr>)"

datatype buf_event =
    BInsert "byte list" "byte list"
  | BLookup "byte list" "byte list option"
  | BDelete "byte list"
  | BThread

inductive buf_step :: "env \<Rightarrow> buf_event \<Rightarrow> buf_sys \<Rightarrow> buf_sys \<Rightarrow> bool" for e where
  insert: "good_entry k v \<Longrightarrow> fc_room (bs_fc s) 1 \<Longrightarrow> fc_Insert True e k v (bs_fc s) = Inr (0, fc) \<Longrightarrow>
    map_of (fc_objs fc) (fc_cur fc) = Some f \<Longrightarrow>
    buf_step e (BInsert k v) s (s\<lparr>bs_fc := fc, bs_log := (bs_log s)(cf_id f :=
      bs_log s (cf_id f) @ record_bytes (mk_record (env_crc e) k v))\<rparr>)"
| lookup: "fc_Lookup True e k (bs_fc s) = Inr (r, fc) \<Longrightarrow> buf_step e (BLookup k r) s (s\<lparr>bs_fc := fc\<rparr>)"
| delete: "buf_step e (BDelete k) s (s\<lparr>bs_fc := fc_DeleteMetaData k (bs_fc s)\<rparr>)"
| thread: "thread_move e p s s' \<Longrightarrow> buf_step e BThread s s'"

inductive_cases buf_stepE: "buf_step e ev s s'"

inductive buf_reach :: "env \<Rightarrow> buf_sys \<Rightarrow> buf_event list \<Rightarrow> buf_sys \<Rightarrow> bool" for e s0 where
  start: "buf_reach e s0 [] s0"
| step: "buf_reach e s0 evs s \<Longrightarrow> buf_step e ev s s' \<Longrightarrow> buf_reach e s0 (evs @ [ev]) s'"

section \<open>The invariant\<close>

definition objs_indexed :: "flash_cache \<Rightarrow> bool" where
  "objs_indexed fc \<longleftrightarrow>
     (\<forall>p f. map_of (fc_objs fc) p = Some f \<longrightarrow> lru_value (fc_idx fc) (cf_id f) = Some p)"

definition fc_shape :: "flash_cache \<Rightarrow> bool" where
  "fc_shape fc \<longleftrightarrow> lru.settled (fc_idx fc) \<and> files_ok fc \<and> keys_listed fc \<and> objs_indexed fc"

definition file_ok :: "buf_sys \<Rightarrow> nat \<Rightarrow> cache_file \<Rightarrow> bool" where
  "file_ok s p f \<longleftrightarrow> writer_ok (file_view s p f) \<and>
     cf_max_size f = opt_file_size (bs_fc s) \<and>
     disk_woff f = word_of_nat (length (bs_log s (cf_id f))) \<and>
     (\<not> eof f \<longrightarrow> length (bs_log s (cf_id f)) \<le> unat (opt_file_size (bs_fc s)))"

definition bs_ok :: "env \<Rightarrow> buf_sys \<Rightarrow> bool" where
  "bs_ok e s \<longleftrightarrow>
     env_ok e \<and> unat (opt_file_size (bs_fc s)) \<le> 2 ^ 31 \<and> 0 < opt_wbs (bs_fc s) \<and> fc_shape (bs_fc s) \<and>
     (\<forall>p f. map_of (fc_objs (bs_fc s)) p = Some f \<longrightarrow> file_ok s p f) \<and>
     (\<forall>k lba. map_of (block_index (fc_meta (bs_fc s))) k = Some lba \<longrightarrow>
        (\<exists>v. stored e (bs_log s (lba_cache_id lba)) lba k v)) \<and>
     (\<forall>p \<ge> fc_next (bs_fc s). bs_pc s p = AtWait) \<and>
     (\<forall>cid \<ge> writer_cache_id (bs_fc s). bs_log s cid = [])"

lemma bs_okD:
  assumes "bs_ok e s"
  shows "env_ok e" "unat (opt_file_size (bs_fc s)) \<le> 2 ^ 31" "0 < opt_wbs (bs_fc s)" "fc_shape (bs_fc s)"
    and "\<And>p f. map_of (fc_objs (bs_fc s)) p = Some f \<Longrightarrow> file_ok s p f"
    and "\<And>k lba. map_of (block_index (fc_meta (bs_fc s))) k = Some lba \<Longrightarrow>
        \<exists>v. stored e (bs_log s (lba_cache_id lba)) lba k v"
    and "\<And>p. fc_next (bs_fc s) \<le> p \<Longrightarrow> bs_pc s p = AtWait"
    and "\<And>cid. writer_cache_id (bs_fc s) \<le> cid \<Longrightarrow> bs_log s cid = []"
  using assms by (auto simp: bs_ok_def)

lemma fc_shapeD:
  assumes "fc_shape fc"
  shows "lru.settled (fc_idx fc)" "files_ok fc" "keys_listed fc" "objs_indexed fc"
    and "\<And>p f. map_of (fc_objs fc) p = Some f \<Longrightarrow> lru_value (fc_idx fc) (cf_id f) = Some p"
  using assms by (auto simp: fc_shape_def objs_indexed_def)

text \<open>Two objects have two numbers.\<close>

lemma fc_shape_inj:
  assumes "fc_shape fc" "map_of (fc_objs fc) p = Some f" "map_of (fc_objs fc) q = Some g" "cf_id f = cf_id g"
  shows "p = q"
  using fc_shapeD(5) [OF assms(1,2)] fc_shapeD(5) [OF assms(1,3)] assms(4) by simp

section \<open>A step of one file\<close>

lemma fc_shape_put:
  assumes sh: "fc_shape fc" and f: "map_of (fc_objs fc) p = Some f"
    and g: "cf_id g = cf_id f" "cf_fd g = FdOpen" "set (key_lists f) \<subseteq> set (key_lists g)"
    and fc': "map_of (fc_objs fc') = (map_of (fc_objs fc))(p \<mapsto> g)" "fc_meta fc' = fc_meta fc"
      "fc_next fc' = fc_next fc" "writer_cache_id fc' = writer_cache_id fc"
      "\<And>cid. writer_cache_id fc \<le> cid \<Longrightarrow> map_of (fc_dir fc') (cf_name cid) = None"
  shows "fc_shape fc'"
proof -
  note S = fc_shapeD [OF sh] and F = files_okD [OF fc_shapeD(2) [OF sh]]
  have "files_ok fc'"
    unfolding files_ok_def fc'(2-4)
  proof (intro conjI allI impI)
    fix q h assume "map_of (fc_objs fc') q = Some h"
    then show "q < fc_next fc" using F(1) f by (auto simp: fc'(1) split: if_splits)
  next
    fix cid q assume q: "lru_value (fc_idx fc) cid = Some q"
    from F(2) [OF q] show "cid < writer_cache_id fc" by simp
    from F(2) [OF q] show "\<exists>h. map_of (fc_objs fc') q = Some h \<and> cf_id h = cid \<and> cf_fd h = FdOpen"
      using f g by (cases "q = p") (auto simp: fc'(1))
  qed (rule fc'(5))
  moreover have "keys_listed fc'"
    unfolding keys_listed_def fc'(2)
  proof (intro allI impI)
    fix k lba assume "map_of (block_index (fc_meta fc)) k = Some lba"
    with S(3) obtain q h where q: "lru_value (fc_idx fc) (lba_cache_id lba) = Some q"
      "map_of (fc_objs fc) q = Some h" "k \<in> set (key_lists h)" unfolding keys_listed_def by blast
    then show "\<exists>q h. lru_value (fc_idx fc) (lba_cache_id lba) = Some q \<and>
        map_of (fc_objs fc') q = Some h \<and> k \<in> set (key_lists h)"
      using f g(3) by (cases "q = p") (auto simp: fc'(1))
  qed
  moreover have "objs_indexed fc'"
    using S(5) f g(1) by (auto simp: objs_indexed_def fc'(1,2) split: if_splits)
  ultimately show ?thesis using S(1) by (simp add: fc_shape_def fc'(2))
qed

lemma bs_ok_put:
  assumes ok: "bs_ok e s" and f: "map_of (fc_objs (bs_fc s)) p = Some f"
    and g: "cf_id g = cf_id f" "set (key_lists f) \<subseteq> set (key_lists g)" "cf_max_size g = cf_max_size f"
    and fc': "map_of (fc_objs fc') = (map_of (fc_objs (bs_fc s)))(p \<mapsto> g)" "fc_meta fc' = fc_meta (bs_fc s)"
      "fc_next fc' = fc_next (bs_fc s)" "writer_cache_id fc' = writer_cache_id (bs_fc s)"
      "\<And>cid. writer_cache_id (bs_fc s) \<le> cid \<Longrightarrow> map_of (fc_dir fc') (cf_name cid) = None"
      "opt_file_size fc' = opt_file_size (bs_fc s)" "opt_wbs fc' = opt_wbs (bs_fc s)"
      "\<And>cid. cid \<noteq> cf_id f \<Longrightarrow> fc_bytes fc' cid = fc_bytes (bs_fc s) cid"
    and new: "writer_ok \<lparr>ws_file = g, ws_disk = fc_bytes fc' (cf_id f), ws_pc = x, ws_stream = bs_log s (cf_id f) @ d\<rparr>"
      "disk_woff g = word_of_nat (length (bs_log s (cf_id f) @ d))"
      "\<not> eof g \<Longrightarrow> length (bs_log s (cf_id f) @ d) \<le> unat (opt_file_size (bs_fc s))"
  shows "bs_ok e (s\<lparr>bs_fc := fc', bs_pc := (bs_pc s)(p := x),
    bs_log := (bs_log s)(cf_id f := bs_log s (cf_id f) @ d)\<rparr>)" (is "bs_ok e ?s")
proof -
  note O = bs_okD [OF ok] and F = files_okD [OF fc_shapeD(2) [OF bs_okD(4) [OF ok]]]
  have fd: "cf_fd g = FdOpen" using new(1) by (simp add: writer_ok_def Let_def)
  have "fc_shape fc'" by (rule fc_shape_put [OF O(4) f g(1) fd g(2) fc'(1-5)])
  moreover have "file_ok ?s q h" if "map_of (fc_objs fc') q = Some h" for q h
  proof (cases "q = p")
    case True
    with that have h: "h = g" by (simp add: fc'(1))
    have "cf_max_size f = opt_file_size (bs_fc s)" using O(5) [OF f] by (simp add: file_ok_def)
    then show ?thesis using new g True by (simp add: h file_ok_def file_view_def fc_content_bytes fc'(6))
  next
    case False
    with that have h: "map_of (fc_objs (bs_fc s)) q = Some h" by (simp add: fc'(1))
    have "cf_id h \<noteq> cf_id f" using fc_shape_inj [OF O(4) h f] False by blast
    then show ?thesis using O(5) [OF h] False
      by (simp add: file_ok_def file_view_def fc_content_bytes fc'(6,8))
  qed
  moreover have "\<exists>v. stored e (bs_log ?s (lba_cache_id lba)) lba k v"
    if "map_of (block_index (fc_meta fc')) k = Some lba" for k lba
  proof -
    from that obtain v where v: "stored e (bs_log s (lba_cache_id lba)) lba k v" using O(6) by (auto simp: fc'(2))
    have "stored e (bs_log ?s (lba_cache_id lba)) lba k v" using v stored_append [OF v, of d]
      by (cases "lba_cache_id lba = cf_id f") simp_all
    then show ?thesis by blast
  qed
  moreover have "bs_pc ?s q = AtWait" if "fc_next fc' \<le> q" for q
    using that O(7) [of q] F(1) [OF f] by (simp add: fc'(3))
  moreover have "bs_log ?s cid = []" if "writer_cache_id fc' \<le> cid" for cid
  proof -
    have "cf_id f < writer_cache_id (bs_fc s)" using F(2) fc_shapeD(5) [OF O(4) f] by blast
    then show ?thesis using that O(8) [of cid] by (auto simp: fc'(4))
  qed
  ultimately show ?thesis using O(1-3) by (simp add: bs_ok_def fc'(6,7))
qed

section \<open>Eviction\<close>

text \<open>
  \<open>fc_sub fc fc'\<close>: some files and their keys are gone, the rest is as it was.
\<close>

definition fc_sub :: "flash_cache \<Rightarrow> flash_cache \<Rightarrow> bool" where
  "fc_sub fc fc' \<longleftrightarrow> map_of (fc_objs fc') \<subseteq>\<^sub>m map_of (fc_objs fc) \<and>
     map_of (block_index (fc_meta fc')) \<subseteq>\<^sub>m map_of (block_index (fc_meta fc)) \<and>
     (\<forall>p f. map_of (fc_objs fc') p = Some f \<longrightarrow> fc_bytes fc' (cf_id f) = fc_bytes fc (cf_id f)) \<and>
     fc_next fc' = fc_next fc \<and> writer_cache_id fc' = writer_cache_id fc \<and>
     opt_file_size fc' = opt_file_size fc \<and> opt_wbs fc' = opt_wbs fc"

lemma fc_sub_refl: "fc_sub fc fc"
  by (simp add: fc_sub_def)

lemma fc_sub_trans: "fc_sub a b \<Longrightarrow> fc_sub b c \<Longrightarrow> fc_sub a c"
  unfolding fc_sub_def by (auto intro: map_le_trans simp: map_le_def dom_def)

lemma fc_evict_one_sub:
  assumes sh: "fc_shape fc" and ev: "fc_evict_one wbmode e caller fc = Inr fc'"
  shows "fc_shape fc' \<and> fc_sub fc fc'"
proof -
  note S = fc_shapeD [OF sh]
  let ?cid = "last (lru_order (fc_idx fc))"
  from fc_evict_one_effect [OF S(1,2) ev] obtain p f where E:
    "lru_value (fc_idx fc) ?cid = Some p" "map_of (fc_objs fc) p = Some f" "cf_id f = ?cid"
    "lru_value (fc_idx fc') = (lru_value (fc_idx fc))(?cid := None)"
    "map_of (block_index (fc_meta fc')) = map_of (block_index (fc_meta fc)) |` (- set (key_lists f))"
    "map_of (fc_dir fc') = (map_of (fc_dir fc))(cf_name ?cid := None)"
    "map_of (fc_objs fc') = (map_of (fc_objs fc))(p := None)" by blast
  have same: "fc_next fc' = fc_next fc" "writer_cache_id fc' = writer_cache_id fc"
    "opt_file_size fc' = opt_file_size fc" "opt_wbs fc' = opt_wbs fc"
    using ev by (auto simp: fc_evict_one_def bnd_eq_Inr split: if_splits)
  have other: "cf_id g \<noteq> ?cid" if "map_of (fc_objs fc) q = Some g" "q \<noteq> p" for q g
    using S(5) [OF that(1)] E(1) that(2) by auto
  have "objs_indexed fc'"
    using S(5) other by (auto simp: objs_indexed_def E(4,7) split: if_splits)
  moreover have "fc_bytes fc' (cf_id g) = fc_bytes fc (cf_id g)" if "map_of (fc_objs fc') q = Some g" for q g
    using that other [of q g] by (auto simp: fc_bytes_def E(6,7) split: if_splits)
  ultimately show ?thesis
    using fc_evict_one_keys_listed [OF S(1-3) ev] same
    by (auto simp: fc_shape_def fc_sub_def E(5,7) map_le_def)
qed

lemma fc_Evict_sub:
  "fc_Evict wbmode e caller sz fc = Inr fc' \<Longrightarrow> fc_shape fc \<Longrightarrow> fc_shape fc' \<and> fc_sub fc fc'"
proof (induction wbmode e caller sz fc rule: fc_Evict.induct)
  case (1 wbmode e caller sz fc)
  show ?case
  proof (cases "fc_over sz fc")
    case False
    with "1.prems" show ?thesis by (simp add: fc_Evict.simps [of wbmode e caller sz fc] fc_sub_refl)
  next
    case True
    let ?fc1 = "fc\<lparr>fcache_mutex := True\<rparr>"
    from "1.prems"(1) True obtain fc2 where st: "fc_lock fc = Inr ?fc1"
      "fc_evict_one wbmode e caller ?fc1 = Inr fc2"
      "fc_Evict wbmode e caller sz (fc_unlock fc2) = Inr fc'"
      by (auto simp: fc_Evict.simps [of wbmode e caller sz fc] bnd_eq_Inr fc_lock_def split: if_splits)
    have "fc_shape ?fc1" using "1.prems"(2) by (simp add: fc_shape_def files_ok_def keys_listed_def objs_indexed_def)
    from fc_evict_one_sub [OF this st(2)] have 2: "fc_shape fc2" "fc_sub ?fc1 fc2" by simp_all
    have "fc_shape (fc_unlock fc2)" using 2(1) by (simp add: fc_shape_def fc_unlock_frame objs_indexed_def)
    from "1.IH" [OF True st this] have "fc_shape fc'" "fc_sub (fc_unlock fc2) fc'" by simp_all
    moreover have "fc_sub fc (fc_unlock fc2)" using 2(2) by (simp add: fc_sub_def fc_unlock_def)
    ultimately show ?thesis using fc_sub_trans by blast
  qed
qed

lemma bs_ok_sub:
  assumes ok: "bs_ok e s" and sh: "fc_shape fc" and sub: "fc_sub (bs_fc s) fc"
  shows "bs_ok e (s\<lparr>bs_fc := fc\<rparr>)"
proof -
  note O = bs_okD [OF ok]
  from sub have S: "map_of (fc_objs fc) \<subseteq>\<^sub>m map_of (fc_objs (bs_fc s))"
    "map_of (block_index (fc_meta fc)) \<subseteq>\<^sub>m map_of (block_index (fc_meta (bs_fc s)))"
    "\<And>p f. map_of (fc_objs fc) p = Some f \<Longrightarrow> fc_bytes fc (cf_id f) = fc_bytes (bs_fc s) (cf_id f)"
    "fc_next fc = fc_next (bs_fc s)" "writer_cache_id fc = writer_cache_id (bs_fc s)"
    "opt_file_size fc = opt_file_size (bs_fc s)" "opt_wbs fc = opt_wbs (bs_fc s)"
    by (simp_all add: fc_sub_def)
  have "file_ok (s\<lparr>bs_fc := fc\<rparr>) p f" if f: "map_of (fc_objs fc) p = Some f" for p f
  proof -
    have "map_of (fc_objs (bs_fc s)) p = Some f" using S(1) f by (auto simp: map_le_def dom_def)
    from O(5) [OF this] show ?thesis
      by (simp add: file_ok_def file_view_def fc_content_bytes S(3) [OF f] S(6))
  qed
  moreover have "\<exists>v. stored e (bs_log s (lba_cache_id lba)) lba k v"
    if "map_of (block_index (fc_meta fc)) k = Some lba" for k lba
    using that S(2) by (intro O(6)) (auto simp: map_le_def dom_def)
  ultimately show ?thesis using O(1-3,7,8) sh by (simp add: bs_ok_def S)
qed

section \<open>The writer threads keep the invariant\<close>

lemma fc_set_obj_bytes [simp]: "fc_bytes (fc_set_obj p g fc) = fc_bytes fc"
  by (simp add: fc_bytes_def fc_set_obj_def fun_eq_iff)

lemma bs_ok_thread:
  assumes ok: "bs_ok e s" and f: "map_of (fc_objs (bs_fc s)) p = Some f"
    and g: "cf_id g = cf_id f" "key_lists g = key_lists f" "cf_max_size g = cf_max_size f"
      "disk_woff g = disk_woff f" "eof g = eof f"
    and step: "writer_step e (file_view s p f)
      \<lparr>ws_file = g, ws_disk = fc_content f (bs_fc s), ws_pc = x, ws_stream = bs_log s (cf_id f)\<rparr>"
  shows "bs_ok e (s\<lparr>bs_fc := fc_set_obj p g (bs_fc s), bs_pc := (bs_pc s)(p := x)\<rparr>)"
proof -
  note O = bs_okD [OF ok] and F = files_okD [OF fc_shapeD(2) [OF bs_okD(4) [OF ok]]]
  from O(5) [OF f] have fo: "writer_ok (file_view s p f)" "disk_woff f = word_of_nat (length (bs_log s (cf_id f)))"
    "\<not> eof f \<longrightarrow> length (bs_log s (cf_id f)) \<le> unat (opt_file_size (bs_fc s))" by (simp_all add: file_ok_def)
  have "bs_ok e (s\<lparr>bs_fc := fc_set_obj p g (bs_fc s), bs_pc := (bs_pc s)(p := x),
      bs_log := (bs_log s)(cf_id f := bs_log s (cf_id f) @ [])\<rparr>)"
  proof (rule bs_ok_put [OF ok f g(1) _ g(3)])
    show "writer_ok \<lparr>ws_file = g, ws_disk = fc_bytes (fc_set_obj p g (bs_fc s)) (cf_id f), ws_pc = x,
        ws_stream = bs_log s (cf_id f) @ []\<rparr>"
      using writer_ok_step [OF step fo(1)] by (simp add: fc_content_bytes)
  qed (use fo(2,3) F(3) in \<open>simp_all add: g fc_set_obj_def fc_bytes_def update_conv'\<close>)
  then show ?thesis by simp
qed

text \<open>The thread writes one buffer: the eviction before it, then the file itself.\<close>

lemma thread_flush_ok:
  assumes ok: "bs_ok e s" and p: "map_of (fc_objs (bs_fc s)) p = Some f"
    and pc: "bs_pc s p = AtLoop" "buf_doff f < buf_woff f" "buf_doff f < length (cf_bufs f)"
    and ev: "fc_Evict True e (Some p) (word_of_nat (wb_used (cf_bufs f ! buf_doff f))) (bs_fc s) = Inr fc"
    and wr: "cf_write_one e (\<lambda>_. False) f (fc_content f fc) = Inr (g, c)"
  shows "bs_ok e (s\<lparr>bs_fc := fc_put p g c fc\<rparr>) \<and> fc_sub (bs_fc s) fc"
proof -
  note O = bs_okD [OF ok]
  from fc_Evict_sub [OF ev O(4)] have sh: "fc_shape fc" and sub: "fc_sub (bs_fc s) fc" by simp_all
  define s1 where "s1 = s\<lparr>bs_fc := fc\<rparr>"
  have s1: "bs_fc s1 = fc" "bs_pc s1 = bs_pc s" "bs_log s1 = bs_log s" by (simp_all add: s1_def)
  have ok1: "bs_ok e s1" unfolding s1_def by (rule bs_ok_sub [OF ok sh sub])
  have f: "map_of (fc_objs fc) p = Some f" using fc_Evict_caller [OF ev] p by simp
  note F = files_okD [OF fc_shapeD(2) [OF sh]]
  have below: "cf_id f < writer_cache_id fc" using F(2) fc_shapeD(5) [OF sh f] by blast
  from bs_okD(5) [OF ok1, of p f] f have fo: "writer_ok (file_view s1 p f)"
    "cf_max_size f = opt_file_size fc" "disk_woff f = word_of_nat (length (bs_log s (cf_id f)))"
    "\<not> eof f \<longrightarrow> length (bs_log s (cf_id f)) \<le> unat (opt_file_size fc)" by (simp_all add: file_ok_def s1)
  from cf_write_one_Inr [OF wr] have g: "cf_id g = cf_id f" "key_lists g = key_lists f"
    "cf_max_size g = cf_max_size f" "disk_woff g = disk_woff f" "eof g = eof f"
    by (auto simp: Let_def)
  have step: "writer_step e (file_view s1 p f)
      \<lparr>ws_file = g, ws_disk = c, ws_pc = AtLoop, ws_stream = bs_log s (cf_id f)\<rparr>"
    using writer_step.flush [of "file_view s1 p f" e g c] pc wr by (simp add: file_view_def s1)
  have "bs_ok e (s1\<lparr>bs_fc := fc_put p g c fc, bs_pc := (bs_pc s1)(p := AtLoop),
      bs_log := (bs_log s1)(cf_id f := bs_log s1 (cf_id f) @ [])\<rparr>)"
  proof (rule bs_ok_put [OF ok1])
    show "map_of (fc_objs (bs_fc s1)) p = Some f" by (simp add: f s1)
    show "map_of (fc_dir (fc_put p g c fc)) (cf_name cid) = None" if "writer_cache_id (bs_fc s1) \<le> cid" for cid
      using that F(3) [of cid] below g(1) by (auto simp: fc_put_def update_conv' s1)
    show "writer_ok \<lparr>ws_file = g, ws_disk = fc_bytes (fc_put p g c fc) (cf_id f), ws_pc = AtLoop,
        ws_stream = bs_log s1 (cf_id f) @ []\<rparr>"
      using writer_ok_step [OF step fo(1)] by (simp add: fc_bytes_put g s1)
  qed (use fo g in \<open>simp_all add: fc_bytes_put s1\<close>, simp_all add: fc_put_def)
  moreover have "(bs_pc s)(p := AtLoop) = bs_pc s" using pc(1) by (simp add: fun_eq_iff)
  ultimately show ?thesis using sub by (simp add: s1_def)
qed

lemma thread_move_ok:
  assumes "thread_move e p s s'" and ok: "bs_ok e s"
  shows "bs_ok e s' \<and> bs_log s' = bs_log s \<and>
    map_of (block_index (fc_meta (bs_fc s'))) \<subseteq>\<^sub>m map_of (block_index (fc_meta (bs_fc s)))"
  using assms(1)
proof (cases rule: thread_move.cases)
  case (wake f)
  have "writer_step e (file_view s p f) \<lparr>ws_file = f\<lparr>sem_writer := sem_writer f - 1\<rparr>,
      ws_disk = fc_content f (bs_fc s), ws_pc = AtLoop, ws_stream = bs_log s (cf_id f)\<rparr>"
    using writer_step.wake [of "file_view s p f" e] wake by (simp add: file_view_def)
  from bs_ok_thread [OF ok wake(2) _ _ _ _ _ this] wake(1) show ?thesis by (simp add: fc_set_obj_def)
next
  case (drained f)
  have "writer_step e (file_view s p f) \<lparr>ws_file = f\<lparr>tid := Leaving\<rparr>,
      ws_disk = fc_content f (bs_fc s), ws_pc = AtReset, ws_stream = bs_log s (cf_id f)\<rparr>"
    using writer_step.drained [of "file_view s p f" e] drained by (simp add: file_view_def)
  from bs_ok_thread [OF ok drained(2) _ _ _ _ _ this] drained(1) show ?thesis by (simp add: fc_set_obj_def)
next
  case (reset f)
  have "writer_step e (file_view s p f) \<lparr>ws_file = f\<lparr>is_writer_running := False\<rparr>,
      ws_disk = fc_content f (bs_fc s), ws_pc = AtTest, ws_stream = bs_log s (cf_id f)\<rparr>"
    using writer_step.reset [of "file_view s p f" e] reset by (simp add: file_view_def)
  from bs_ok_thread [OF ok reset(2) _ _ _ _ _ this] reset(1) show ?thesis by (simp add: fc_set_obj_def)
next
  case (leave f)
  have "writer_step e (file_view s p f) \<lparr>ws_file = (cf_ClearBuffers f)\<lparr>tid := Finished\<rparr>,
      ws_disk = fc_content f (bs_fc s), ws_pc = AtEnd, ws_stream = bs_log s (cf_id f)\<rparr>"
    using writer_step.leave [of "file_view s p f" e] leave by (simp add: file_view_def)
  from bs_ok_thread [OF ok leave(2) _ _ _ _ _ this] leave(1) show ?thesis
    by (simp add: fc_set_obj_def cf_ClearBuffers_def)
next
  case (again f)
  have "writer_step e (file_view s p f) \<lparr>ws_file = f\<lparr>tid := Running\<rparr>,
      ws_disk = fc_content f (bs_fc s), ws_pc = AtWait, ws_stream = bs_log s (cf_id f)\<rparr>"
    using writer_step.again [of "file_view s p f" e] again by (simp add: file_view_def)
  from bs_ok_thread [OF ok again(2) _ _ _ _ _ this] again(1) show ?thesis by (simp add: fc_set_obj_def)
next
  case (flush f fc g c)
  from thread_flush_ok [OF ok flush(2,3,4,5,6,7)] show ?thesis
    using flush(1) by (simp add: fc_sub_def)
qed

section \<open>Insertion\<close>

lemma bs_ok_mutex [simp]: "bs_ok e (s\<lparr>bs_fc := (bs_fc s)\<lparr>fcache_mutex := b\<rparr>\<rparr>) = bs_ok e s"
  by (simp add: bs_ok_def fc_shape_def files_ok_def keys_listed_def objs_indexed_def file_ok_def
      file_view_def fc_content_bytes)

lemma new_file_shape:
  assumes shape: "fc_shape fc" and room: "fc_room fc (Suc n)"
  shows "fc_shape (with_new_file fc)"
proof -
  note S = fc_shapeD [OF shape] and F = files_okD [OF fc_shapeD(2) [OF shape]]
  note val = new_file_index [OF S(1,2)] and none = new_file_absent(2) [OF S(2)]
  have old: "q \<noteq> fc_next fc" "cf_id g \<noteq> writer_cache_id fc" if "map_of (fc_objs fc) q = Some g" for q g
    using F(1) [OF that] S(5) [OF that] none by auto
  have "keys_listed (with_new_file fc)"
    unfolding keys_listed_def
  proof (intro allI impI)
    fix k lba assume "map_of (block_index (fc_meta (with_new_file fc))) k = Some lba"
    with S(3) obtain q g where q: "lru_value (fc_idx fc) (lba_cache_id lba) = Some q"
      "map_of (fc_objs fc) q = Some g" "k \<in> set (key_lists g)" unfolding keys_listed_def by fastforce
    then show "\<exists>q g. lru_value (fc_idx (with_new_file fc)) (lba_cache_id lba) = Some q \<and>
        map_of (fc_objs (with_new_file fc)) q = Some g \<and> k \<in> set (key_lists g)"
      using none old(1) [OF q(2)] by (auto simp: val)
  qed
  moreover have "objs_indexed (with_new_file fc)"
    using S(5) old by (auto simp: objs_indexed_def val)
  ultimately show ?thesis
    using val(2) new_file_files_ok [OF S(1,2) room] by (simp add: fc_shape_def)
qed

lemma buf_new_file:
  assumes ok: "bs_ok e s" and room: "fc_room (bs_fc s) 1"
  shows "\<exists>fc f. fc_NewCacheFile (bs_fc s) = Inr (0, fc) \<and> bs_ok e (s\<lparr>bs_fc := fc\<rparr>) \<and>
    block_index (fc_meta fc) = block_index (fc_meta (bs_fc s)) \<and>
    fcache_mutex fc = fcache_mutex (bs_fc s) \<and>
    map_of (fc_objs fc) (fc_cur fc) = Some f \<and> \<not> eof f \<and>
    (\<forall>n. fc_room (bs_fc s) (Suc n) \<longrightarrow> fc_room fc n)"
proof -
  let ?fc = "bs_fc s" and ?fc' = "with_new_file (bs_fc s)"
  let ?cid = "writer_cache_id ?fc" and ?p = "fc_next ?fc"
  note O = bs_okD [OF ok] and S = fc_shapeD [OF bs_okD(4) [OF ok]] and N = new_file_number [OF room [unfolded One_nat_def]]
  note bytes = new_file_bytes [OF S(2)] and absent = new_file_absent(1) [OF S(2)]
  have fok: "file_ok (s\<lparr>bs_fc := ?fc'\<rparr>) q g" if "map_of (fc_objs ?fc') q = Some g" for q g
  proof (cases "q = ?p")
    case True
    then have g: "g = fresh_file ?fc" using that by simp
    have "writer_ok (writer_init ?cid (opt_file_size ?fc) (opt_wbs ?fc))" by (rule writer_ok_init [OF O(3)])
    moreover have "file_view (s\<lparr>bs_fc := ?fc'\<rparr>) q g = writer_init ?cid (opt_file_size ?fc) (opt_wbs ?fc)"
      using O(7) [of ?p] O(8) [of ?cid] True absent
      by (simp add: file_view_def writer_init_def g cf_Create_def cf_new_def fc_content_bytes bytes fc_bytes_def
          fresh_file_def)
    ultimately show ?thesis
      using O(8) [of ?cid] by (simp add: file_ok_def g) (simp add: fresh_file_def cf_new_def)
  next
    case False
    then have g: "map_of (fc_objs ?fc) q = Some g" using that by simp
    from O(5) [OF g] show ?thesis by (simp add: file_ok_def file_view_def fc_content_bytes bytes)
  qed
  have "bs_ok e (s\<lparr>bs_fc := ?fc'\<rparr>)"
    using O(1-3,6-8) new_file_shape [OF O(4) room [unfolded One_nat_def]] fok N(3) unfolding bs_ok_def
    by (simp add: Suc_le_eq) (simp add: with_new_file_def Suc_le_eq)
  then show ?thesis
    using fc_NewCacheFile_new [OF S(2)] new_file_number(4) by (intro exI [of _ ?fc'] exI [of _ "fresh_file ?fc"]) simp
qed

lemma buf_append_cur:
  assumes ok: "bs_ok e s" and good: "good_entry k v"
    and f: "map_of (fc_objs (bs_fc s)) (fc_cur (bs_fc s)) = Some f" "\<not> eof f"
  defines "log \<equiv> bs_log s (cf_id f) @ record_bytes (mk_record (env_crc e) k v)"
  shows "\<exists>lba fc g. fc_append_loop (Suc fuel) True e k v (bs_fc s) = Inr (Some lba, fc) \<and>
    bs_ok e (s\<lparr>bs_fc := fc, bs_log := (bs_log s)(cf_id f := log)\<rparr>) \<and>
    fc_meta fc = fc_meta (bs_fc s) \<and> fcache_mutex fc = fcache_mutex (bs_fc s) \<and>
    map_of (fc_objs fc) (fc_cur fc) = Some g \<and> cf_id g = cf_id f \<and> k \<in> set (key_lists g) \<and>
    lru_value (fc_idx fc) (cf_id f) = Some (fc_cur fc) \<and> lba_cache_id lba = cf_id f \<and> stored e log lba k v \<and>
    length log < 2 ^ 32 \<and> (\<forall>n. fc_room fc n = fc_room (bs_fc s) n)"
proof -
  let ?fc = "bs_fc s" and ?p = "fc_cur (bs_fc s)" and ?st = "bs_log s (cf_id f)"
  let ?r = "record_bytes (mk_record (env_crc e) k v)" and ?w = "unat (cf_wbs f)" and ?n = "rec_len k v"
  note O = bs_okD [OF ok] and F = files_okD [OF fc_shapeD(2) [OF bs_okD(4) [OF ok]]]
  from O(5) [OF f(1)] have fo: "writer_ok (file_view s ?p f)" "cf_max_size f = opt_file_size ?fc"
    "disk_woff f = word_of_nat (length ?st)" "length ?st \<le> unat (opt_file_size ?fc)"
    using f(2) by (simp_all add: file_ok_def)
  have b: "bufs_of f ?st" "buf_woff f = length ?st div ?w" and pc: "bs_pc s ?p \<noteq> AtEnd"
    using fo(1) f(2) by (auto simp: writer_ok_def file_view_def Let_def)
  have n: "?n < 2 ^ 31" "no_nul k" "no_nul v" using good by (simp_all add: good_entry_def)
  have len: "length ?st \<le> 2 ^ 31" using fo(4) O(2) by simp
  define lba where "lba = \<lparr>lba_cache_id = cf_id f, lba_off = disk_woff f, lba_size = word_of_nat ?n\<rparr>"
  from cf_Append_buffered [OF b(1) f(2) b(2), of k v e "fc_content f ?fc"] n(1) obtain bufs where
    ap: "let sz = disk_woff f + word_of_nat ?n;
        f1 = f\<lparr>cf_bufs := bufs, buf_woff := length (?st @ ?r) div ?w, key_lists := key_lists f @ [k],
          disk_woff := sz, eof := (cf_max_size f \<le> sz)\<rparr> in
      cf_Append True e k v f (fc_content f ?fc) =
        Inr (True, lba, cf_DispatchBuffer f1, fc_content f ?fc) \<and> bufs_of f1 (?st @ ?r)"
    unfolding lba_def by auto
  define f1 where "f1 = f\<lparr>cf_bufs := bufs, buf_woff := length (?st @ ?r) div ?w, key_lists := key_lists f @ [k],
    disk_woff := disk_woff f + word_of_nat ?n, eof := (cf_max_size f \<le> disk_woff f + word_of_nat ?n)\<rparr>"
  define g where "g = cf_DispatchBuffer f1"
  have app: "cf_Append True e k v f (fc_content f ?fc) = Inr (True, lba, g, fc_content f ?fc)"
    using ap by (simp add: Let_def g_def f1_def)
  have gf: "cf_id g = cf_id f" "key_lists g = key_lists f @ [k]" "cf_max_size g = cf_max_size f"
    "disk_woff g = disk_woff f + word_of_nat ?n" "eof g = (cf_max_size f \<le> disk_woff f + word_of_nat ?n)"
    by (auto simp: g_def f1_def cf_DispatchBuffer_def Let_def)
  let ?fc' = "fc_put ?p g (fc_content f ?fc) ?fc"
  have run: "fc_append_loop (Suc fuel) True e k v ?fc = Inr (Some lba, ?fc')"
    using f(1) app by (simp add: fc_obj_def Let_def)
  have below: "cf_id f < writer_cache_id ?fc" using F(2) fc_shapeD(5) [OF O(4) f(1)] by blast
  have sz: "unat (word_of_nat (length ?st + ?n) :: u32) = length ?st + ?n"
    using len n(1) by (simp add: unsigned_of_nat take_bit_nat_eq_self del: of_nat_add)
  have w: "writer_ok \<lparr>ws_file = g, ws_disk = fc_content f ?fc, ws_pc = bs_pc s ?p, ws_stream = ?st @ ?r\<rparr>"
    using writer_ok_append [OF fo(1), of k v e lba g "fc_content f ?fc"] app pc n(1)
    by (simp add: file_view_def)
  have "bs_ok e (s\<lparr>bs_fc := ?fc', bs_pc := (bs_pc s)(?p := bs_pc s ?p), bs_log := (bs_log s)(cf_id f := ?st @ ?r)\<rparr>)"
  proof (rule bs_ok_put [OF ok f(1) gf(1) _ gf(3)])
    show "map_of (fc_dir ?fc') (cf_name cid) = None" if "writer_cache_id ?fc \<le> cid" for cid
      using that F(3) [of cid] below gf(1) by (auto simp: fc_put_def update_conv')
    show "writer_ok \<lparr>ws_file = g, ws_disk = fc_bytes ?fc' (cf_id f), ws_pc = bs_pc s ?p, ws_stream = ?st @ ?r\<rparr>"
      using w by (simp add: fc_bytes_put gf(1) fc_content_bytes)
    show "disk_woff g = word_of_nat (length (?st @ ?r))" by (simp add: gf(4) fo(3))
    show "length (?st @ ?r) \<le> unat (opt_file_size ?fc)" if "\<not> eof g"
      using that sz fo(2,3) by (simp add: gf(5) word_le_nat_alt del: of_nat_add) (simp add: word_le_nat_alt flip: of_nat_add)
  qed (simp_all add: gf fc_bytes_put subset_insertI, simp_all add: fc_put_def)
  then have "bs_ok e (s\<lparr>bs_fc := ?fc', bs_log := (bs_log s)(cf_id f := log)\<rparr>)" by (simp add: log_def)
  moreover have "stored e log lba k v"
    unfolding log_def using n len fo(3) by (intro stored_new) (auto simp: lba_def)
  moreover have "length log < 2 ^ 32" using len n(1) by (simp add: log_def)
  moreover have "lru_value (fc_idx ?fc') (cf_id f) = Some ?p" using fc_shapeD(5) [OF O(4) f(1)] by simp
  moreover have "\<forall>n. fc_room ?fc' n = fc_room ?fc n" by (simp add: fc_room_def fc_put_def)
  ultimately show ?thesis
    using run gf by (intro exI [of _ lba] exI [of _ ?fc'] exI [of _ g]) (simp add: lba_def)
qed

text \<open>What the index promises for a key: the value of the record at its address in the stream.\<close>

definition fb_look :: "env \<Rightarrow> buf_sys \<Rightarrow> byte list \<Rightarrow> byte list option" where
  "fb_look e s k =
     (case meta_Lookup k (fc_meta (bs_fc s)) of
        None \<Rightarrow> None
      | Some lba \<Rightarrow>
          (case Deserialize (env_crc e) (take (unat (lba_size lba)) (drop (unat (lba_off lba))
                  (bs_log s (lba_cache_id lba))) @ env_tail e) (unat (lba_size lba)) of
             Inr (Some r) \<Rightarrow> Some (rec_val r)
           | _ \<Rightarrow> None))"

lemma fb_look_stored:
  assumes "bs_ok e s" "map_of (block_index (fc_meta (bs_fc s))) k = Some lba"
    and "stored e (bs_log s (lba_cache_id lba)) lba k v"
  shows "fb_look e s k = Some v"
  using assms stored_decode [OF bs_okD(1) [OF assms(1)] assms(3)]
  by (simp add: fb_look_def meta_Lookup_def)

lemma fb_look_None:
  assumes "bs_ok e s"
  shows "fb_look e s k = None \<longleftrightarrow> map_of (block_index (fc_meta (bs_fc s))) k = None"
proof (cases "map_of (block_index (fc_meta (bs_fc s))) k")
  case (Some lba)
  from bs_okD(6) [OF assms this] fb_look_stored [OF assms Some] show ?thesis using Some by auto
qed (simp add: fb_look_def meta_Lookup_def)

lemma fb_look_frame:
  assumes "bs_ok e s" "bs_ok e s'" and idx: "map_of (block_index (fc_meta (bs_fc s'))) k = map_of (block_index (fc_meta (bs_fc s))) k"
    and log: "\<And>cid. \<exists>d. bs_log s' cid = bs_log s cid @ d"
  shows "fb_look e s' k = fb_look e s k"
proof (cases "map_of (block_index (fc_meta (bs_fc s))) k")
  case None
  then show ?thesis using idx fb_look_None [OF assms(1), of k] fb_look_None [OF assms(2), of k] by simp
next
  case (Some lba)
  then obtain v where v: "stored e (bs_log s (lba_cache_id lba)) lba k v" using bs_okD(6) [OF assms(1)] by blast
  then have "stored e (bs_log s' (lba_cache_id lba)) lba k v" using log stored_append by metis
  then show ?thesis using fb_look_stored [OF assms(1) Some v] fb_look_stored [OF assms(2)] Some idx by simp
qed

lemma bs_ok_index:
  assumes ok: "bs_ok e s" and m: "cache_file_index m = fc_idx (bs_fc s)"
    and new: "\<And>k lba. map_of (block_index m) k = Some lba \<Longrightarrow>
      map_of (block_index (fc_meta (bs_fc s))) k = Some lba \<or>
      (\<exists>v. stored e (bs_log s (lba_cache_id lba)) lba k v) \<and>
      (\<exists>p f. lru_value (fc_idx (bs_fc s)) (lba_cache_id lba) = Some p \<and>
        map_of (fc_objs (bs_fc s)) p = Some f \<and> k \<in> set (key_lists f))"
  shows "bs_ok e (s\<lparr>bs_fc := (bs_fc s)\<lparr>fc_meta := m, fc_size := n, fcache_mutex := b\<rparr>\<rparr>)"
proof -
  note O = bs_okD [OF ok] and S = fc_shapeD [OF bs_okD(4) [OF ok]]
  let ?fc = "(bs_fc s)\<lparr>fc_meta := m, fc_size := n, fcache_mutex := b\<rparr>"
  have "keys_listed ?fc" using new S(3) unfolding keys_listed_def by (simp add: m) blast
  then have "fc_shape ?fc" using S(1,2,4) by (simp add: fc_shape_def files_ok_def objs_indexed_def m)
  moreover have "file_ok (s\<lparr>bs_fc := ?fc\<rparr>) p f" if "map_of (fc_objs (bs_fc s)) p = Some f" for p f
    using O(5) [OF that] by (simp add: file_ok_def file_view_def fc_content_bytes)
  moreover have "\<exists>v. stored e (bs_log s (lba_cache_id lba)) lba k v"
    if "map_of (block_index m) k = Some lba" for k lba
    using new [OF that] O(6) by blast
  ultimately show ?thesis using O(1-3,7,8) by (simp add: bs_ok_def)
qed

lemma buf_append_loop:
  assumes ok: "bs_ok e s" and good: "good_entry k v" and room: "fc_room (bs_fc s) 1"
    and f: "map_of (fc_objs (bs_fc s)) (fc_cur (bs_fc s)) = Some f"
  shows "\<exists>lba fc g cid. fc_append_loop 2 True e k v (bs_fc s) = Inr (Some lba, fc) \<and>
    bs_ok e (s\<lparr>bs_fc := fc, bs_log := (bs_log s)(cid := bs_log s cid @ record_bytes (mk_record (env_crc e) k v))\<rparr>) \<and>
    block_index (fc_meta fc) = block_index (fc_meta (bs_fc s)) \<and>
    map_of (fc_objs fc) (fc_cur fc) = Some g \<and> cf_id g = cid \<and> k \<in> set (key_lists g) \<and>
    lru_value (fc_idx fc) cid = Some (fc_cur fc) \<and> lba_cache_id lba = cid \<and>
    stored e (bs_log s cid @ record_bytes (mk_record (env_crc e) k v)) lba k v \<and>
    length (bs_log s cid @ record_bytes (mk_record (env_crc e) k v)) < 2 ^ 32 \<and>
    (\<forall>n. fc_room (bs_fc s) (Suc n) \<longrightarrow> fc_room fc n)"
proof (cases "eof f")
  case False
  have "fc_room fc (Suc n) \<Longrightarrow> fc_room fc n" for fc n by (simp add: fc_room_def)
  with buf_append_cur [OF ok good f False, of "Suc 0"] show ?thesis by (fastforce simp: numeral_2_eq_2)
next
  case True
  note O = bs_okD [OF ok] and F = files_okD [OF fc_shapeD(2) [OF bs_okD(4) [OF ok]]]
  let ?fc = "fc_put (fc_cur (bs_fc s)) f (fc_content f (bs_fc s)) (bs_fc s)"
  have below: "cf_id f < writer_cache_id (bs_fc s)" using F(2) fc_shapeD(5) [OF O(4) f] by blast
  define s1 where "s1 = s\<lparr>bs_fc := ?fc\<rparr>"
  have s1: "bs_fc s1 = ?fc" "bs_log s1 = bs_log s" by (simp_all add: s1_def)
  have bytes: "fc_bytes ?fc = fc_bytes (bs_fc s)" by (auto simp: fc_bytes_put fc_content_bytes fun_eq_iff)
  have "fc_sub (bs_fc s) ?fc"
    using f by (auto simp: fc_sub_def bytes map_le_def) (auto simp: fc_put_def)
  moreover have "fc_shape ?fc"
    using F(3) below f F(2) [OF fc_shapeD(5) [OF O(4) f]]
    by (intro fc_shape_put [OF O(4) f]) (auto simp: fc_put_def update_conv')
  ultimately have ok1: "bs_ok e s1" unfolding s1_def using bs_ok_sub [OF ok] by blast
  have "fc_room (bs_fc s1) 1" using room by (simp add: fc_room_def s1)
  from buf_new_file [OF ok1 this] obtain fc2 f2 where 2: "fc_NewCacheFile ?fc = Inr (0, fc2)"
    "bs_ok e (s1\<lparr>bs_fc := fc2\<rparr>)" "block_index (fc_meta fc2) = block_index (fc_meta (bs_fc s))"
    "map_of (fc_objs fc2) (fc_cur fc2) = Some f2" "\<not> eof f2"
    "\<forall>n. fc_room (bs_fc s) (Suc n) \<longrightarrow> fc_room fc2 n" by (auto simp: s1 fc_room_def)
  have step: "fc_append_loop 2 True e k v (bs_fc s) = fc_append_loop (Suc 0) True e k v fc2"
    using f True 2(1) by (simp add: numeral_2_eq_2 fc_obj_def cf_Append_def Let_def)
  from buf_append_cur [OF 2(2) good, of f2 0] 2(4,5) show ?thesis
    unfolding step using 2(3,6) by (fastforce simp: s1 s1_def)
qed

text \<open>The record of a key is in a file that is not full.\<close>

definition in_open_file :: "buf_sys \<Rightarrow> byte list \<Rightarrow> bool" where
  "in_open_file s k \<longleftrightarrow>
     (case meta_Lookup k (fc_meta (bs_fc s)) of None \<Rightarrow> False | Some lba \<Rightarrow>
     (case lru_value (fc_idx (bs_fc s)) (lba_cache_id lba) of None \<Rightarrow> False | Some p \<Rightarrow>
     (case map_of (fc_objs (bs_fc s)) p of None \<Rightarrow> False | Some f \<Rightarrow> \<not> eof f)))"

text \<open>The record of a key that the index lacks is found afterwards, and no other key changes.\<close>

lemma fb_look_indexed:
  assumes ok: "bs_ok e s" "bs_ok e s2"
    and idx: "\<And>x. map_of (block_index (fc_meta (bs_fc s2))) x =
      (if map_of (block_index (fc_meta (bs_fc s))) k = None \<and> x = k then Some lba
       else map_of (block_index (fc_meta (bs_fc s))) x)"
    and log: "\<And>cid. \<exists>d. bs_log s2 cid = bs_log s cid @ d"
    and st: "stored e (bs_log s2 (lba_cache_id lba)) lba k v"
  shows "fb_look e s2 = (if fb_look e s k = None then (fb_look e s)(k \<mapsto> v) else fb_look e s)"
proof (rule ext)
  fix x
  show "fb_look e s2 x = (if fb_look e s k = None then (fb_look e s)(k \<mapsto> v) else fb_look e s) x"
  proof (cases "map_of (block_index (fc_meta (bs_fc s))) k = None \<and> x = k")
    case True
    then have "fb_look e s2 k = Some v" using idx [of k] by (intro fb_look_stored [OF ok(2) _ st]) simp
    then show ?thesis using True fb_look_None [OF ok(1), of k] by simp
  next
    case False
    then have "fb_look e s2 x = fb_look e s x"
      using idx by (intro fb_look_frame [OF ok _ log]) simp
    then show ?thesis using False fb_look_None [OF ok(1), of k] by auto
  qed
qed

text \<open>The first insertion under a key is the one the index keeps.\<close>

lemma buf_insert:
  assumes ok: "bs_ok e s" and good: "good_entry k v" and room: "fc_room (bs_fc s) 1"
    and free: "\<not> fcache_mutex (bs_fc s)" and cur: "map_of (fc_objs (bs_fc s)) (fc_cur (bs_fc s)) = Some f"
  shows "\<exists>fc g log. fc_Insert True e k v (bs_fc s) = Inr (0, fc) \<and> map_of (fc_objs fc) (fc_cur fc) = Some g \<and>
    log = bs_log s (cf_id g) @ record_bytes (mk_record (env_crc e) k v) \<and> length log < 2 ^ 32 \<and>
    bs_ok e (s\<lparr>bs_fc := fc, bs_log := (bs_log s)(cf_id g := log)\<rparr>) \<and>
    fb_look e (s\<lparr>bs_fc := fc, bs_log := (bs_log s)(cf_id g := log)\<rparr>) =
      (if fb_look e s k = None then (fb_look e s)(k \<mapsto> v) else fb_look e s) \<and> \<not> fcache_mutex fc \<and>
    (\<forall>n. fc_room (bs_fc s) (Suc n) \<longrightarrow> fc_room fc n) \<and>
    (fb_look e s k = None \<longrightarrow> \<not> eof g \<longrightarrow> in_open_file (s\<lparr>bs_fc := fc, bs_log := (bs_log s)(cf_id g := log)\<rparr>) k)"
proof -
  let ?r = "record_bytes (mk_record (env_crc e) k v)"
  define s0 where "s0 = s\<lparr>bs_fc := (bs_fc s)\<lparr>fcache_mutex := True\<rparr>\<rparr>"
  have s0: "bs_ok e s0" "fc_room (bs_fc s0) 1" "map_of (fc_objs (bs_fc s0)) (fc_cur (bs_fc s0)) = Some f"
    "bs_log s0 = bs_log s" "block_index (fc_meta (bs_fc s0)) = block_index (fc_meta (bs_fc s))"
    using ok room cur by (simp_all add: s0_def fc_room_def)
  from buf_append_loop [OF s0(1) good s0(2,3)] obtain lba fc g where
    ap: "fc_append_loop 2 True e k v (bs_fc s0) = Inr (Some lba, fc)"
    and ok1: "bs_ok e (s0\<lparr>bs_fc := fc, bs_log := (bs_log s)(cf_id g := bs_log s (cf_id g) @ ?r)\<rparr>)"
    and idx: "block_index (fc_meta fc) = block_index (fc_meta (bs_fc s))"
    and g: "map_of (fc_objs fc) (fc_cur fc) = Some g" "k \<in> set (key_lists g)"
      "lru_value (fc_idx fc) (cf_id g) = Some (fc_cur fc)" "lba_cache_id lba = cf_id g"
    and st: "stored e (bs_log s (cf_id g) @ ?r) lba k v" "length (bs_log s (cf_id g) @ ?r) < 2 ^ 32"
    and rm: "\<forall>n. fc_room (bs_fc s0) (Suc n) \<longrightarrow> fc_room fc n" unfolding s0(4,5) by auto
  define s1 where "s1 = s0\<lparr>bs_fc := fc, bs_log := (bs_log s)(cf_id g := bs_log s (cf_id g) @ ?r)\<rparr>"
  define m where "m = meta_Insert k lba (fc_meta fc)"
  define fc2 where "fc2 = fc\<lparr>fc_meta := m, fc_size := fc_size fc + ucast (lba_size lba), fcache_mutex := False\<rparr>"
  have ins: "fc_Insert True e k v (bs_fc s) = Inr (0, fc2)"
    using free ap by (simp add: fc_Insert_def fc_lock_def s0_def fc2_def m_def fc_unlock_def)
  define s2 where "s2 = s1\<lparr>bs_fc := fc2\<rparr>"
  have "bs_ok e (s1\<lparr>bs_fc := (bs_fc s1)\<lparr>fc_meta := m, fc_size := fc_size fc + ucast (lba_size lba),
      fcache_mutex := False\<rparr>\<rparr>)"
  proof (rule bs_ok_index [OF ok1 [folded s1_def]])
    fix x l assume "map_of (block_index m) x = Some l"
    then have "map_of (block_index (fc_meta fc)) x = Some l \<or> x = k \<and> l = lba"
      by (auto simp: m_def map_of_meta_Insert split: if_splits)
    then show "map_of (block_index (fc_meta (bs_fc s1))) x = Some l \<or>
        (\<exists>v. stored e (bs_log s1 (lba_cache_id l)) l x v) \<and>
        (\<exists>p f. lru_value (fc_idx (bs_fc s1)) (lba_cache_id l) = Some p \<and>
          map_of (fc_objs (bs_fc s1)) p = Some f \<and> x \<in> set (key_lists f))"
      using g st(1) by (auto simp: s1_def)
  qed (simp add: s1_def m_def)
  then have "bs_ok e s2" by (simp add: s2_def fc2_def s1_def)
  moreover have "fb_look e s2 = (if fb_look e s k = None then (fb_look e s)(k \<mapsto> v) else fb_look e s)"
  proof (rule fb_look_indexed [OF ok \<open>bs_ok e s2\<close>])
    show "stored e (bs_log s2 (lba_cache_id lba)) lba k v" using st(1) by (simp add: s2_def s1_def g(4))
  qed (simp_all add: s2_def s1_def fc2_def m_def map_of_meta_Insert idx)
  moreover have "s2 = s\<lparr>bs_fc := fc2, bs_log := (bs_log s)(cf_id g := bs_log s (cf_id g) @ ?r)\<rparr>"
    by (simp add: s2_def s1_def s0_def)
  moreover have "map_of (fc_objs fc2) (fc_cur fc2) = Some g" using g(1) by (simp add: fc2_def)
  moreover have "in_open_file s2 k" if "fb_look e s k = None" "\<not> eof g"
    using that fb_look_None [OF ok, of k] g idx
    by (simp add: in_open_file_def meta_Lookup_def s2_def fc2_def m_def map_of_meta_Insert)
  moreover have "\<not> fcache_mutex fc2" "\<forall>n. fc_room (bs_fc s) (Suc n) \<longrightarrow> fc_room fc2 n"
    using rm by (simp_all add: fc2_def s0_def fc_room_def)
  ultimately show ?thesis using ins st(2) by (intro exI [of _ fc2] exI [of _ g]) simp
qed

lemma buf_delete:
  assumes ok: "bs_ok e s"
  shows "bs_ok e (s\<lparr>bs_fc := fc_DeleteMetaData k (bs_fc s)\<rparr>)"
    and "fb_look e (s\<lparr>bs_fc := fc_DeleteMetaData k (bs_fc s)\<rparr>) = (fb_look e s)(k := None)"
proof -
  let ?s = "s\<lparr>bs_fc := fc_DeleteMetaData k (bs_fc s)\<rparr>"
  show ok': "bs_ok e ?s"
  proof -
    have "bs_ok e (s\<lparr>bs_fc := (bs_fc s)\<lparr>fc_meta := meta_Erase k (fc_meta (bs_fc s)),
        fc_size := fc_size (bs_fc s), fcache_mutex := fcache_mutex (bs_fc s)\<rparr>\<rparr>)"
      by (rule bs_ok_index [OF ok]) (auto simp: map_of_meta_Erase split: if_splits)
    then show ?thesis by (simp add: fc_DeleteMetaData_def)
  qed
  show "fb_look e ?s = (fb_look e s)(k := None)"
  proof (rule ext)
    fix x
    have idx: "map_of (block_index (fc_meta (bs_fc ?s))) x = (if x = k then None else map_of (block_index (fc_meta (bs_fc s))) x)"
      by (simp add: fc_DeleteMetaData_def map_of_meta_Erase)
    show "fb_look e ?s x = ((fb_look e s)(k := None)) x"
    proof (cases "x = k")
      case True
      then show ?thesis using fb_look_None [OF ok', of k] idx by simp
    next
      case False
      then show ?thesis using idx by (simp add: fb_look_frame [OF ok ok'])
    qed
  qed
qed

text \<open>A lookup reorders the index of the files and reads one of them.\<close>

lemma buf_file_of:
  assumes ok: "bs_ok e s" and lba: "map_of (block_index (fc_meta (bs_fc s))) k = Some lba"
  obtains p f v where "lru_value (fc_idx (bs_fc s)) (lba_cache_id lba) = Some p"
    "map_of (fc_objs (bs_fc s)) p = Some f" "cf_id f = lba_cache_id lba" "writer_ok (file_view s p f)"
    "stored e (bs_log s (cf_id f)) lba k v" "fb_look e s k = Some v"
proof -
  note O = bs_okD [OF ok] and S = fc_shapeD [OF bs_okD(4) [OF ok]]
  from S(3) lba obtain p where p: "lru_value (fc_idx (bs_fc s)) (lba_cache_id lba) = Some p"
    unfolding keys_listed_def by blast
  from files_okD(2) [OF S(2) p] obtain f where f: "map_of (fc_objs (bs_fc s)) p = Some f"
    "cf_id f = lba_cache_id lba" by blast
  from O(6) [OF lba] obtain v where "stored e (bs_log s (lba_cache_id lba)) lba k v" by blast
  with that [OF p f] f O(5) [OF f(1)] fb_look_stored [OF ok lba] show ?thesis by (auto simp: file_ok_def)
qed

lemma buf_index_get:
  assumes ok: "bs_ok e s" and p: "lru_value (fc_idx (bs_fc s)) cid = Some p"
  obtains idx where "lru_get cid (fc_idx (bs_fc s)) = Inr (Some p, idx)"
    "\<And>b. bs_ok e (s\<lparr>bs_fc := (bs_fc s)\<lparr>fc_meta := (fc_meta (bs_fc s))\<lparr>cache_file_index := idx\<rparr>, fcache_mutex := b\<rparr>\<rparr>)"
proof -
  note O = bs_okD [OF ok] and S = fc_shapeD [OF bs_okD(4) [OF ok]]
  from S(1) p have "cid \<in> set (lru_order (fc_idx (bs_fc s)))" "lru_inv (fc_idx (bs_fc s))"
    by (simp_all add: lru_settled_def)
  with lru.get_present p obtain idx where idx: "lru_get cid (fc_idx (bs_fc s)) = Inr (Some p, idx)"
    "lru_inv idx" "set (lru_order idx) = set (lru_order (fc_idx (bs_fc s)))"
    "lru_value idx = lru_value (fc_idx (bs_fc s))"
    by (metis (no_types, lifting) in_set_remove1 list.set(2) lru.order_distinct option.inject
        insert_absorb set_remove1_eq insert_Diff)
  have "bs_ok e (s\<lparr>bs_fc := (bs_fc s)\<lparr>fc_meta := (fc_meta (bs_fc s))\<lparr>cache_file_index := idx\<rparr>, fcache_mutex := b\<rparr>\<rparr>)" for b
    using O S idx by (simp add: bs_ok_def fc_shape_def files_ok_def keys_listed_def objs_indexed_def
        file_ok_def file_view_def fc_content_bytes lru_settled_def)
  with idx(1) that show ?thesis by blast
qed

lemma buf_lookup:
  assumes ok: "bs_ok e s" and run: "fc_Lookup True e k (bs_fc s) = Inr (r, fc)"
  shows "bs_ok e (s\<lparr>bs_fc := fc\<rparr>)" "fb_look e (s\<lparr>bs_fc := fc\<rparr>) = fb_look e s"
    and "r = None \<longleftrightarrow> fb_look e s k = None" "r \<noteq> None \<Longrightarrow> r \<noteq> Some [] \<Longrightarrow> fb_look e s k = r"
proof -
  let ?s = "s\<lparr>bs_fc := fc\<rparr>"
  have *: "bs_ok e ?s \<and> block_index (fc_meta fc) = block_index (fc_meta (bs_fc s)) \<and>
      (r = None \<longleftrightarrow> fb_look e s k = None) \<and> (r \<noteq> None \<longrightarrow> r \<noteq> Some [] \<longrightarrow> fb_look e s k = r)"
  proof (cases "map_of (block_index (fc_meta (bs_fc s))) k")
    case None
    then have "r = None" "fc = (bs_fc s)\<lparr>fcache_mutex := True\<rparr>"
      using run by (auto simp: fc_Lookup_def bnd_eq_Inr fc_lock_def meta_Lookup_def split: if_splits)
    then show ?thesis using None ok fb_look_None [OF ok, of k] by simp
  next
    case (Some lba)
    from buf_file_of [OF ok this] obtain p f v where p: "lru_value (fc_idx (bs_fc s)) (lba_cache_id lba) = Some p"
      and f: "map_of (fc_objs (bs_fc s)) p = Some f" and w: "writer_ok (file_view s p f)"
      and st: "stored e (bs_log s (cf_id f)) lba k v" and v: "fb_look e s k = Some v" by blast
    from buf_index_get [OF ok p] obtain idx where idx: "lru_get (lba_cache_id lba) (fc_idx (bs_fc s)) = Inr (Some p, idx)"
      "\<And>b. bs_ok e (s\<lparr>bs_fc := (bs_fc s)\<lparr>fc_meta := (fc_meta (bs_fc s))\<lparr>cache_file_index := idx\<rparr>, fcache_mutex := b\<rparr>\<rparr>)" by blast
    from run Some idx(1) f obtain x where x: "cf_Read True e lba f (fc_content f (bs_fc s)) = Inr x"
      "r = Some (case x of None \<Rightarrow> [] | Some (k, v) \<Rightarrow> v)"
      "fc = (bs_fc s)\<lparr>fc_meta := (fc_meta (bs_fc s))\<lparr>cache_file_index := idx\<rparr>, fcache_mutex := False\<rparr>"
      by (auto simp: fc_Lookup_def bnd_eq_Inr fc_lock_def meta_Lookup_def meta_Lookup_file_def fc_obj_def
          fc_content_def fc_unlock_def Let_def split: if_splits)
    have "x = Some (k, v) \<or> x = None"
      using cf_Read_any [OF bs_okD(1) [OF ok] w, of lba k v x] st x(1) by (simp add: file_view_def)
    then show ?thesis using x(2,3) idx(2) [of False] v by auto
  qed
  then show ok': "bs_ok e ?s" and "r = None \<longleftrightarrow> fb_look e s k = None"
    "r \<noteq> None \<Longrightarrow> r \<noteq> Some [] \<Longrightarrow> fb_look e s k = r" by blast+
  show "fb_look e ?s = fb_look e s"
  proof (rule ext)
    fix x show "fb_look e ?s x = fb_look e s x" using * by (intro fb_look_frame [OF ok ok']) auto
  qed
qed

text \<open>While its file is not full a key is answered with the value the index promises.\<close>

lemma buf_lookup_open:
  assumes ok: "bs_ok e s" and free: "\<not> fcache_mutex (bs_fc s)" and op: "in_open_file s k"
  shows "\<exists>v fc. fb_look e s k = Some v \<and> fc_Lookup True e k (bs_fc s) = Inr (Some v, fc) \<and> \<not> fcache_mutex fc"
proof -
  from op obtain lba where lba: "map_of (block_index (fc_meta (bs_fc s))) k = Some lba"
    by (auto simp: in_open_file_def meta_Lookup_def split: option.splits)
  from buf_file_of [OF ok this] obtain p f v where p: "lru_value (fc_idx (bs_fc s)) (lba_cache_id lba) = Some p"
    and f: "map_of (fc_objs (bs_fc s)) p = Some f" and w: "writer_ok (file_view s p f)"
    and st: "stored e (bs_log s (cf_id f)) lba k v" and v: "fb_look e s k = Some v" by blast
  from buf_index_get [OF ok p] obtain idx where idx: "lru_get (lba_cache_id lba) (fc_idx (bs_fc s)) = Inr (Some p, idx)" by blast
  have "\<not> eof f" using op lba p f by (simp add: in_open_file_def meta_Lookup_def)
  then have "cf_Read True e lba f (fc_content f (bs_fc s)) = Inr (Some (k, v))"
    using cf_Read_buffered [OF bs_okD(1) [OF ok] w _, of lba k v] st by (simp add: file_view_def)
  then show ?thesis using free lba idx f v
    by (simp add: fc_Lookup_def fc_lock_def meta_Lookup_def meta_Lookup_file_def fc_obj_def
        fc_content_def fc_unlock_def Let_def)
qed

section \<open>The abstract cache\<close>

text \<open>
  What the cache promises: an insertion under a key that is there is ignored, a lookup answers
  with the value, or with the empty one when the record cannot be read, and never with another;
  a writer thread may lose entries, and adds and changes none.
\<close>

fun flash_promise :: "buf_event \<Rightarrow> (byte list \<rightharpoonup> byte list) \<Rightarrow> (byte list \<rightharpoonup> byte list) \<Rightarrow> bool" where
  "flash_promise (BInsert k v) m m' = (m' = (if m k = None then m(k \<mapsto> v) else m))"
| "flash_promise (BLookup k r) m m' =
     (m' = m \<and> (case r of None \<Rightarrow> m k = None | Some x \<Rightarrow> m k \<noteq> None \<and> (x = [] \<or> m k = Some x)))"
| "flash_promise (BDelete k) m m' = (m' = m(k := None))"
| "flash_promise BThread m m' = (m' \<subseteq>\<^sub>m m)"

lemma thread_move_promise:
  assumes mv: "thread_move e p s s'" and ok: "bs_ok e s"
  shows "fb_look e s' \<subseteq>\<^sub>m fb_look e s"
proof -
  from thread_move_ok [OF mv ok] have ok': "bs_ok e s'" and log: "bs_log s' = bs_log s"
    and sub: "map_of (block_index (fc_meta (bs_fc s'))) \<subseteq>\<^sub>m map_of (block_index (fc_meta (bs_fc s)))" by blast+
  show ?thesis
    unfolding map_le_def
  proof
    fix k assume "k \<in> dom (fb_look e s')"
    then have "k \<in> dom (map_of (block_index (fc_meta (bs_fc s'))))"
      using fb_look_None [OF ok', of k] by (auto simp: dom_def)
    then have "map_of (block_index (fc_meta (bs_fc s'))) k = map_of (block_index (fc_meta (bs_fc s))) k"
      using sub by (simp add: map_le_def)
    then show "fb_look e s' k = fb_look e s k" by (rule fb_look_frame [OF ok ok']) (simp add: log)
  qed
qed

lemma Insert_ready:
  assumes "fc_Insert wbmode e k v fc = Inr (0, fc')"
  obtains f where "\<not> fcache_mutex fc" "map_of (fc_objs fc) (fc_cur fc) = Some f"
proof -
  from assms have free: "\<not> fcache_mutex fc" by (auto simp: fc_Insert_def fc_lock_def split: if_splits)
  with assms obtain f where "map_of (fc_objs fc) (fc_cur fc) = Some f"
    by (auto simp: fc_Insert_def fc_lock_def numeral_2_eq_2 fc_obj_def bnd_eq_Inr split: option.splits)
  with free show ?thesis by (rule that)
qed

lemma buf_step_ok:
  assumes step: "buf_step e ev s s'" and ok: "bs_ok e s"
  shows "bs_ok e s' \<and> flash_promise ev (fb_look e s) (fb_look e s')"
  using step
proof cases
  case (insert k v fc f)
  obtain g where "\<not> fcache_mutex (bs_fc s)" "map_of (fc_objs (bs_fc s)) (fc_cur (bs_fc s)) = Some g"
    by (rule Insert_ready [OF insert(5)])
  from buf_insert [OF ok insert(3,4) this] insert show ?thesis by auto
next
  case (lookup k r fc)
  with buf_lookup [OF ok lookup(3)] show ?thesis by (cases r) auto
next
  case (delete k)
  with buf_delete [OF ok] show ?thesis by simp
next
  case (thread p)
  with thread_move_ok [OF thread(2) ok] thread_move_promise [OF thread(2) ok] show ?thesis by simp
qed

lemma buf_reach_ok: "buf_reach e s0 evs s \<Longrightarrow> bs_ok e s0 \<Longrightarrow> bs_ok e s"
  by (induction rule: buf_reach.induct) (use buf_step_ok in blast)+

section \<open>The contract of the flash cache\<close>

text \<open>
  Between two calls of the clients, with the mutex free and a current file, the cache with buffers
  keeps the contract the direct one keeps.
\<close>

definition buf_idle :: "env \<times> buf_sys \<Rightarrow> bool" where
  "buf_idle s \<longleftrightarrow> bs_ok (fst s) (snd s) \<and> \<not> fcache_mutex (bs_fc (snd s)) \<and>
     map_of (fc_objs (bs_fc (snd s))) (fc_cur (bs_fc (snd s))) \<noteq> None"

definition buf_put :: "byte list \<Rightarrow> byte list \<Rightarrow> env \<times> buf_sys \<Rightarrow> (env \<times> buf_sys) res" where
  "buf_put k v s =
     (case s of (e, b) \<Rightarrow>
        bnd (fc_Insert True e k v (bs_fc b)) (\<lambda>(r, fc).
        bnd (fc_obj (fc_cur fc) fc) (\<lambda>f.
          Inr (e, b\<lparr>bs_fc := fc, bs_log := (bs_log b)(cf_id f :=
            bs_log b (cf_id f) @ record_bytes (mk_record (env_crc e) k v))\<rparr>))))"

definition buf_del :: "byte list \<Rightarrow> env \<times> buf_sys \<Rightarrow> env \<times> buf_sys" where
  "buf_del k s = (case s of (e, b) \<Rightarrow> (e, b\<lparr>bs_fc := fc_DeleteMetaData k (bs_fc b)\<rparr>))"

interpretation buffered: insert_once_delete buf_idle good_entry "\<lambda>s n. fc_room (bs_fc (snd s)) n"
  "\<lambda>s. fb_look (fst s) (snd s)" buf_put buf_del
proof unfold_locales
  fix s k v n
  assume idle: "buf_idle s" and good: "good_entry k v" and room: "fc_room (bs_fc (snd s)) (Suc n)"
  obtain e b where s: "s = (e, b)" by (cases s)
  from idle obtain f where ok: "bs_ok e b" "\<not> fcache_mutex (bs_fc b)" "map_of (fc_objs (bs_fc b)) (fc_cur (bs_fc b)) = Some f"
    by (auto simp: buf_idle_def s)
  have "fc_room (bs_fc b) 1" using room by (simp add: s fc_room_def)
  from buf_insert [OF ok(1) good this ok(2,3)] obtain fc g where
    I: "fc_Insert True e k v (bs_fc b) = Inr (0, fc)" "map_of (fc_objs fc) (fc_cur fc) = Some g" "\<not> fcache_mutex fc"
      "fc_room fc n"
    and B: "let c = b\<lparr>bs_fc := fc, bs_log := (bs_log b)(cf_id g := bs_log b (cf_id g) @
        record_bytes (mk_record (env_crc e) k v))\<rparr> in bs_ok e c \<and>
      fb_look e c = (if fb_look e b k = None then (fb_look e b)(k \<mapsto> v) else fb_look e b)"
    using room by (auto simp: Let_def s)
  show "\<exists>s'. buf_put k v s = Inr s' \<and> buf_idle s' \<and> fc_room (bs_fc (snd s')) n \<and>
      fb_look (fst s') (snd s') = (if fb_look (fst s) (snd s) k = None
        then (fb_look (fst s) (snd s))(k \<mapsto> v) else fb_look (fst s) (snd s))"
    using I B by (simp add: buf_put_def s fc_obj_def buf_idle_def Let_def)
next
  fix s k assume "buf_idle s"
  then show "buf_idle (buf_del k s) \<and>
      fb_look (fst (buf_del k s)) (snd (buf_del k s)) = (fb_look (fst s) (snd s))(k := None)"
    using buf_delete [of "fst s" "snd s" k] by (cases s) (simp add: buf_idle_def buf_del_def, simp add: fc_DeleteMetaData_def)
next
  fix s k n assume "buf_idle s" "fc_room (bs_fc (snd s)) n"
  then show "fc_room (bs_fc (snd (buf_del k s))) n"
    by (cases s) (simp add: buf_del_def fc_DeleteMetaData_def fc_room_def)
qed

section \<open>From the start\<close>

definition buf_start :: "flash_cache \<Rightarrow> buf_sys" where
  "buf_start fc = \<lparr>bs_fc = fc, bs_pc = \<lambda>_. AtWait, bs_log = \<lambda>_. []\<rparr>"

lemma buf_open:
  assumes "env_ok e" "0 < wbs" "unat file_size \<le> 2 ^ 31"
  shows "\<exists>fc f. fc_Open e (fc_construct cs file_size wbs gs gf []) = Inr (0, fc) \<and>
    bs_ok e (buf_start fc) \<and> fb_look e (buf_start fc) = Map.empty \<and> \<not> fcache_mutex fc \<and>
    map_of (fc_objs fc) (fc_cur fc) = Some f \<and> \<not> eof f \<and> (\<forall>n. Suc n < 2 ^ 32 \<longrightarrow> fc_room fc n)"
proof -
  define fc0 where "fc0 = fc_construct cs file_size wbs gs gf []"
  have fc0: "fc_objs fc0 = []" "fc_dir fc0 = []" "writer_cache_id fc0 = 0" "opt_file_size fc0 = file_size"
    "opt_wbs fc0 = wbs" "fc_idx fc0 = lru_new" "block_index (fc_meta fc0) = []" "\<not> fcache_mutex fc0"
    by (simp_all add: fc0_def fc_construct_def meta_new_def)
  have "fc_shape fc0"
    by (simp add: fc_shape_def files_ok_def keys_listed_def objs_indexed_def fc0)
  then have ok: "bs_ok e (buf_start fc0)" using assms by (simp add: bs_ok_def buf_start_def fc0)
  have "fc_room (bs_fc (buf_start fc0)) 1" by (simp add: fc_room_def buf_start_def fc0)
  from buf_new_file [OF ok this] obtain fc f where fc: "fc_NewCacheFile fc0 = Inr (0, fc)"
    "bs_ok e (buf_start fc)" "block_index (fc_meta fc) = []" "\<not> fcache_mutex fc"
    "map_of (fc_objs fc) (fc_cur fc) = Some f" "\<not> eof f" "\<forall>n. Suc n < 2 ^ 32 \<longrightarrow> fc_room fc n"
    by (auto simp: buf_start_def fc0 fc_room_def)
  have "fc_Open e fc0 = Inr (0, fc)" by (simp add: fc_Open_def fc0 fc(1))
  moreover have "fb_look e (buf_start fc) = Map.empty"
    using fb_look_None [OF fc(2)] fc(3) by (auto simp: fun_eq_iff buf_start_def)
  ultimately show ?thesis using fc by (auto simp: fc0_def)
qed

text \<open>Any number of insertions go through, and the first under each key counts.\<close>

lemma buffered_fill:
  assumes "env_ok e" "0 < wbs" "unat file_size \<le> 2 ^ 31" "\<forall>(k, v) \<in> set kvs. good_entry k v" "length kvs + 1 < 2 ^ 32"
    and "fc_Open e (fc_construct cs file_size wbs gs gf []) = Inr (0, fc)"
  shows "\<exists>s. put_all buf_put kvs (e, buf_start fc) = Inr s \<and> buf_idle s \<and> fb_look (fst s) (snd s) = map_of kvs"
proof -
  from buf_open [OF assms(1-3), of cs gs gf] assms(5,6) have "buf_idle (e, buf_start fc)"
    "fb_look e (buf_start fc) = Map.empty" "fc_room (bs_fc (buf_start fc)) (length kvs)"
    by (auto simp: buf_idle_def buf_start_def)
  with buffered.put_all_look [of "(e, buf_start fc)" kvs] assms(4) show ?thesis by auto
qed

section \<open>Properties\<close>

text \<open>
  C5: Refinement of the cache in the write-buffer mode. From the cache opened on an empty
  directory, whatever calls of the clients and steps of the writer threads have run, evictions
  included, the next step does to the abstract map what \<open>flash_promise\<close> allows: the first insertion
  under a key counts, a deletion removes it, a lookup changes nothing and answers a miss for a key
  that is not there and otherwise its value or the empty string, and a writer thread only loses
  entries.
\<close>

theorem buffered_cache_refines:
  assumes "env_ok e" "0 < wbs" "unat file_size \<le> 2 ^ 31"
    and "fc_Open e (fc_construct cs file_size wbs gs gf []) = Inr (0, fc)"
    and "buf_reach e (buf_start fc) evs s" "buf_step e ev s s'"
  shows "flash_promise ev (fb_look e s) (fb_look e s') \<and> fb_look e (buf_start fc) = Map.empty"
proof -
  from buf_open [OF assms(1-3), of cs gs gf] assms(4) have "bs_ok e (buf_start fc)"
    "fb_look e (buf_start fc) = Map.empty" by auto
  with buf_step_ok [OF assms(6) buf_reach_ok [OF assms(5)]] show ?thesis by blast
qed

text \<open>The values inserted under a key since its last deletion.\<close>

fun offered :: "byte list \<Rightarrow> buf_event list \<Rightarrow> byte list set" where
  "offered k [] = {}"
| "offered k (BInsert x v # evs) = (if x = k then insert v (offered k evs) else offered k evs)"
| "offered k (BDelete x # evs) = (if x = k then {} else offered k evs)"
| "offered k (ev # evs) = offered k evs"

lemma buf_look_offered:
  assumes "buf_reach e s0 evs s" "bs_ok e s0" "fb_look e s0 = Map.empty"
  shows "fb_look e s k = Some v \<Longrightarrow> v \<in> offered k (rev evs)"
  using assms(1)
proof (induction arbitrary: v rule: buf_reach.induct)
  case start
  then show ?case using assms(3) by simp
next
  case (step evs s ev s')
  from buf_step_ok [OF step(2) buf_reach_ok [OF step(1) assms(2)]]
  have p: "flash_promise ev (fb_look e s) (fb_look e s')" by blast
  show ?case
  proof (cases ev)
    case BThread
    then have "fb_look e s k = Some v" using p step(4) by (auto simp: map_le_def dom_def)
    then show ?thesis using BThread step(3) by simp
  qed (use p step(3,4) in \<open>auto split: if_splits\<close>)
qed

text \<open>
  Whatever the clients and the writer threads of all files have done since the cache was
  opened on an empty directory, a lookup that answers with bytes answers with a value that was
  inserted under this very key after its last deletion, and a key that has not been inserted
  since is a miss.
\<close>

lemma buffered_answers_true:
  assumes "env_ok e" "0 < wbs" "unat file_size \<le> 2 ^ 31"
    and "fc_Open e (fc_construct cs file_size wbs gs gf []) = Inr (0, fc)"
    and "buf_reach e (buf_start fc) evs s" "fc_Lookup True e k (bs_fc s) = Inr (Some v, fc')"
  shows "v \<in> offered k (rev evs) \<or> v = [] \<and> offered k (rev evs) \<noteq> {}"
proof -
  from buf_open [OF assms(1-3), of cs gs gf] assms(4) have ok: "bs_ok e (buf_start fc)"
    "fb_look e (buf_start fc) = Map.empty" by auto
  note L = buf_lookup [OF buf_reach_ok [OF assms(5) ok(1)] assms(6)]
  from L(3) obtain w where w: "fb_look e s k = Some w" by auto
  from buf_look_offered [OF assms(5) ok w] L(4) w show ?thesis by auto
qed

text \<open>
  C11: An insertion goes through. In every state reached from the opened cache, with the mutex
  free, a current file and room for a file number, inserting a key that is not there succeeds and
  releases the mutex, and unless it has filled its file, the next lookup of the key answers with
  the value, however far the writer threads are.
\<close>

theorem buffered_put_get:
  assumes "env_ok e" "0 < wbs" "unat file_size \<le> 2 ^ 31"
    and "fc_Open e (fc_construct cs file_size wbs gs gf []) = Inr (0, fc)"
    and "buf_reach e (buf_start fc) evs s" "good_entry k v" "fc_room (bs_fc s) 1" "\<not> fcache_mutex (bs_fc s)"
    and "map_of (fc_objs (bs_fc s)) (fc_cur (bs_fc s)) \<noteq> None" "meta_Lookup k (fc_meta (bs_fc s)) = None"
  shows "\<exists>fc1 f. fc_Insert True e k v (bs_fc s) = Inr (0, fc1) \<and> map_of (fc_objs fc1) (fc_cur fc1) = Some f \<and>
    (eof f \<or> (\<exists>fc2. fc_Lookup True e k fc1 = Inr (Some v, fc2)))"
proof -
  from buf_open [OF assms(1-3), of cs gs gf] assms(4) have "bs_ok e (buf_start fc)" by auto
  with buf_reach_ok assms(5) have ok: "bs_ok e s" by blast
  from assms(9) obtain f where f: "map_of (fc_objs (bs_fc s)) (fc_cur (bs_fc s)) = Some f" by blast
  have none: "fb_look e s k = None" using assms(10) by (simp add: fb_look_def)
  let ?s1 = "\<lambda>fc1 g log. s\<lparr>bs_fc := fc1, bs_log := (bs_log s)(cf_id g := log)\<rparr>"
  from buf_insert [OF ok assms(6-8) f] none obtain fc1 g log where ins: "fc_Insert True e k v (bs_fc s) = Inr (0, fc1)"
    and g: "map_of (fc_objs fc1) (fc_cur fc1) = Some g" "\<not> fcache_mutex fc1"
    and ok1: "bs_ok e (?s1 fc1 g log)" and look: "fb_look e (?s1 fc1 g log) = (fb_look e s)(k \<mapsto> v)"
    and op: "\<not> eof g \<Longrightarrow> in_open_file (?s1 fc1 g log) k" by auto
  have "\<exists>fc2. fc_Lookup True e k fc1 = Inr (Some v, fc2)" if "\<not> eof g"
    using buf_lookup_open [OF ok1 _ op [OF that]] look g by auto
  then show ?thesis using ins g by blast
qed

section \<open>A run\<close>

text \<open>The cache that has just been opened on an empty directory.\<close>

definition opened_cache :: "u64 \<Rightarrow> u32 \<Rightarrow> u32 \<Rightarrow> flash_cache" where
  "opened_cache cs mx wbs =
     \<lparr>fc_objs = [(0, (cf_new 0 mx wbs)\<lparr>cf_fd := FdOpen, tid := Running, sem_writer := 0\<rparr>)],
      fc_next = 1, fc_dir = [(cf_name 0, [])], fc_size = 0, writer_cache_id = 1, fc_cur = 0,
      fc_meta = \<lparr>cache_file_index = lru_insert 0 0 lru_new, block_index = []\<rparr>, fcache_mutex = False,
      opt_cache_size = cs, opt_file_size = mx, opt_wbs = wbs\<rparr>"

lemma opened_cache_Open: "fc_Open e (fc_construct cs mx wbs 0 0 []) = Inr (0, opened_cache cs mx wbs)"
  by (simp add: fc_Open_def fc_construct_def fc_NewCacheFile_def cf_Create_def cf_new_def Let_def opened_cache_def
    meta_Insert_file_def meta_new_def)

definition after_first :: "byte list \<Rightarrow> LBA \<Rightarrow> cache_file \<Rightarrow> flash_cache \<Rightarrow> flash_cache" where
  "after_first k lba f fc = fc_unlock ((fc_put 0 f [] (fc\<lparr>fcache_mutex := True\<rparr>))
     \<lparr>fc_size := ucast (lba_size lba), fc_meta := meta_Insert k lba (fc_meta fc)\<rparr>)"

lemma after_first_simps [simp]:
  "fc_objs (after_first k lba f (opened_cache cs mx wbs)) = [(0, f)]"
  "fc_cur (after_first k lba f (opened_cache cs mx wbs)) = 0"
  "fc_size (after_first k lba f (opened_cache cs mx wbs)) = ucast (lba_size lba)"
  "opt_cache_size (after_first k lba f (opened_cache cs mx wbs)) = cs"
  by (simp_all add: after_first_def opened_cache_def fc_unlock_def fc_put_def)

lemma opened_cache_after_first:
  assumes "cf_Append True e k v ((cf_new 0 mx wbs)\<lparr>cf_fd := FdOpen, tid := Running, sem_writer := 0\<rparr>) [] =
    Inr (True, lba, f, [])"
  shows "fc_Insert True e k v (opened_cache cs mx wbs) = Inr (0, after_first k lba f (opened_cache cs mx wbs))"
  by (simp add: assms fc_Insert_def fc_lock_def opened_cache_def numeral_2_eq_2 fc_obj_def Let_def
      fc_content_def fc_unlock_def fc_put_def after_first_def)

lemma opened_cache_Insert:
  assumes "0 < wbs" "rec_len k v < 2 ^ 32"
  obtains fc1 f where "fc_Insert True e k v (opened_cache cs mx wbs) = Inr (0, fc1)"
    "map_of (fc_objs fc1) (fc_cur fc1) = Some f" "eof f = (mx \<le> word_of_nat (rec_len k v))"
    "fc_dir fc1 = [(cf_name 0, [])]"
proof -
  let ?f = "(cf_new 0 mx wbs)\<lparr>cf_fd := FdOpen, tid := Running, sem_writer := 0\<rparr> :: cache_file"
  obtain lba f where f: "cf_Append True e k v ?f [] = Inr (True, lba, f, [])"
    "eof f = (mx \<le> word_of_nat (rec_len k v))" "cf_id f = 0"
    using first_append [OF assms, of e 0 mx] by (auto simp: writer_init_def cf_Create_def cf_new_def)
  show ?thesis by (rule that [OF opened_cache_after_first [OF f(1)], of f])
      (simp_all add: f(2), simp add: after_first_def opened_cache_def fc_unlock_def fc_put_def f(3))
qed

text \<open>Files of 30 bytes with buffers of 16 bytes.\<close>

definition sample_buffered :: flash_cache where
  "sample_buffered = opened_cache 100 30 16"

lemma sample_buffered_Open: "fc_Open e (fc_construct 100 30 16 0 0 []) = Inr (0, sample_buffered)"
  by (simp add: opened_cache_Open sample_buffered_def)

lemma sample_buffered_Insert:
  obtains fc1 f where "fc_Insert True sample_env ''k'' ''v'' sample_buffered = Inr (0, fc1)"
    "map_of (fc_objs fc1) (fc_cur fc1) = Some f" "\<not> eof f"
  by (rule opened_cache_Insert [of 16 "''k''" "''v''" sample_env 100 30]) (auto simp: sample_buffered_def)

lemma sample_good: "good_entry ''k'' ''v''"
  by (simp add: good_entry_def no_nul_def)

lemma sample_buffered_ok: "bs_ok sample_env (buf_start sample_buffered)"
  "fb_look sample_env (buf_start sample_buffered) = Map.empty"
  using buf_open [of sample_env 16 30 100 0 0] sample_buffered_Open [of sample_env] by auto

lemma sample_buffered_run:
  obtains s1 fc2 where "buf_step sample_env (BInsert ''k'' ''v'') (buf_start sample_buffered) s1"
    "fc_Lookup True sample_env ''k'' (bs_fc s1) = Inr (Some ''v'', fc2)"
proof -
  let ?s = "buf_start sample_buffered"
  let ?s1 = "\<lambda>fc g log. ?s\<lparr>bs_fc := fc, bs_log := (bs_log ?s)(cf_id g := log)\<rparr>"
  obtain fc1 f where 1: "fc_Insert True sample_env ''k'' ''v'' (bs_fc ?s) = Inr (0, fc1)"
    "map_of (fc_objs fc1) (fc_cur fc1) = Some f" "\<not> eof f"
    by (rule sample_buffered_Insert) (auto simp: buf_start_def)
  have pre: "fc_room (bs_fc ?s) 1" "\<not> fcache_mutex (bs_fc ?s)"
    "map_of (fc_objs (bs_fc ?s)) (fc_cur (bs_fc ?s)) \<noteq> None"
    by (simp_all add: buf_start_def fc_room_def sample_buffered_def opened_cache_def)
  then obtain f0 where f0: "map_of (fc_objs (bs_fc ?s)) (fc_cur (bs_fc ?s)) = Some f0" by blast
  from buf_insert [OF sample_buffered_ok(1) sample_good pre(1,2) f0] 1 sample_buffered_ok(2) obtain log where
    log: "log = bs_log ?s (cf_id f) @ record_bytes (mk_record (env_crc sample_env) ''k'' ''v'')"
    and ok1: "bs_ok sample_env (?s1 fc1 f log)" and look: "fb_look sample_env (?s1 fc1 f log) = [''k'' \<mapsto> ''v'']"
    and free: "\<not> fcache_mutex fc1" and op: "in_open_file (?s1 fc1 f log) ''k''" by auto
  from buf_lookup_open [OF ok1 _ op] free look obtain fc2 where
    "fc_Lookup True sample_env ''k'' (bs_fc (?s1 fc1 f log)) = Inr (Some ''v'', fc2)" by auto
  moreover have "buf_step sample_env (BInsert ''k'' ''v'') ?s (?s1 fc1 f log)"
    unfolding log using 1 pre(1) by (intro buf_step.insert) (simp_all add: sample_good)
  ultimately show ?thesis using that by blast
qed

lemma sample_buffered_reach:
  assumes "buf_step sample_env ev (buf_start sample_buffered) s1"
  shows "buf_reach sample_env (buf_start sample_buffered) [ev] s1"
  using buf_reach.step [OF buf_reach.start assms] by simp

theorem buffered_cache_refines_witness:
  "\<exists>s1 s2 r. buf_reach sample_env (buf_start sample_buffered) [BInsert ''k'' ''v''] s1 \<and>
    buf_step sample_env (BLookup ''k'' r) s1 s2 \<and>
    flash_promise (BLookup ''k'' r) (fb_look sample_env s1) (fb_look sample_env s2)"
proof -
  obtain s1 fc2 where 1: "buf_step sample_env (BInsert ''k'' ''v'') (buf_start sample_buffered) s1"
    "fc_Lookup True sample_env ''k'' (bs_fc s1) = Inr (Some ''v'', fc2)" by (rule sample_buffered_run)
  note r = sample_buffered_reach [OF 1(1)] and l = buf_step.lookup [OF 1(2)]
  have "flash_promise (BLookup ''k'' (Some ''v'')) (fb_look sample_env s1) (fb_look sample_env (s1\<lparr>bs_fc := fc2\<rparr>))"
    using buffered_cache_refines [OF _ _ _ sample_buffered_Open r l] by simp
  then show ?thesis using r l by blast
qed

lemma buffered_answers_true_example:
  "\<exists>s1 fc2 v. buf_reach sample_env (buf_start sample_buffered) [BInsert ''k'' ''v''] s1 \<and>
    fc_Lookup True sample_env ''k'' (bs_fc s1) = Inr (Some v, fc2) \<and> (v = ''v'' \<or> v = [])"
proof -
  obtain s1 fc2 where 1: "buf_step sample_env (BInsert ''k'' ''v'') (buf_start sample_buffered) s1"
    "fc_Lookup True sample_env ''k'' (bs_fc s1) = Inr (Some ''v'', fc2)" by (rule sample_buffered_run)
  note r = sample_buffered_reach [OF 1(1)]
  have "''v'' \<in> offered ''k'' (rev [BInsert ''k'' ''v'']) \<or> ''v'' = [] \<and> offered ''k'' (rev [BInsert ''k'' ''v'']) \<noteq> {}"
    using buffered_answers_true [OF _ _ _ sample_buffered_Open r 1(2)] by simp
  then show ?thesis using r 1(2) by blast
qed

theorem buffered_put_get_witness:
  "\<exists>fc1 f. fc_Insert True sample_env ''k'' ''v'' sample_buffered = Inr (0, fc1) \<and>
    map_of (fc_objs fc1) (fc_cur fc1) = Some f \<and>
    (eof f \<or> (\<exists>fc2. fc_Lookup True sample_env ''k'' fc1 = Inr (Some ''v'', fc2)))"
proof -
  have "bs_fc (buf_start sample_buffered) = sample_buffered" by (simp add: buf_start_def)
  moreover have "fc_room sample_buffered 1" "\<not> fcache_mutex sample_buffered"
    "map_of (fc_objs sample_buffered) (fc_cur sample_buffered) \<noteq> None"
    "meta_Lookup ''k'' (fc_meta sample_buffered) = None"
    by (simp_all add: fc_room_def sample_buffered_def opened_cache_def meta_Lookup_def)
  ultimately show ?thesis
    using buffered_put_get [OF _ _ _ sample_buffered_Open buf_reach.start sample_good] by simp
qed

end
