(* ===== verification/Tiered.thy ===== *)
theory Tiered
  imports Session Buffered
begin

text \<open>
  The two levels together when the flash cache writes through buffers: the steps of the store
  (\<open>store_step\<close>) on the flash cache of \<open>Buffered\<close>, with the writer threads of its files in between.
\<close>

section \<open>States and steps\<close>

definition wb_mode :: "kvServer \<Rightarrow> bool" where
  "wb_mode sv \<longleftrightarrow> cache_mode sv = MODE_MEM_LRU \<and> wbmode sv"

text \<open>\<open>ts_pc\<close> and \<open>ts_log\<close> are those of \<open>buf_sys\<close>.\<close>

record tier_sys =
  ts_db :: kvDb
  ts_pc :: "nat \<Rightarrow> writer_pc"
  ts_log :: "u32 \<Rightarrow> byte list"

definition ts_buf :: "tier_sys \<Rightarrow> buf_sys" where
  "ts_buf s = \<lparr>bs_fc = flashCache (ts_db s), bs_pc = ts_pc s, bs_log = ts_log s\<rparr>"

text \<open>
  The event is \<open>None\<close> for a step of a writer thread. A round of the tiering thread appends the
  record of the entry at the head of the queue to the file that is then the current one.
\<close>

inductive tier_step :: "kvServer \<Rightarrow> env \<Rightarrow> store_event option \<Rightarrow> tier_sys \<Rightarrow> tier_sys \<Rightarrow> bool" for sv e where
  client: "store_step sv e ev (ts_db s) db \<Longrightarrow> ev \<noteq> EvFlush \<Longrightarrow> tier_step sv e (Some ev) s (s\<lparr>ts_db := db\<rparr>)"
| flush: "fc_room (flashCache (ts_db s)) 1 \<Longrightarrow> bworker_flush sv e (ts_db s) = Inr db \<Longrightarrow>
    memQueue (ts_db s) = p # q \<Longrightarrow> map_of (db_ents (ts_db s)) p = Some en \<Longrightarrow>
    map_of (fc_objs (flashCache db)) (fc_cur (flashCache db)) = Some f \<Longrightarrow>
    tier_step sv e (Some EvFlush) s (s\<lparr>ts_db := db, ts_log := (ts_log s)(cf_id f := ts_log s (cf_id f) @
      record_bytes (mk_record (env_crc e) (until_nul (he_key en)) (val_of (he_val en))))\<rparr>)"
| thread: "thread_move e p (ts_buf s) b \<Longrightarrow>
    tier_step sv e None s \<lparr>ts_db = (ts_db s)\<lparr>flashCache := bs_fc b\<rparr>, ts_pc = bs_pc b, ts_log = bs_log b\<rparr>"

inductive tier_reach :: "kvServer \<Rightarrow> env \<Rightarrow> tier_sys \<Rightarrow> store_event option list \<Rightarrow> tier_sys \<Rightarrow> bool" for sv e s0 where
  start: "tier_reach sv e s0 [] s0"
| step: "tier_reach sv e s0 evs s \<Longrightarrow> tier_step sv e ev s s' \<Longrightarrow> tier_reach sv e s0 (evs @ [ev]) s'"

section \<open>The invariant\<close>

definition tier_ok :: "env \<Rightarrow> tier_sys \<Rightarrow> bool" where
  "tier_ok e s \<longleftrightarrow> mem_ok (ts_db s) \<and> queue_ok (ts_db s) \<and> flash_live (ts_db s) \<and> bs_ok e (ts_buf s)"

lemma tier_okD:
  assumes "tier_ok e s"
  shows "mem_ok (ts_db s)" "queue_ok (ts_db s)" "flash_live (ts_db s)" "bs_ok e (ts_buf s)"
    "bs_fc (ts_buf s) = flashCache (ts_db s)"
  using assms by (simp_all add: tier_ok_def ts_buf_def)

text \<open>
  A value that was set under the key; or the empty value, when the key was set and an empty answer
  to a \<open>get\<close> has put it into memory.
\<close>

definition was_set :: "env \<Rightarrow> store_event option list \<Rightarrow> byte list \<Rightarrow> byte list \<Rightarrow> bool" where
  "was_set e evs k v \<longleftrightarrow> Some (EvSet k v) \<in> set evs \<or>
     v = [] \<and> (\<exists>w. Some (EvSet k w) \<in> set evs) \<and> Some (EvGet k (bulk 0 (until_nul (env_tail e)))) \<in> set evs"

lemma was_set_more [simp]: "was_set e evs k v \<Longrightarrow> was_set e (evs @ evs') k v"
  by (auto simp: was_set_def)

lemma was_set_new [simp]: "was_set e (evs @ [Some (EvSet k v)]) k v"
  by (auto simp: was_set_def)

lemma was_setD: "was_set e evs k v \<Longrightarrow> \<exists>w. Some (EvSet k w) \<in> set evs \<and> (v = [] \<or> v = w)"
  by (auto simp: was_set_def)

text \<open>Every value that is in memory or that the index promises is one of these.\<close>

definition tier_vals :: "env \<Rightarrow> store_event option list \<Rightarrow> tier_sys \<Rightarrow> bool" where
  "tier_vals e evs s \<longleftrightarrow> (\<forall>k v. mem_look (ts_db s) k = Some v \<or> fb_look e (ts_buf s) k = Some v \<longrightarrow>
     was_set e evs k v)"

lemma tier_vals_more: "tier_vals e evs s \<Longrightarrow> tier_vals e (evs @ evs') s"
  by (simp add: tier_vals_def)

lemma fb_look_good:
  assumes ok: "bs_ok e s" and v: "fb_look e s k = Some v"
  shows "good_entry k v" "good_entry k []"
proof -
  from v fb_look_None [OF ok, of k] obtain lba where lba: "map_of (block_index (fc_meta (bs_fc s))) k = Some lba" by auto
  from buf_file_of [OF ok this] v have "stored e (bs_log s (lba_cache_id lba)) lba k v" by auto
  then show "good_entry k v" "good_entry k []" by (auto simp: stored_def good_entry_def rec_len_def no_nul_def)
qed

lemma mem_look_flash [simp]: "mem_look (db\<lparr>flashCache := fc\<rparr>) = mem_look db"
  by (rule mem_look_cong) simp_all

lemma memory_ok_flash [simp]:
  "mem_ok (db\<lparr>flashCache := fc\<rparr>) = mem_ok db" "queue_ok (db\<lparr>flashCache := fc\<rparr>) = queue_ok db"
  by (simp_all add: mem_ok_def queue_ok_def)

text \<open>What an answer may be.\<close>

definition true_answer :: "env \<Rightarrow> store_event option list \<Rightarrow> byte list \<Rightarrow> byte list \<Rightarrow> bool" where
  "true_answer e evs k out \<longleftrightarrow> out = not_found \<or>
     (\<exists>v w. Some (EvSet k w) \<in> set evs \<and> (v = [] \<or> v = w) \<and>
        (out = bulk (length v) v \<or> out = bulk (length v) (v @ until_nul (env_tail e))))"

section \<open>The commands\<close>

lemma wb_modeD: "wb_mode sv \<Longrightarrow> cache_mode sv = MODE_MEM_LRU" "wb_mode sv \<Longrightarrow> wbmode sv = True"
  by (simp_all add: wb_mode_def)

text \<open>A \<open>get\<close> that misses memory looks into flash.\<close>

lemma getCommand_absent:
  assumes mode: "wb_mode sv" and mem: "mem_ok db" "flash_live db" and key: "holds key k" and miss: "mem_look db k = None"
    and run: "getCommand sv e key (c, db) = Inr (c', db')"
  obtains r fc where "fc_Lookup True e k (flashCache db) = Inr (r, fc)"
    "r = None \<Longrightarrow> db' = db\<lparr>flashCache := fc\<rparr> \<and> reply not_found c = Inr c'"
proof -
  note m = wb_modeD [OF mode]
  have kk: "until_nul (msg_buf (ptr key)) = k" using key by (simp add: holds_def)
  have "\<exists>r fc. fc_Lookup True e k (flashCache db) = Inr (r, fc) \<and>
      (r = None \<longrightarrow> db' = db\<lparr>flashCache := fc\<rparr> \<and> reply not_found c = Inr c')"
  proof (cases "fc_Lookup True e k (flashCache db)")
    case (Inl err)
    then show ?thesis
      using run m mem kk mem_find_absent [OF m(1) mem(1) key miss]
      by (simp add: getCommand_def flashCacheLookup_def MODE_MEM_LRU_def MODE_ONLY_FLASH_def)
  next
    case (Inr x)
    then show ?thesis
      using run m mem kk mem_find_absent [OF m(1) mem(1) key miss]
      by (cases x, cases "fst x") (auto simp: getCommand_def flashCacheLookup_def empty_reply_def not_found_def
          bnd_eq_Inr MODE_MEM_LRU_def MODE_ONLY_FLASH_def)
  qed
  then show ?thesis using that by blast
qed

text \<open>The three ways of a \<open>get\<close> that is answered.\<close>

lemma tier_get_cases:
  assumes mode: "wb_mode sv" and ok: "tier_ok e s" and c: "client_ok c" and key: "holds key k"
    and run: "getCommand sv e key (c, ts_db s) = Inr (c', db')" and sent: "tcpSend c' = Inr out"
  obtains (memory) v where "mem_look (ts_db s) k = Some v" "out = bulk (length v) v" "mem_ok db'" "queue_ok db'"
      "mem_look db' = mem_look (ts_db s)" "flashCache db' = flashCache (ts_db s)" "flash_live db' = flash_live (ts_db s)"
  | (miss) fc where "fc_Lookup True e k (flashCache (ts_db s)) = Inr (None, fc)"
      "db' = (ts_db s)\<lparr>flashCache := fc\<rparr>" "out = not_found"
  | (flash) v w fc where "fc_Lookup True e k (flashCache (ts_db s)) = Inr (Some v, fc)"
      "fb_look e (ts_buf s) k = Some w" "v = [] \<or> v = w" "mem_ok db'" "queue_ok db'" "flash_live db'"
      "mem_look db' = (mem_look (ts_db s))(k \<mapsto> v)" "flashCache db' = fc_DeleteMetaData k fc"
      "out = bulk (length v) (v @ until_nul (env_tail e))"
proof -
  note O = tier_okD [OF ok] and m = wb_modeD [OF mode]
  show ?thesis
  proof (cases "mem_look (ts_db s) k")
    case (Some v)
    have "\<not> lru_limbo k (memLRU (ts_db s))"
      using limbo_dangling(1) [OF m(1) O(1) key] run by fastforce
    from getCommand_memory [OF m(1) O(1,2) key Some this, of e] run obtain
      "reply (bulk (length v) v) c = Inr c'" "mem_ok db'" "queue_ok db'" "mem_look db' = mem_look (ts_db s)"
      "flashCache db' = flashCache (ts_db s)" "flash_live db' = flash_live (ts_db s)" by (auto simp: bnd_eq_Inr)
    moreover have "out = bulk (length v) v" by (rule reply_out [OF c \<open>reply _ c = _\<close> sent])
    ultimately show ?thesis using memory Some by blast
  next
    case None
    from getCommand_absent [OF mode O(1,3) key None run] obtain r fc where
      L: "fc_Lookup True e k (flashCache (ts_db s)) = Inr (r, fc)" and
      N: "r = None \<Longrightarrow> db' = (ts_db s)\<lparr>flashCache := fc\<rparr> \<and> reply not_found c = Inr c'" by blast
    note B = buf_lookup [OF O(4) L [folded O(5)]]
    show ?thesis
    proof (cases r)
      case None
      then have "db' = (ts_db s)\<lparr>flashCache := fc\<rparr>" "out = not_found"
        using N reply_out [OF c _ sent] by blast+
      then show ?thesis using miss L None by blast
    next
      case (Some v)
      from B(3) Some obtain w where w: "fb_look e (ts_buf s) k = Some w" by auto
      have vw: "v = [] \<or> v = w" using B(4) Some w by auto
      have good: "good_entry k v" using vw fb_look_good [OF O(4) w] by auto
      have "env_ok e" using bs_okD(1) [OF O(4)] .
      from getCommand_from_flash [OF m(1) O(1-3) this key \<open>mem_look _ _ = None\<close> good, of fc] L Some m(2) run obtain
        db': "reply (bulk (length v) (v @ until_nul (env_tail e))) c = Inr c'" "mem_ok db'" "queue_ok db'" "flash_live db'"
        "mem_look db' = (mem_look (ts_db s))(k \<mapsto> v)" "flashCache db' = fc_DeleteMetaData k fc"
        by (auto simp: bnd_eq_Inr)
      have "out = bulk (length v) (v @ until_nul (env_tail e))" by (rule reply_out [OF c db'(1) sent])
      then show ?thesis using flash [OF L [unfolded Some] w vw db'(2-6)] by blast
    qed
  qed
qed

text \<open>What a \<open>get\<close> does to the flash cache: a lookup, and a deletion when it answers.\<close>

lemma buf_look_delete:
  assumes ok: "bs_ok e b" and L: "fc_Lookup True e k (bs_fc b) = Inr (r, fc)"
  defines "b' \<equiv> b\<lparr>bs_fc := fc_DeleteMetaData k fc\<rparr>"
  shows "bs_ok e b'" "fb_look e b' = (fb_look e b)(k := None)"
  using buf_delete [OF buf_lookup(1) [OF ok L], of k] buf_lookup(2) [OF ok L] unfolding b'_def by simp_all

lemma tier_get:
  assumes mode: "wb_mode sv" and ok: "tier_ok e s" and vals: "tier_vals e evs s"
    and c: "client_ok c" and key: "holds key k"
    and run: "getCommand sv e key (c, ts_db s) = Inr (c', db')" and sent: "tcpSend c' = Inr out"
  shows "tier_ok e (s\<lparr>ts_db := db'\<rparr>) \<and> tier_vals e (evs @ [Some (EvGet k out)]) (s\<lparr>ts_db := db'\<rparr>) \<and>
    true_answer e evs k out"
proof -
  note O = tier_okD [OF ok]
  show ?thesis
  proof (rule tier_get_cases [OF mode ok c key run sent], goal_cases)
    case (1 v)
    then have "was_set e evs k v" using vals by (simp add: tier_vals_def)
    from was_setD [OF this] have "true_answer e evs k out" using 1(2) unfolding true_answer_def by blast
    moreover have "tier_vals e evs (s\<lparr>ts_db := db'\<rparr>)" using 1 vals by (simp add: tier_vals_def ts_buf_def)
    ultimately show ?thesis using 1 ok tier_vals_more by (simp add: tier_ok_def ts_buf_def)
  next
    case (2 fc)
    note B = buf_lookup [OF O(4) 2(1) [folded O(5)]]
    have "ts_buf (s\<lparr>ts_db := db'\<rparr>) = (ts_buf s)\<lparr>bs_fc := fc\<rparr>" by (simp add: 2(2) ts_buf_def)
    then show ?thesis
      using O(1-3) B(1,2) vals 2(2,3) by (simp add: tier_ok_def tier_vals_def true_answer_def)
  next
    case (3 v w fc)
    have "ts_buf (s\<lparr>ts_db := db'\<rparr>) = (ts_buf s)\<lparr>bs_fc := fc_DeleteMetaData k fc\<rparr>" by (simp add: 3(8) ts_buf_def)
    with buf_look_delete [OF O(4) 3(1) [folded O(5)]] have "bs_ok e (ts_buf (s\<lparr>ts_db := db'\<rparr>))"
      "fb_look e (ts_buf (s\<lparr>ts_db := db'\<rparr>)) = (fb_look e (ts_buf s))(k := None)" by simp_all
    moreover obtain u where u: "Some (EvSet k u) \<in> set evs" "w = [] \<or> w = u" "was_set e evs k w"
      using was_setD 3(2) vals unfolding tier_vals_def by blast
    moreover have "was_set e (evs @ [Some (EvGet k out)]) k v"
      using 3(3,9) u by (auto simp: was_set_def)
    moreover have "true_answer e evs k out" using 3(3,9) u(1,2) unfolding true_answer_def by auto
    ultimately show ?thesis using 3(4-7) vals by (simp add: tier_ok_def tier_vals_def)
  qed
qed

section \<open>Every step\<close>

text \<open>A round of the tiering thread that ends has inserted the entry, into a current file that is there.\<close>

lemma bworker_flush_inserts:
  assumes "bworker_flush sv e db = Inr db'" "memQueue db = p # q" "map_of (db_ents db) p = Some en"
  obtains r fc where "fc_Insert (wbmode sv) e (until_nul (he_key en)) (val_of (he_val en)) (flashCache db) = Inr (r, fc)"
  using assms by (auto simp: bworker_flush_def bnd_eq_Inr QueueDequeue_def db_ent_def flashCacheInsert_def val_of_def
      Let_def split: if_split_asm option.splits)

lemma fc_Insert_current:
  assumes "fc_Insert wbm e k v fc = Inr (r, fc')"
  obtains f where "\<not> fcache_mutex fc" "map_of (fc_objs fc) (fc_cur fc) = Some f"
  using assms by (auto simp: fc_Insert_def fc_lock_def numeral_2_eq_2 fc_obj_def bnd_eq_Inr split: option.splits if_splits)

lemma tier_flush_insert:
  assumes mode: "wb_mode sv" and ok: "tier_ok e s" and room: "fc_room (flashCache (ts_db s)) 1"
    and run: "bworker_flush sv e (ts_db s) = Inr db" and q: "memQueue (ts_db s) = p # q"
    and en: "map_of (db_ents (ts_db s)) p = Some en"
  obtains k v fc where "until_nul (he_key en) = k" "val_of (he_val en) = v" "good_entry k v"
    "mem_look (ts_db s) k = Some v" "fc_Insert True e k v (flashCache (ts_db s)) = Inr (0, fc)" "flashCache db = fc"
    "mem_ok db" "queue_ok db" "flash_live db" "mem_look db = (mem_look (ts_db s))(k := None)"
proof -
  note O = tier_okD [OF ok] and m = wb_modeD [OF mode]
  from bworker_flush_memory [OF m(1) O(1-3) q, of e] obtain k v where k: "lru_value (memLRU (ts_db s)) k = Some p"
    "mem_look (ts_db s) k = Some v" "good_entry k v" and F: "\<And>fc. fc_Insert (wbmode sv) e k v (flashCache (ts_db s)) = Inr (0, fc) \<Longrightarrow>
      \<exists>db'. bworker_flush sv e (ts_db s) = Inr db' \<and> mem_ok db' \<and> queue_ok db' \<and> flash_live db' \<and>
        flashCache db' = fc \<and> memQueue db' = q \<and> mem_look db' = (mem_look (ts_db s))(k := None) \<and>
        lru_order (memLRU db') = lru_order (memLRU (ts_db s))" by blast
  from mem_okD(3) [OF O(1) k(1)] en k have kv: "until_nul (he_key en) = k" "val_of (he_val en) = v"
    by (auto simp: ent_ok_def mem_look_def good_entry_def)
  from bworker_flush_inserts [OF run q en] obtain r fc0 where
    "fc_Insert True e k v (flashCache (ts_db s)) = Inr (r, fc0)" using kv m(2) by auto
  then obtain f0 where f0: "\<not> fcache_mutex (bs_fc (ts_buf s))" "map_of (fc_objs (bs_fc (ts_buf s))) (fc_cur (bs_fc (ts_buf s))) = Some f0"
    unfolding O(5) by (rule fc_Insert_current)
  from buf_insert [OF O(4) k(3) _ f0, unfolded O(5), OF room] obtain fc where
    I: "fc_Insert True e k v (flashCache (ts_db s)) = Inr (0, fc)" by auto
  from F [of fc] I(1) m(2) run that [OF kv k(3,2) I] show ?thesis by auto
qed

lemma tier_flush:
  assumes mode: "wb_mode sv" and ok: "tier_ok e s" and room: "fc_room (flashCache (ts_db s)) 1"
    and run: "bworker_flush sv e (ts_db s) = Inr db" and q: "memQueue (ts_db s) = p # q"
    and en: "map_of (db_ents (ts_db s)) p = Some en"
    and f: "map_of (fc_objs (flashCache db)) (fc_cur (flashCache db)) = Some f"
  defines "s' \<equiv> s\<lparr>ts_db := db, ts_log := (ts_log s)(cf_id f := ts_log s (cf_id f) @
      record_bytes (mk_record (env_crc e) (until_nul (he_key en)) (val_of (he_val en))))\<rparr>"
  shows "tier_ok e s' \<and> (\<exists>k v. mem_look (ts_db s) k = Some v \<and> mem_look db = (mem_look (ts_db s))(k := None) \<and>
    fb_look e (ts_buf s') = (if fb_look e (ts_buf s) k = None then (fb_look e (ts_buf s))(k \<mapsto> v) else fb_look e (ts_buf s)))"
proof -
  note O = tier_okD [OF ok]
  from tier_flush_insert [OF mode ok room run q en] obtain k v fc where
    kv: "until_nul (he_key en) = k" "val_of (he_val en) = v" "good_entry k v" "mem_look (ts_db s) k = Some v"
    and I: "fc_Insert True e k v (flashCache (ts_db s)) = Inr (0, fc)"
    and D: "flashCache db = fc" "mem_ok db" "queue_ok db" "flash_live db"
      "mem_look db = (mem_look (ts_db s))(k := None)" .
  from I obtain f0 where f0: "\<not> fcache_mutex (bs_fc (ts_buf s))" "map_of (fc_objs (bs_fc (ts_buf s))) (fc_cur (bs_fc (ts_buf s))) = Some f0"
    unfolding O(5) by (rule fc_Insert_current)
  have b: "ts_buf s' = (ts_buf s)\<lparr>bs_fc := fc, bs_log := (bs_log (ts_buf s))(cf_id f :=
      bs_log (ts_buf s) (cf_id f) @ record_bytes (mk_record (env_crc e) k v))\<rparr>"
    by (simp add: s'_def ts_buf_def D(1) kv)
  from buf_insert [OF O(4) kv(3) _ f0, unfolded O(5), OF room] I f D(1) have "bs_ok e (ts_buf s')"
    "fb_look e (ts_buf s') =
      (if fb_look e (ts_buf s) k = None then (fb_look e (ts_buf s))(k \<mapsto> v) else fb_look e (ts_buf s))"
    unfolding b by (auto simp: Let_def)
  moreover have "ts_db s' = db" by (simp add: s'_def)
  ultimately show ?thesis using D kv(4) unfolding tier_ok_def by blast
qed

lemma tier_client:
  assumes mode: "wb_mode sv" and ok: "tier_ok e s" and vals: "tier_vals e evs s"
    and step: "store_step sv e ev (ts_db s) db" "ev \<noteq> EvFlush"
  shows "tier_ok e (s\<lparr>ts_db := db\<rparr>) \<and> tier_vals e (evs @ [Some ev]) (s\<lparr>ts_db := db\<rparr>) \<and>
    (\<forall>k out. ev = EvGet k out \<longrightarrow> true_answer e evs k out)"
proof -
  note O = tier_okD [OF ok] and m = wb_modeD [OF mode]
  from step(1) show ?thesis
  proof cases
    case (check busy)
    from memUsedCheck_memory [OF m(1) O(1,2) check(2)] check(1) O(3,4) vals show ?thesis
      by (auto simp: tier_ok_def tier_vals_def ts_buf_def)
  next
    case (set c key k v c')
    have ob: "holds (arg_object v) v" "kv_where (arg_object v) = KV_LOC_MEM"
      using set(4) by (simp_all add: good_entry_def holds_arg)
    have "\<not> lru_limbo k (memLRU (ts_db s))"
      using limbo_dangling(2) [OF m(1) O(1) set(3)] set(5) by fastforce
    from cacheAdd_lru [OF m(1) O(1,2) set(3) ob(1) set(4) ob(2) this] set(5) m(1) have
      "mem_ok db" "queue_ok db" "flashCache db = flashCache (ts_db s)" "flash_live db = flash_live (ts_db s)"
      "mem_look db = (mem_look (ts_db s))(k \<mapsto> v)"
      by (auto simp: setCommand_def bnd_eq_Inr MODE_MEM_LRU_def MODE_ONLY_FLASH_def)
    then show ?thesis using O(3,4) vals set(1) by (auto simp: tier_ok_def tier_vals_def ts_buf_def split: if_splits)
  next
    case (get c key k c' out)
    from tier_get [OF mode ok vals get(2-5)] get(1) show ?thesis by simp
  next
    case (flush n)
    then show ?thesis using step(2) by simp
  qed
qed

lemma tier_step_ok:
  assumes mode: "wb_mode sv" and step: "tier_step sv e ev s s'"
    and ok: "tier_ok e s" and vals: "tier_vals e evs s"
  shows "tier_ok e s' \<and> tier_vals e (evs @ [ev]) s' \<and> (\<forall>k out. ev = Some (EvGet k out) \<longrightarrow> true_answer e evs k out)"
  using step
proof cases
  case (client ev db)
  from tier_client [OF mode ok vals client(3,4)] client(1,2) show ?thesis by auto
next
  case (flush db p q en f)
  from tier_flush [OF mode ok flush(3-7), folded flush(2)] obtain k v where F: "tier_ok e s'"
    "mem_look (ts_db s) k = Some v" "mem_look db = (mem_look (ts_db s))(k := None)"
    "fb_look e (ts_buf s') = (if fb_look e (ts_buf s) k = None then (fb_look e (ts_buf s))(k \<mapsto> v) else fb_look e (ts_buf s))"
    by blast
  have db: "ts_db s' = db" by (simp add: flush(2))
  have "tier_vals e (evs @ [ev]) s'"
    unfolding tier_vals_def
  proof (intro allI impI)
    fix j w assume "mem_look (ts_db s') j = Some w \<or> fb_look e (ts_buf s') j = Some w"
    then have "mem_look (ts_db s) j = Some w \<or> fb_look e (ts_buf s) j = Some w"
      using F(2) unfolding db F(3,4) by (auto split: if_splits)
    then show "was_set e (evs @ [ev]) j w" using vals by (auto simp: tier_vals_def)
  qed
  then show ?thesis using F(1) flush(1) by simp
next
  case (thread p b)
  have bs: "bs_ok e b" "fb_look e b \<subseteq>\<^sub>m fb_look e (ts_buf s)"
    using thread_move_ok [OF thread(3)] thread_move_promise [OF thread(3)] tier_okD(4) [OF ok] by blast+
  have b: "ts_buf s' = b" by (simp add: thread(2) ts_buf_def)
  have "tier_ok e s'" using tier_okD [OF ok] bs(1) by (simp add: tier_ok_def b) (simp add: thread(2))
  moreover have "tier_vals e (evs @ [ev]) s'"
    unfolding tier_vals_def b
  proof (intro allI impI)
    fix k v assume "mem_look (ts_db s') k = Some v \<or> fb_look e b k = Some v"
    moreover have "fb_look e (ts_buf s) k = Some v" if "fb_look e b k = Some v"
      using bs(2) that by (auto simp: map_le_def dom_def)
    ultimately have "mem_look (ts_db s) k = Some v \<or> fb_look e (ts_buf s) k = Some v" by (auto simp: thread(2))
    then show "was_set e (evs @ [ev]) k v" using vals by (auto simp: tier_vals_def)
  qed
  ultimately show ?thesis using thread(1) by simp
qed

lemma tier_reach_ok:
  assumes "wb_mode sv" "tier_ok e s0" "mem_look (ts_db s0) = Map.empty" "fb_look e (ts_buf s0) = Map.empty"
  shows "tier_reach sv e s0 evs s \<Longrightarrow> tier_ok e s \<and> tier_vals e evs s"
proof (induction rule: tier_reach.induct)
  case start
  then show ?case using assms by (simp add: tier_vals_def)
next
  case (step evs s ev s')
  then show ?case using tier_step_ok [OF assms(1)] by blast
qed

section \<open>From the start of the server\<close>

definition tier_start :: "kvDb \<Rightarrow> tier_sys" where
  "tier_start db = \<lparr>ts_db = db, ts_pc = \<lambda>_. AtWait, ts_log = \<lambda>_. []\<rparr>"

definition wb_conf :: "kvServer \<Rightarrow> env \<Rightarrow> bool" where
  "wb_conf sv e \<longleftrightarrow> wb_mode sv \<and> env_ok e \<and> flashCache_dir sv \<noteq> None \<and>
     unat (flashCache_file_size sv) \<le> 2 ^ 31 \<and> 0 < (ucast (flashCache_writebuffer_size sv) :: u32)"

lemma tier_start_ok:
  assumes conf: "wb_conf sv e" and start: "initServer sv e gsize gfile [] = Inr db"
  shows "tier_ok e (tier_start db)" "mem_look (ts_db (tier_start db)) = Map.empty"
    "fb_look e (ts_buf (tier_start db)) = Map.empty"
proof -
  have c: "cache_mode sv = MODE_MEM_LRU" "env_ok e" "0 < (ucast (flashCache_writebuffer_size sv) :: u32)"
    "unat (flashCache_file_size sv) \<le> 2 ^ 31" using conf by (simp_all add: wb_conf_def wb_mode_def)
  from buf_open [OF c(2-4), of "flashCache_size sv" gsize gfile] obtain fc where
    fc: "fc_Open e (fc_construct (flashCache_size sv) (flashCache_file_size sv) (ucast (flashCache_writebuffer_size sv))
      gsize gfile []) = Inr (0, fc)" "bs_ok e (buf_start fc)" "fb_look e (buf_start fc) = Map.empty" by blast
  have db: "db = \<lparr>memCache = empty_table, memLRU = lru_new, memList = [], memQueue = [], db_ents = [], db_next = 0,
      flashCache = fc, flash_live = True, db_used = db_used db, sem_bworker = 0\<rparr>"
    using start fc(1) c(1) by (auto simp: initServer_def flashCacheCreate_def Let_def bnd_eq_Inr MODE_MEM_LRU_def
        MODE_MEM_FIFO_def LRUCacheCreate_def ListCreate_def QueueCreate_def split: if_splits)
  then have f: "flashCache db = fc" by (metis kvDb.select_convs(7))
  have buf: "ts_buf (tier_start db) = buf_start fc" by (simp add: ts_buf_def tier_start_def buf_start_def f)
  have "mem_ok db" "queue_ok db" "flash_live db" "mem_look db = Map.empty"
    by (subst db; auto simp: mem_ok_def queue_ok_def mem_look_def lru_inv_new)+
  then show "tier_ok e (tier_start db)" "mem_look (ts_db (tier_start db)) = Map.empty"
    "fb_look e (ts_buf (tier_start db)) = Map.empty"
    using fc(2,3) buf by (simp_all add: tier_ok_def tier_start_def)
qed

section \<open>Properties\<close>

text \<open>
  C4: The server with write buffers never answers with a wrong value. It starts on an empty
  directory; clients set and get keys, the memory is checked, entries are moved to flash and back,
  the writer threads of the files write, and evict files when the cache is over its limit, all in
  any order. A \<open>get\<close> is then answered by a miss, or with a value that was set under this very key
  before, or, for a key that was set, with the empty value, where the record could not be read.
\<close>

theorem tiered_answers_true:
  assumes conf: "wb_conf sv e" and start: "initServer sv e gsize gfile [] = Inr db"
    and run: "tier_reach sv e (tier_start db) evs s" and get: "tier_step sv e (Some (EvGet k out)) s s'"
  shows "out = not_found \<or> (\<exists>v w. Some (EvSet k w) \<in> set evs \<and> (v = [] \<or> v = w) \<and>
    (out = bulk (length v) v \<or> out = bulk (length v) (v @ until_nul (env_tail e))))"
proof -
  have mode: "wb_mode sv" using conf by (simp add: wb_conf_def)
  from tier_reach_ok [OF mode tier_start_ok [OF conf start] run] have "tier_ok e s" "tier_vals e evs s" by blast+
  from tier_step_ok [OF mode get this] show ?thesis unfolding true_answer_def by blast
qed

text \<open>
  C10: A \<open>get\<close> of a key that the tiering thread has moved to a file that is still being filled, from
  the bytes of the request to those of the reply, whatever the writer threads have written so far.
  The key is not in memory, the mutex of the flash cache is free and the reply fits the buffer.
  The reply announces the length of the value and carries the value the index stands for, followed
  by the bytes up to the next zero byte in the heap behind it, for the copy taken from flash has no
  terminator. The value is one that was set under this key, or, only when a \<open>get\<close> of the key has
  been answered with the empty value before, that empty value. The entry moves back to memory and
  its key leaves the index of the flash cache.
\<close>

theorem tiered_get_flash:
  assumes conf: "wb_conf sv e" and start: "initServer sv e gsize gfile [] = Inr db"
    and run: "tier_reach sv e (tier_start db) evs s" and c: "client_ok c" and k: "key_ok k"
    and miss: "mem_look (ts_db s) k = None" and op: "in_open_file (ts_buf s) k"
    and free: "\<not> fcache_mutex (flashCache (ts_db s))"
    and v: "fb_look e (ts_buf s) k = Some v"
    and fits: "length (enc_request [''get'', k]) \<le> KV_IOBUF_LEN"
      "length (bulk (length v) (v @ until_nul (env_tail e))) < KV_IOBUF_LEN"
  shows "\<exists>c' db'. session_step sv e False (enc_request [''get'', k]) (c, ts_db s) =
      Inr (SessionSent (bulk (length v) (v @ until_nul (env_tail e))), c', db') \<and>
    (Some (EvSet k v) \<in> set evs \<or> v = [] \<and> (\<exists>w. Some (EvSet k w) \<in> set evs) \<and>
       Some (EvGet k (bulk 0 (until_nul (env_tail e)))) \<in> set evs) \<and> mem_look db' = (mem_look (ts_db s))(k \<mapsto> v) \<and>
    fb_look e (ts_buf (s\<lparr>ts_db := db'\<rparr>)) = (fb_look e (ts_buf s))(k := None)"
proof -
  have mode: "wb_mode sv" and e: "env_ok e" using conf by (simp_all add: wb_conf_def)
  note m = wb_modeD [OF mode]
  from tier_reach_ok [OF mode tier_start_ok [OF conf start] run] have ok: "tier_ok e s" and vals: "tier_vals e evs s" by blast+
  note O = tier_okD [OF ok]
  let ?db = "(ts_db s)\<lparr>db_used := parsed_used [''get'', k] (db_used (ts_db s))\<rparr>"
  from buf_lookup_open [OF O(4) _ op] free O(5) v obtain fc where
    L: "fc_Lookup True e k (flashCache (ts_db s)) = Inr (Some v, fc)" by auto
  note B = buf_lookup [OF O(4), unfolded O(5), OF L]
  have good: "good_entry k v" using fb_look_good(1) [OF O(4) v] .
  have db: "mem_ok ?db" "queue_ok ?db" "flash_live ?db" "mem_look ?db = mem_look (ts_db s)" "flashCache ?db = flashCache (ts_db s)"
    using O(1-3) by (simp_all add: mem_ok_def queue_ok_def mem_look_def fun_eq_iff)
  have key: "holds (arg_object k) k" using k by (simp add: key_ok_def holds_arg)
  have "mem_look ?db k = None" using miss by (simp add: db(4))
  from getCommand_from_flash [OF m(1) db(1-3) e key this good, of fc] L m(2) db(4,5) obtain db1 where
    1: "\<forall>c. getCommand sv e (arg_object k) (c, ?db) =
      bnd (reply (bulk (length v) (v @ until_nul (env_tail e))) c) (\<lambda>c. Inr (c, db1))"
    "mem_look db1 = (mem_look (ts_db s))(k \<mapsto> v)" "flashCache db1 = fc_DeleteMetaData k fc" by auto
  obtain c' um where 2: "session_step sv e False (enc_request [''get'', k]) (c, ts_db s) =
      Inr (SessionSent (bulk (length v) (v @ until_nul (env_tail e))), c', db1\<lparr>db_used := um\<rparr>)"
    using session_get [OF c k fits, of sv e "ts_db s" db1] 1(1) by blast
  let ?b = "(ts_buf s)\<lparr>bs_fc := fc\<rparr>"
  have "ts_buf (s\<lparr>ts_db := db1\<lparr>db_used := um\<rparr>\<rparr>) = ?b\<lparr>bs_fc := fc_DeleteMetaData k (bs_fc ?b)\<rparr>"
    by (simp add: 1(3) ts_buf_def)
  with buf_delete(2) [OF B(1), of k] B(2) have
    "fb_look e (ts_buf (s\<lparr>ts_db := db1\<lparr>db_used := um\<rparr>\<rparr>)) = (fb_look e (ts_buf s))(k := None)" by simp
  moreover have "was_set e evs k v" using vals v by (simp add: tier_vals_def)
  moreover have "mem_look (db1\<lparr>db_used := um\<rparr>) = (mem_look (ts_db s))(k \<mapsto> v)" by (simp add: 1(2))
  ultimately show ?thesis using 2 unfolding was_set_def by blast
qed

section \<open>A run\<close>

text \<open>A limit of 64 bytes, so that every check takes an entry out of memory.\<close>

definition sample_wb :: kvServer where
  "sample_wb = sample_sv\<lparr>flashcache_mode := MODE_FLASH_WRITEBUFFER, maxmemory := 64\<rparr>"

lemma sample_wb_conf: "wb_conf sample_wb sample_env" "wb_mode sample_wb" "cache_mode sample_wb = MODE_MEM_LRU"
  "wbmode sample_wb" "maxmemory sample_wb = 64"
proof -
  show m: "cache_mode sample_wb = MODE_MEM_LRU" "wbmode sample_wb" "maxmemory sample_wb = 64"
    by (simp_all add: sample_wb_def sample_sv_def wbmode_def)
  then show "wb_mode sample_wb" by (simp add: wb_mode_def)
  moreover have "env_ok sample_env" by (rule bs_okD(1) [OF sample_buffered_ok(1)])
  ultimately show "wb_conf sample_wb sample_env" by (simp add: wb_conf_def) (simp add: sample_wb_def sample_sv_def)
qed

lemma sample_wb_start: "initServer sample_wb sample_env 0 0 [] = Inr sample_db"
proof -
  have "initServer sample_wb sample_env 0 0 [] = initServer sample_sv sample_env 0 0 []"
    by (simp add: sample_wb_def initServer_def flashCacheCreate_def Let_def)
  then show ?thesis using sample_start by simp
qed

lemma sample_wb_set:
  obtains db where "tier_step sample_wb sample_env (Some (EvSet ''a'' ''one'')) (tier_start sample_db) ((tier_start sample_db)\<lparr>ts_db := db\<rparr>)"
    "mem_ok db" "queue_ok db" "mem_look db = [''a'' \<mapsto> ''one'']" "flashCache db = sample_flash" "flash_live db"
    "lru_order (memLRU db) = [''a'']" "db_used db = 99" "memQueue db = []"
proof -
  note start = tier_start_ok [OF sample_wb_conf(1) sample_wb_start]
  have ok: "mem_ok sample_db" "queue_ok sample_db" "flash_live sample_db" "mem_look sample_db = Map.empty"
    using tier_okD(1-3) [OF start(1)] start(2) by (simp_all add: tier_start_def)
  have ob: "holds (arg_object ''a'') ''a''" "holds (arg_object ''one'') ''one''" "kv_where (arg_object ''one'') = KV_LOC_MEM"
    by (simp_all add: holds_arg no_nul_def)
  have d: "lru_order (memLRU sample_db) = []" "flashCache sample_db = sample_flash" "db_used sample_db = 65" "\<not> lru_limbo ''a'' (memLRU sample_db)"
    by (simp_all add: sample_db_def lru_limbo_def)
  from cacheAdd_lru [OF sample_wb_conf(3) ok(1,2) ob(1,2) sample_requests(3) ob(3) d(4)] obtain db where db:
    "cacheAdd sample_wb (arg_object ''a'') (arg_object ''one'') sample_db = Inr db" "mem_ok db" "queue_ok db"
    "flashCache db = sample_flash" "flash_live db" "mem_look db = [''a'' \<mapsto> ''one'']" "lru_order (memLRU db) = [''a'']" "db_used db = 99"
    using ok(3,4) d(1-3) by (auto simp: charge_def sizeof_hashEntry_def)
  obtain c where "setCommand sample_wb sample_env (arg_object ''a'') (arg_object ''one'') (sample_client, sample_db) = Inr (c, db)"
    using reply_sent [of "''+OK'' @ [CR, LF]" sample_client] client_okD [OF sample_client_ok] db(1) sample_wb_conf(3)
    by (auto simp: setCommand_def MODE_MEM_LRU_def MODE_ONLY_FLASH_def)
  then have "store_step sample_wb sample_env (EvSet ''a'' ''one'') (ts_db (tier_start sample_db)) db"
    using sample_client_ok ob(1) sample_requests(3) by (auto simp: tier_start_def intro!: store_step.set)
  then have "tier_step sample_wb sample_env (Some (EvSet ''a'' ''one'')) (tier_start sample_db) ((tier_start sample_db)\<lparr>ts_db := db\<rparr>)"
    by (rule tier_step.client) simp
  moreover have "memQueue db = []"
  proof -
    have "j = ''a''" if "lru_value (memLRU db) j = Some p" for j p
      using mem_look_None [OF db(2), of j] that db(6) by (auto split: if_splits)
    then have "p \<notin> set (memQueue db)" for p using db(3,7) by (fastforce simp: queue_ok_def)
    then show ?thesis by (cases "memQueue db") auto
  qed
  ultimately show ?thesis using that db by blast
qed

theorem tiered_answers_true_witness:
  "\<exists>s s' out. tier_reach sample_wb sample_env (tier_start sample_db) [Some (EvSet ''a'' ''one'')] s \<and>
    tier_step sample_wb sample_env (Some (EvGet ''a'' out)) s s' \<and>
    (out = not_found \<or> (\<exists>v. (v = [] \<or> v = ''one'') \<and> (out = bulk (length v) v \<or>
      out = bulk (length v) (v @ until_nul (env_tail sample_env)))))"
proof -
  obtain db where db: "tier_step sample_wb sample_env (Some (EvSet ''a'' ''one'')) (tier_start sample_db) ((tier_start sample_db)\<lparr>ts_db := db\<rparr>)"
    "mem_ok db" "queue_ok db" "mem_look db = [''a'' \<mapsto> ''one'']" "lru_order (memLRU db) = [''a'']"
    by (rule sample_wb_set)
  let ?s = "(tier_start sample_db)\<lparr>ts_db := db\<rparr>"
  have r: "tier_reach sample_wb sample_env (tier_start sample_db) [Some (EvSet ''a'' ''one'')] ?s"
    using tier_reach.step [OF tier_reach.start db(1)] by simp
  have key: "holds (arg_object ''a'') ''a''" by (simp add: holds_arg no_nul_def)
  have "\<not> lru_limbo ''a'' (memLRU db)" by (simp add: lru_limbo_def db(5))
  from getCommand_memory [OF sample_wb_conf(3) db(2,3) key _ this, of "''one''" sample_env] db(4) obtain db' where
    "\<forall>c. getCommand sample_wb sample_env (arg_object ''a'') (c, db) = bnd (reply (bulk 3 ''one'') c) (\<lambda>c. Inr (c, db'))"
    by (auto simp: numeral_3_eq_3)
  moreover obtain c where "reply (bulk 3 ''one'') sample_client = Inr c" "tcpSend c = Inr (bulk 3 ''one'')"
    using reply_sent [of "bulk 3 ''one''" sample_client] client_okD [OF sample_client_ok] by (auto simp: bulk_def count_char(1))
  ultimately have "store_step sample_wb sample_env (EvGet ''a'' (bulk 3 ''one'')) (ts_db ?s) db'"
    using store_step.get [OF sample_client_ok key, of sample_wb sample_env db c db' "bulk 3 ''one''"] by simp
  then have g: "tier_step sample_wb sample_env (Some (EvGet ''a'' (bulk 3 ''one''))) ?s (?s\<lparr>ts_db := db'\<rparr>)"
    by (rule tier_step.client) simp
  from tiered_answers_true [OF sample_wb_conf(1) sample_wb_start r g] show ?thesis using r g by auto
qed

text \<open>The key is set, taken out of memory by a check and moved to flash.\<close>

lemma sample_wb_checked:
  obtains db p where "tier_reach sample_wb sample_env (tier_start sample_db)
      [Some (EvSet ''a'' ''one''), Some EvCheck] ((tier_start sample_db)\<lparr>ts_db := db\<rparr>)"
    "mem_ok db" "queue_ok db" "flashCache db = sample_flash" "flash_live db" "mem_look db = [''a'' \<mapsto> ''one'']"
    "memQueue db = [p]"
proof -
  let ?s0 = "tier_start sample_db"
  obtain db1 where 1: "tier_step sample_wb sample_env (Some (EvSet ''a'' ''one'')) ?s0 (?s0\<lparr>ts_db := db1\<rparr>)"
    "mem_ok db1" "queue_ok db1" "mem_look db1 = [''a'' \<mapsto> ''one'']" "flashCache db1 = sample_flash" "flash_live db1"
    "lru_order (memLRU db1) = [''a'']" "db_used db1 = 99" "memQueue db1 = []" by (rule sample_wb_set)
  have "lru_order (memLRU db1) \<noteq> []" by (simp add: 1(7))
  from evict_to_queue_lru [OF sample_wb_conf(3) 1(2,3) this] 1(4-7,9) obtain db2 p where 2:
    "evict_to_queue sample_wb db1 = Inr db2" "mem_ok db2" "queue_ok db2" "flashCache db2 = sample_flash" "flash_live db2"
    "mem_look db2 = [''a'' \<mapsto> ''one'']" "memQueue db2 = [p]" by auto
  have "mem_used db1 = 99" by (simp add: mem_used_def 1(8))
  then have over: "over_90 (mem_used db1) (maxmemory sample_wb)" by (simp add: over_90_exact sample_wb_conf(5))
  have "length (m_list (memLRU db1)) = 1" using arg_cong [OF 1(7), of length] by (simp add: lru_order_def)
  moreover have "m_map (memLRU db1) \<noteq> []"
    using mem_look_None [OF 1(2), of "''a''"] 1(4) by (auto simp: lru_value_def)
  ultimately have "0 < LRUCacheSize (memLRU db1)"
    by (simp add: LRUCacheSize_def lru_size_def lru_empty_def int_of_size_def)
  then obtain busy where "memUsedCheck sample_wb db1 = Inr (busy, db2)"
    using over pool_size_lru(1) [OF sample_wb_conf(3)] 2(1) by (simp add: memUsedCheck_def)
  then have s2: "tier_step sample_wb sample_env (Some EvCheck) (?s0\<lparr>ts_db := db1\<rparr>) (?s0\<lparr>ts_db := db2\<rparr>)"
    using tier_step.client [OF store_step.check, of sample_wb "?s0\<lparr>ts_db := db1\<rparr>" busy db2 sample_env] by simp
  show ?thesis
    using that [OF _ 2(2-7)] tier_reach.step [OF tier_reach.step [OF tier_reach.start 1(1)] s2] by simp
qed

text \<open>The insertion into the flash cache that the tiering thread makes.\<close>

lemma sample_flash_insert:
  obtains fc f where "fc_Insert True sample_env ''a'' ''one'' sample_flash = Inr (0, fc)" "\<not> fcache_mutex fc"
    "fc_dir fc = [(cf_name 0, [])]" "map_of (fc_objs fc) (fc_cur fc) = Some f" "let b = (buf_start sample_flash)\<lparr>bs_fc := fc,
        bs_log := (\<lambda>_. [])(cf_id f := record_bytes (mk_record (env_crc sample_env) ''a'' ''one''))\<rparr> in
      fb_look sample_env b = [''a'' \<mapsto> ''one''] \<and> in_open_file b ''a''"
proof -
  have fl: "sample_flash = opened_cache 0 10240 4096" by (simp add: sample_flash_def opened_cache_def)
  obtain fc f where I: "fc_Insert True sample_env ''a'' ''one'' sample_flash = Inr (0, fc)"
    "map_of (fc_objs fc) (fc_cur fc) = Some f" "\<not> eof f" "fc_dir fc = [(cf_name 0, [])]"
    unfolding fl by (rule opened_cache_Insert [of 4096 "''a''" "''one''" sample_env 0 10240])
      (simp_all add: rec_len_def sizeof_hdr_def)
  have room: "fc_room sample_flash 1" "\<not> fcache_mutex sample_flash" "map_of (fc_objs sample_flash) (fc_cur sample_flash) \<noteq> None"
    by (simp_all add: fc_room_def sample_flash_def)
  have fc: "bs_fc (buf_start sample_flash) = sample_flash" "bs_log (buf_start sample_flash) = (\<lambda>_. [])"
    by (simp_all add: buf_start_def)
  have bok: "bs_ok sample_env (buf_start sample_flash)" "fb_look sample_env (buf_start sample_flash) = Map.empty"
    using buf_open [of sample_env 4096 10240 0 0 0] opened_cache_Open [of sample_env 0 10240 4096] by (auto simp: fl)
  obtain f0 where "map_of (fc_objs (bs_fc (buf_start sample_flash))) (fc_cur (bs_fc (buf_start sample_flash))) = Some f0"
    using room(3) unfolding fc by blast
  from buf_insert [OF bok(1) sample_requests(3) _ _ this, unfolded fc, OF room(1,2)] I bok(2) show ?thesis
    by (intro that [OF I(1) _ I(4,2)]) (auto simp: Let_def)
qed

lemma sample_wb_moved:
  obtains s where "tier_reach sample_wb sample_env (tier_start sample_db)
      [Some (EvSet ''a'' ''one''), Some EvCheck, Some EvFlush] s"
    "mem_look (ts_db s) ''a'' = None" "in_open_file (ts_buf s) ''a''" "\<not> fcache_mutex (flashCache (ts_db s))"
    "fb_look sample_env (ts_buf s) ''a'' = Some ''one''" "fc_dir (flashCache (ts_db s)) = [(cf_name 0, [])]"
proof -
  let ?s0 = "tier_start sample_db"
  obtain db2 p where r2: "tier_reach sample_wb sample_env ?s0 [Some (EvSet ''a'' ''one''), Some EvCheck] (?s0\<lparr>ts_db := db2\<rparr>)"
    and 2: "mem_ok db2" "queue_ok db2" "flashCache db2 = sample_flash" "flash_live db2"
      "mem_look db2 = [''a'' \<mapsto> ''one'']" "memQueue db2 = [p]" by (rule sample_wb_checked)
  from bworker_flush_memory [OF sample_wb_conf(3) 2(1,2,4,6), of sample_env] obtain k v where
    kv: "lru_value (memLRU db2) k = Some p" "mem_look db2 k = Some v"
    and F: "\<And>fc. fc_Insert (wbmode sample_wb) sample_env k v (flashCache db2) = Inr (0, fc) \<Longrightarrow>
      \<exists>db'. bworker_flush sample_wb sample_env db2 = Inr db' \<and> mem_ok db' \<and> queue_ok db' \<and> flash_live db' \<and>
        flashCache db' = fc \<and> memQueue db' = [] \<and> mem_look db' = (mem_look db2)(k := None) \<and>
        lru_order (memLRU db') = lru_order (memLRU db2)" by blast
  have k: "k = ''a''" "v = ''one''" using kv(2) 2(5) by (auto split: if_splits)
  from mem_okD(3) [OF 2(1) kv(1)] kv obtain en where en: "map_of (db_ents db2) p = Some en"
    "until_nul (he_key en) = ''a''" "val_of (he_val en) = ''one''"
    unfolding k by (auto simp: ent_ok_def mem_look_def good_entry_def)
  obtain fc f where I: "fc_Insert True sample_env ''a'' ''one'' sample_flash = Inr (0, fc)" "\<not> fcache_mutex fc"
    "fc_dir fc = [(cf_name 0, [])]" "map_of (fc_objs fc) (fc_cur fc) = Some f" "let b = (buf_start sample_flash)\<lparr>bs_fc := fc,
        bs_log := (\<lambda>_. [])(cf_id f := record_bytes (mk_record (env_crc sample_env) ''a'' ''one''))\<rparr> in
      fb_look sample_env b = [''a'' \<mapsto> ''one''] \<and> in_open_file b ''a''" by (rule sample_flash_insert)
  from F [of fc] I(1) 2(3,5) sample_wb_conf(4) obtain db3 where 3: "bworker_flush sample_wb sample_env db2 = Inr db3"
    "flashCache db3 = fc" "mem_look db3 = Map.empty" unfolding k by auto
  define s3 where "s3 = ?s0\<lparr>ts_db := db3, ts_log := (ts_log ?s0)(cf_id f := ts_log ?s0 (cf_id f) @
      record_bytes (mk_record (env_crc sample_env) ''a'' ''one''))\<rparr>"
  have "fc_room sample_flash 1" by (simp add: fc_room_def sample_flash_def)
  then have "tier_step sample_wb sample_env (Some EvFlush) (?s0\<lparr>ts_db := db2\<rparr>) s3"
    using tier_step.flush [of "?s0\<lparr>ts_db := db2\<rparr>" sample_wb sample_env db3 p "[]" en f] 2(3,6) 3 en I(4)
    by (simp add: s3_def)
  from tier_reach.step [OF r2 this] have r3: "tier_reach sample_wb sample_env ?s0
      [Some (EvSet ''a'' ''one''), Some EvCheck, Some EvFlush] s3" by simp
  have "ts_buf s3 = (buf_start sample_flash)\<lparr>bs_fc := fc,
      bs_log := (\<lambda>_. [])(cf_id f := record_bytes (mk_record (env_crc sample_env) ''a'' ''one''))\<rparr>"
    by (simp add: s3_def ts_buf_def tier_start_def buf_start_def 3(2))
  moreover have "mem_look (ts_db s3) ''a'' = None" "flashCache (ts_db s3) = fc" by (simp_all add: s3_def 3)
  ultimately show ?thesis using that [OF r3] I(2,3,5) by (simp add: Let_def)
qed

theorem tiered_get_flash_witness:
  "\<exists>s c' db'. tier_reach sample_wb sample_env (tier_start sample_db)
      [Some (EvSet ''a'' ''one''), Some EvCheck, Some EvFlush] s \<and>
    session_step sample_wb sample_env False (enc_request [''get'', ''a'']) (sample_client, ts_db s) =
      Inr (SessionSent (bulk 3 ''one''), c', db') \<and> mem_look db' ''a'' = Some ''one''"
proof -
  obtain s where s: "tier_reach sample_wb sample_env (tier_start sample_db)
      [Some (EvSet ''a'' ''one''), Some EvCheck, Some EvFlush] s"
    "mem_look (ts_db s) ''a'' = None" "in_open_file (ts_buf s) ''a''" "\<not> fcache_mutex (flashCache (ts_db s))"
    "fb_look sample_env (ts_buf s) ''a'' = Some ''one''" by (rule sample_wb_moved)
  have t: "until_nul (env_tail sample_env) = []" by (simp add: sample_env_def)
  have len: "length (bulk (length ''one'') (''one'' @ until_nul (env_tail sample_env))) < KV_IOBUF_LEN"
    unfolding t by (simp add: bulk_def count_char(1) KV_IOBUF_LEN_def)
  from tiered_get_flash [OF sample_wb_conf(1) sample_wb_start s(1) sample_client_ok sample_requests(2) s(2-5)
      sample_requests(4) len] s(1) show ?thesis unfolding t by (fastforce simp: numeral_3_eq_3)
qed

end
