(* ===== verification/TornLog.thy ===== *)
theory TornLog
  imports Buffered FlashRecovery
begin

text \<open>
  Recovery after a kill in the write-buffer mode. The bytes of a file are then only the first
  buffers of the log of its records, and the last record of them may be cut anywhere. What
  \<open>Repair\<close> makes of such a file, for every place of the cut, which files a killed cache leaves,
  and what a lookup of a key answers whose value was cut.
\<close>

section \<open>Repairing the first bytes of a log\<close>

text \<open>
  The reference: the records that \<open>Repair\<close> finds in the first \<open>n\<close> bytes of a log. A record whose
  value is cut counts as if it were there; a record that is cut before the end of its key has a
  key of bytes that were never read.
\<close>

fun repair_of :: "nat \<Rightarrow> (byte list \<times> byte list) list \<Rightarrow> (byte list \<times> byte list) list option" where
  "repair_of n [] = Some []"
| "repair_of n ((k, v) # kvs) =
     (if n = 0 then Some []
      else if n < sizeof_hdr + length k then None
      else if n < rec_len k v then Some [(k, v)]
      else map_option (Cons (k, v)) (repair_of (n - rec_len k v) kvs))"

text \<open>The keys whose length is one byte of the header.\<close>

definition short_key :: "byte list \<Rightarrow> bool" where
  "short_key k \<longleftrightarrow> k \<noteq> [] \<and> length k < 256"

lemma le32_short: "n < 256 \<Longrightarrow> le32 (word_of_nat n) = [char_of n, char_of (0 :: nat), char_of (0 :: nat), char_of (0 :: nat)]"
proof -
  assume "n < 256"
  then have "unat (word_of_nat n :: u32) = n" by (simp add: unsigned_of_nat take_bit_nat_eq_self)
  moreover have "le_bytes 4 n = [char_of n, char_of (0 :: nat), char_of (0 :: nat), char_of (0 :: nat)]"
  proof -
    have "(4 :: nat) = Suc (Suc (Suc (Suc 0)))" by simp
    then show ?thesis using \<open>n < 256\<close> by (simp only: le_bytes.simps) simp
  qed
  ultimately show ?thesis by (simp add: le32_def)
qed

lemma of_le_positive: "c \<in> set bs \<Longrightarrow> of_char c \<noteq> (0 :: nat) \<Longrightarrow> 0 < of_le bs"
  by (induction bs) auto

lemma of_le_bound: "of_le bs < 256 ^ length bs"
proof (induction bs)
  case (Cons c cs)
  have "of_char c < (256 :: nat)" by simp
  moreover have "of_le cs + 1 \<le> 256 ^ length cs" using Cons by simp
  moreover have "256 ^ length (c # cs) = 256 * (256 :: nat) ^ length cs" by simp
  ultimately show ?case unfolding of_le.simps by linarith
qed simp

lemma of_le32_positive:
  assumes "c \<in> set (take 4 bs)" "of_char c \<noteq> (0 :: nat)"
  shows "of_le32 bs \<noteq> 0"
proof -
  have "of_le (take 4 bs) < 2 ^ 32"
    using of_le_bound [of "take 4 bs"] power_increasing [of "length (take 4 bs)" 4 "256 :: nat"] by simp
  with of_le_positive [OF assms] show ?thesis
    by (simp add: of_le32_def unat_eq_zero [symmetric] unsigned_of_nat take_bit_nat_eq_self)
qed

text \<open>
  The size of the key in a header of which only the first \<open>n\<close> bytes have arrived: that of the
  header before, or it begins with the byte that is the length of the key.
\<close>

lemma mixed_key_size:
  assumes k: "short_key k" and h: "9 \<le> n \<or> hdr_key_size h \<noteq> 0" and n: "n \<le> 16"
    and h2: "hdr_key_size h2 = word_of_nat (length k)"
  shows "hdr_key_size (hdr_of_bytes (take n (hdr_bytes h2) @ drop n (hdr_bytes h))) \<noteq> 0"
proof (cases "9 \<le> n")
  case True
  have "drop 8 (hdr_bytes h2) = char_of (length k) # replicate 3 (char_of (0 :: nat)) @ le32 (hdr_val_size h2)"
    using k by (simp add: hdr_bytes_def h2 short_key_def le32_short numeral_eq_Suc)
  then have "drop 8 (take n (hdr_bytes h2)) \<noteq> [] \<and> hd (drop 8 (take n (hdr_bytes h2))) = char_of (length k)"
    using True by (simp add: drop_take hd_take)
  then obtain bs where "drop 8 (take n (hdr_bytes h2)) = char_of (length k) # bs" by (metis list.collapse)
  then have "hdr_key_size (hdr_of_bytes (take n (hdr_bytes h2) @ drop n (hdr_bytes h))) =
      of_le32 (char_of (length k) # bs @ drop n (hdr_bytes h))"
    using True by (simp add: hdr_of_bytes_def hdr_bytes_def)
  moreover have "of_char (char_of (length k) :: char) = length k" using k by (simp add: short_key_def)
  ultimately show ?thesis
    using k of_le32_positive [of "char_of (length k)" "char_of (length k) # bs @ drop n (hdr_bytes h)"]
    by (simp add: short_key_def)
next
  case False
  then have "drop 8 (take n (hdr_bytes h2) @ drop n (hdr_bytes h)) = drop 8 (hdr_bytes h)"
    by (simp add: drop_append hdr_bytes_def)
  then have "hdr_key_size (hdr_of_bytes (take n (hdr_bytes h2) @ drop n (hdr_bytes h))) = hdr_key_size h"
    by (simp add: hdr_of_bytes_def) (simp add: hdr_bytes_def)
  with h False show ?thesis by simp
qed

text \<open>One turn of the loop, for a record of which the header and the key have arrived.\<close>

lemma repair_loop_record:
  assumes e: "reads_whole e" and good: "good_entry k v"
    and c: "c = pre @ hdr_bytes (rec_hdr (mk_record (env_crc e) k v)) @ k @ rest"
    and fs: "unat (filesize f) = length c"
  shows "repair_loop (Suc fuel) e f c (length pre) h =
    bnd (repair_loop fuel e f c (length pre + rec_len k v) (rec_hdr (mk_record (env_crc e) k v)))
      (\<lambda>es. Inr ((k, \<lparr>lba_cache_id = cf_id f, lba_off = word_of_nat (length pre),
        lba_size = word_of_nat (rec_len k v)\<rparr>) # es))"
proof -
  let ?hdr = "rec_hdr (mk_record (env_crc e) k v)"
  have got: "pread_once e c (length pre) sizeof_hdr = hdr_bytes ?hdr"
    using e by (simp add: pread_once_whole c sizeof_hdr_def)
  have h1: "hdr_of_bytes (hdr_bytes ?hdr @ drop 16 (hdr_bytes h)) = ?hdr"
    using hdr_of_hdr_bytes [of ?hdr "[]"] by simp
  have ks: "unat (hdr_key_size ?hdr) = length k"
    using good by (simp add: good_entry_def rec_len_def unsigned_of_nat take_bit_nat_eq_self)
  have key: "pread_once e c (length pre + sizeof_hdr) (length k) = k"
    using e by (simp add: pread_once_whole c sizeof_hdr_def)
  have lsz: "hdr_key_size ?hdr + hdr_val_size ?hdr + word_of_nat sizeof_hdr = word_of_nat (rec_len k v)"
    by (simp add: rec_len_def sizeof_hdr_def)
  have un: "unat (word_of_nat (rec_len k v) :: u32) = rec_len k v"
    using good by (simp add: good_entry_def unsigned_of_nat take_bit_nat_eq_self)
  show ?thesis
    unfolding repair_loop.simps Let_def got length_hdr_bytes h1 ks key lsz un fs by (simp add: c)
qed

text \<open>And for a record that is cut before the end of its key.\<close>

lemma repair_loop_cut:
  assumes e: "reads_whole e" and k: "good_entry k v" "short_key k"
    and c: "c = pre @ take n (hdr_bytes (rec_hdr (mk_record (env_crc e) k v)) @ k)"
    and n: "0 < n" "n < sizeof_hdr + length k" "9 \<le> n \<or> hdr_key_size h \<noteq> 0"
    and fs: "unat (filesize f) = length c"
  shows "repair_loop (Suc fuel) e f c (length pre) h = Inl Uninitialised"
proof -
  let ?hdr = "rec_hdr (mk_record (env_crc e) k v)"
  let ?h1 = "hdr_of_bytes (take n (hdr_bytes ?hdr) @ drop n (hdr_bytes h))"
  have got: "pread_once e c (length pre) sizeof_hdr = take n (hdr_bytes ?hdr)"
    using e by (simp add: pread_once_whole c sizeof_hdr_def take_take min_def)
  have h1: "hdr_of_bytes (take n (hdr_bytes ?hdr) @ drop (length (take n (hdr_bytes ?hdr))) (hdr_bytes h)) = ?h1"
    by (simp add: min_def)
  have key: "pread_once e c (length pre + sizeof_hdr) m = take m (take (n - sizeof_hdr) k)" for m
    using e by (cases "n \<le> sizeof_hdr") (simp_all add: pread_once_whole c sizeof_hdr_def drop_take)
  have ks: "length (take (unat (hdr_key_size ?h1)) (take (n - sizeof_hdr) k)) \<noteq> unat (hdr_key_size ?h1)"
  proof (cases "n \<le> sizeof_hdr")
    case True
    have "hdr_key_size ?h1 \<noteq> 0"
      using True n(3) by (intro mixed_key_size [OF k(2)]) (simp_all add: sizeof_hdr_def mk_record_def Let_def)
    then show ?thesis using True by (simp add: unat_eq_zero)
  next
    case False
    then have "?h1 = ?hdr" using hdr_of_hdr_bytes [of ?hdr "[]"] by (simp add: sizeof_hdr_def)
    moreover have "unat (hdr_key_size ?hdr) = length k"
      using k(1) by (simp add: good_entry_def rec_len_def unsigned_of_nat take_bit_nat_eq_self)
    ultimately show ?thesis using False n(2) by simp
  qed
  have "length pre < unat (filesize f)" using n(1,2) by (simp add: fs c sizeof_hdr_def)
  then show ?thesis
    unfolding repair_loop.simps Let_def got h1 key using ks by simp
qed

lemma repair_loop_torn:
  assumes e: "reads_whole e"
  shows "\<forall>(k, v) \<in> set kvs. good_entry k v \<and> short_key k \<Longrightarrow>
    length (pre @ take n (log_bytes e kvs)) < 2 ^ 32 \<Longrightarrow>
    filesize f = word_of_nat (length (pre @ take n (log_bytes e kvs))) \<Longrightarrow>
    length (take n (log_bytes e kvs)) < fuel \<Longrightarrow>
    n = 0 \<or> 9 \<le> n \<or> hdr_key_size h \<noteq> 0 \<Longrightarrow>
    repair_loop fuel e f (pre @ take n (log_bytes e kvs)) (length pre) h =
      (case repair_of n kvs of None \<Rightarrow> Inl Uninitialised
       | Some ks \<Rightarrow> Inr (log_index (cf_id f) (length pre) ks))"
proof (induction kvs arbitrary: pre n fuel h)
  case Nil
  then obtain m where "fuel = Suc m" by (cases fuel) auto
  with Nil show ?case by (simp add: unsigned_of_nat take_bit_nat_eq_self)
next
  case (Cons kv kvs)
  obtain k v where kv: "kv = (k, v)" by fastforce
  obtain m where fuel: "fuel = Suc m" using Cons.prems by (cases fuel) auto
  let ?r = "mk_record (env_crc e) k v"
  let ?c = "pre @ take n (log_bytes e (kv # kvs))"
  have fs: "unat (filesize f) = length ?c"
    using Cons.prems(2,3) by (simp add: unsigned_of_nat take_bit_nat_eq_self del: of_nat_add)
  have k: "good_entry k v" "short_key k" using Cons.prems(1) kv by simp_all
  have log: "log_bytes e (kv # kvs) = (hdr_bytes (rec_hdr ?r) @ k) @ v @ log_bytes e kvs"
    by (simp add: kv record_bytes_def)
  have rl: "rec_len k v = sizeof_hdr + length k + length v" by (simp add: rec_len_def)
  consider "n = 0" | "0 < n" "n < sizeof_hdr + length k" | "sizeof_hdr + length k \<le> n" "n < rec_len k v"
    | "rec_len k v \<le> n" by linarith
  then show ?case
  proof cases
    case 1
    then show ?thesis using fs by (simp add: fuel kv)
  next
    case 2
    then have c: "?c = pre @ take n (hdr_bytes (rec_hdr ?r) @ k)" unfolding log by (simp add: sizeof_hdr_def)
    show ?thesis
      unfolding fuel using repair_loop_cut [OF e k c 2 _ fs, of h m] Cons.prems(5) 2 by (simp add: kv)
  next
    case 3
    then have c: "?c = pre @ hdr_bytes (rec_hdr ?r) @ k @ take (n - (sizeof_hdr + length k)) (v @ log_bytes e kvs)"
      unfolding log by (simp add: sizeof_hdr_def)
    have stop: "\<not> length pre + rec_len k v < unat (filesize f)" using 3 by (simp add: fs min_def)
    obtain m' where "m = Suc m'" using Cons.prems(4) fuel 3 by (cases m) (auto simp: kv sizeof_hdr_def rl)
    then have "repair_loop m e f ?c (length pre + rec_len k v) (rec_hdr ?r) = Inr []"
      by (simp only: repair_loop.simps stop if_False)
    then show ?thesis
      unfolding fuel repair_loop_record [OF e k(1) c fs, of m h] using 3 by (simp add: kv sizeof_hdr_def)
  next
    case 4
    then have c: "?c = pre @ hdr_bytes (rec_hdr ?r) @ k @ take (n - (sizeof_hdr + length k)) (v @ log_bytes e kvs)"
      unfolding log rl by (simp add: sizeof_hdr_def)
    have c': "?c = (pre @ record_bytes ?r) @ take (n - rec_len k v) (log_bytes e kvs)"
      using 4 by (simp add: kv)
    have "hdr_key_size (rec_hdr ?r) \<noteq> 0"
      using k(2) by (auto simp: short_key_def mk_record_def Let_def word_of_nat_eq_0_iff dest: nat_dvd_not_less)
    then have "repair_loop m e f ?c (length (pre @ record_bytes ?r)) (rec_hdr ?r) =
        (case repair_of (n - rec_len k v) kvs of None \<Rightarrow> Inl Uninitialised
         | Some ks \<Rightarrow> Inr (log_index (cf_id f) (length (pre @ record_bytes ?r)) ks))"
      using Cons.prems(1-4) fuel 4 rl unfolding c' by (intro Cons.IH) (auto simp: kv sizeof_hdr_def)
    then have IH: "repair_loop m e f ?c (length pre + rec_len k v) (rec_hdr ?r) =
        (case repair_of (n - rec_len k v) kvs of None \<Rightarrow> Inl Uninitialised
         | Some ks \<Rightarrow> Inr (log_index (cf_id f) (length pre + rec_len k v) ks))"
      by (simp only: length_append length_record_bytes)
    have "repair_of n (kv # kvs) = map_option (Cons (k, v)) (repair_of (n - rec_len k v) kvs)"
      using 4 by (simp add: kv rl sizeof_hdr_def)
    then show ?thesis
      unfolding fuel repair_loop_record [OF e k(1) c fs, of m h] IH by (simp split: option.split)
  qed
qed

lemma torn_file_repaired:
  assumes e: "reads_whole e" and kvs: "\<forall>(k, v) \<in> set kvs. good_entry k v \<and> short_key k"
    and len: "length (log_bytes e kvs) < 2 ^ 32" and n: "n = 0 \<or> 9 \<le> n" and c: "c = take n (log_bytes e kvs)"
    and f: "f = snd (cf_Open c (cf_new cid 0 0))"
  shows "cf_Repair (length c + 1) e f c =
    (case repair_of n kvs of None \<Rightarrow> Inl Uninitialised
     | Some ks \<Rightarrow> Inr (f\<lparr>key_lists := map fst ks\<rparr>, log_index cid 0 ks))"
proof -
  have keys: "map fst (log_index cid off ks) = map fst ks" for off ks
    by (induction cid off ks rule: log_index.induct) auto
  have f: "filesize f = word_of_nat (length c)" "cf_id f = cid" "key_lists f = []"
    by (simp_all add: f cf_Open_def cf_new_def)
  have "repair_loop (length c + 1) e f ([] @ take n (log_bytes e kvs)) (length ([] :: byte list)) hdr_init =
      (case repair_of n kvs of None \<Rightarrow> Inl Uninitialised
       | Some ks \<Rightarrow> Inr (log_index (cf_id f) (length ([] :: byte list)) ks))"
    using len n f by (intro repair_loop_torn [OF e kvs]) (auto simp: c)
  then have "repair_loop (length c + 1) e f c 0 hdr_init =
      (case repair_of n kvs of None \<Rightarrow> Inl Uninitialised | Some ks \<Rightarrow> Inr (log_index cid 0 ks))"
    by (simp only: append_Nil list.size(3) c [symmetric] f)
  then show ?thesis by (simp only: cf_Repair_def) (simp add: keys f split: option.split)
qed

section \<open>The files that a killed cache leaves\<close>

text \<open>The records of the files, in the order in which they were inserted.\<close>

lemma buf_reach_logs:
  assumes "buf_reach e s0 evs s" "bs_ok e s0" "bs_log s0 = (\<lambda>_. [])"
  obtains L where "\<And>cid. bs_log s cid = log_bytes e (L cid)" "\<And>cid. length (bs_log s cid) < 2 ^ 32"
    "\<And>cid k v. (k, v) \<in> set (L cid) \<Longrightarrow> good_entry k v \<and> BInsert k v \<in> set evs"
  using assms(1)
proof (induction arbitrary: thesis rule: buf_reach.induct)
  case start
  then show ?case using assms(3) by (intro start(1) [of "\<lambda>_. []"]) simp_all
next
  case (step evs s ev s')
  have ok: "bs_ok e s" by (rule buf_reach_ok [OF step(1) assms(2)])
  obtain L where L: "\<And>cid. bs_log s cid = log_bytes e (L cid)" "\<And>cid. length (bs_log s cid) < 2 ^ 32"
    "\<And>cid k v. (k, v) \<in> set (L cid) \<Longrightarrow> good_entry k v \<and> BInsert k v \<in> set evs" using step.IH by blast
  from step(2) consider "bs_log s' = bs_log s" | k v fc f where "ev = BInsert k v" "good_entry k v"
    "fc_room (bs_fc s) 1" "fc_Insert True e k v (bs_fc s) = Inr (0, fc)" "map_of (fc_objs fc) (fc_cur fc) = Some f"
    "bs_log s' = (bs_log s)(cf_id f := bs_log s (cf_id f) @ record_bytes (mk_record (env_crc e) k v))"
    by (cases rule: buf_step.cases) (use thread_move_ok [OF _ ok] in auto)
  then show ?case
  proof cases
    case 1
    then show ?thesis using L by (intro step.prems [of L]) auto
  next
    case 2
    obtain g where "\<not> fcache_mutex (bs_fc s)" "map_of (fc_objs (bs_fc s)) (fc_cur (bs_fc s)) = Some g"
      by (rule Insert_ready [OF 2(4)])
    from buf_insert [OF ok 2(2,3) this] 2(4,5)
    have "length (bs_log s (cf_id f) @ record_bytes (mk_record (env_crc e) k v)) < 2 ^ 32" by auto
    then show ?thesis
      using L 2(1,2) by (intro step.prems [of "L(cf_id f := L (cf_id f) @ [(k, v)])"])
        (auto simp: 2(6) log_bytes_append split: if_splits)
  qed
qed

text \<open>
  C20: What a killed cache leaves. At any moment of a run in the write-buffer mode, the bytes of a
  file are the first buffers of the log of the records inserted into it, and \<open>Repair\<close>, run on
  them when the server starts again, finds the records that are whole, counts a record whose value
  is cut as if it were there, and reads memory that was never written when the cut is before the
  end of a key (keys of 1 to 255 bytes, buffers of at least 9).
\<close>

theorem killed_cache_repairs:
  assumes "env_ok e" "reads_whole e" "0 < wbs" "unat file_size \<le> 2 ^ 31"
    and "fc_Open e (fc_construct cs file_size wbs gs gf []) = Inr (0, fc)"
    and "buf_reach e (buf_start fc) evs s" "\<forall>k v. BInsert k v \<in> set evs \<longrightarrow> short_key k"
    and "map_of (fc_objs (bs_fc s)) p = Some f" "9 \<le> unat (cf_wbs f)"
    and "c = fc_content f (bs_fc s)" "g = snd (cf_Open c (cf_new (cf_id f) 0 0))"
  shows "\<exists>kvs. (\<forall>(k, v) \<in> set kvs. BInsert k v \<in> set evs) \<and> bs_log s (cf_id f) = log_bytes e kvs \<and>
    cf_Repair (length c + 1) e g c =
      (case repair_of (buf_doff f * unat (cf_wbs f)) kvs of None \<Rightarrow> Inl Uninitialised
       | Some ks \<Rightarrow> Inr (g\<lparr>key_lists := map fst ks\<rparr>, log_index (cf_id f) 0 ks))"
proof -
  from buf_open [OF assms(1,3,4), of cs gs gf] assms(5) have start: "bs_ok e (buf_start fc)" by auto
  have "bs_log (buf_start fc) = (\<lambda>_. [])" by (simp add: buf_start_def)
  then obtain L where L: "\<And>cid. bs_log s cid = log_bytes e (L cid)" "\<And>cid. length (bs_log s cid) < 2 ^ 32"
    "\<And>cid k v. (k, v) \<in> set (L cid) \<Longrightarrow> good_entry k v \<and> BInsert k v \<in> set evs"
    using buf_reach_logs [OF assms(6) start] by blast
  from bs_okD(5) [OF buf_reach_ok [OF assms(6) start] assms(8)]
  have "fc_content f (bs_fc s) = take (buf_doff f * unat (cf_wbs f)) (bs_log s (cf_id f))"
    by (simp add: file_ok_def writer_ok_def file_view_def Let_def)
  then have c: "c = take (buf_doff f * unat (cf_wbs f)) (log_bytes e (L (cf_id f)))"
    using assms(10) L(1) by simp
  have n: "buf_doff f * unat (cf_wbs f) = 0 \<or> 9 \<le> buf_doff f * unat (cf_wbs f)"
    using assms(9) by (cases "buf_doff f") auto
  have "cf_Repair (length c + 1) e g c =
      (case repair_of (buf_doff f * unat (cf_wbs f)) (L (cf_id f)) of None \<Rightarrow> Inl Uninitialised
       | Some ks \<Rightarrow> Inr (g\<lparr>key_lists := map fst ks\<rparr>, log_index (cf_id f) 0 ks))"
    using L(2,3) [of _] assms(7) unfolding L(1)
    by (intro torn_file_repaired [OF assms(2) _ _ n c assms(11)]) blast+
  then show ?thesis using L by (intro exI [of _ "L (cf_id f)"]) auto
qed

section \<open>A value that was cut\<close>

text \<open>\<open>pread\<close> at the end of a file: what is there, and then nothing.\<close>

definition reads_on :: "env \<Rightarrow> bool" where
  "reads_on e \<longleftrightarrow> (\<forall>off n. \<exists>k k' rs. env_read e off n = RDone k # RDone k' # rs \<and> n \<le> k)"

lemma reads_on_whole: "reads_on e \<Longrightarrow> reads_whole e"
  unfolding reads_whole_def
proof (intro allI)
  fix off n assume "reads_on e"
  then obtain k k' rs where "env_read e off n = RDone k # RDone k' # rs" "n \<le> k"
    unfolding reads_on_def by blast
  then show "case env_read e off n of RDone k # _ \<Rightarrow> n \<le> k | _ \<Rightarrow> False" by simp
qed

lemma file_get_on:
  assumes "reads_on e"
  shows "file_get off n (e, c) = Inr (take n (drop off c))"
proof -
  from assms obtain k k' rs where r: "env_read e off n = RDone k # RDone k' # rs" "n \<le> k"
    unfolding reads_on_def by blast
  define got where "got = take n (drop off c)"
  have rest: "pread_loop (RDone k' # rs) c (off + length got) (n - length got) = Inr ([], False)"
  proof (cases "n - length got")
    case (Suc m)
    then have "drop (off + length got) c = []" by (simp add: got_def split: if_splits)
    then show ?thesis using Suc by simp
  qed simp
  have "pread_loop (env_read e off n) c off n = Inr (got, False)"
  proof (cases n)
    case (Suc m)
    then have m: "min k (Suc m) = Suc m" using r(2) by simp
    show ?thesis
      unfolding Suc r(1) [unfolded Suc] pread_loop.simps m Let_def got_def [unfolded Suc, symmetric]
      using rest [unfolded Suc] by simp
  qed (simp add: got_def)
  then show ?thesis by (simp add: file_get_def got_def)
qed

lemma Deserialize_cut:
  assumes good: "good_entry k v" and m: "sizeof_hdr \<le> m" "m < rec_len k v"
  shows "Deserialize crc (take m (record_bytes (mk_record crc k v)) @ tail) m = Inr None"
proof -
  let ?h = "rec_hdr (mk_record crc k v)"
  have "take m (record_bytes (mk_record crc k v)) @ tail =
      hdr_bytes ?h @ take (m - sizeof_hdr) (k @ v) @ tail"
    using m(1) by (simp add: record_bytes_def sizeof_hdr_def)
  then have h: "hdr_of_bytes (take m (record_bytes (mk_record crc k v)) @ tail) = ?h" by simp
  have "hdr_key_size ?h + hdr_val_size ?h = word_of_nat (length k + length v)" by simp
  moreover have "length k + length v < 2 ^ 32" using good by (simp add: good_entry_def rec_len_def)
  ultimately have "unat (hdr_key_size ?h + hdr_val_size ?h) = length k + length v"
    by (simp add: unsigned_of_nat take_bit_nat_eq_self del: of_nat_add)
  then show ?thesis using m by (simp add: Deserialize_def h Let_def rec_len_def)
qed

text \<open>Reading a file that \<open>Open\<close> has taken in.\<close>

lemma cf_Read_at_rest:
  assumes "reads_on e" "at_rest f"
  defines "bs \<equiv> \<lambda>lba c. take (unat (lba_size lba)) (drop (unat (lba_off lba)) c)"
  shows "cf_Read wbmode e lba f c = bnd (Deserialize (env_crc e) (bs lba c @ env_tail e) (length (bs lba c)))
    (\<lambda>r. Inr (map_option (\<lambda>r. (rec_key r, rec_val r)) r))"
  using assms(2) unfolding cf_Read_def Let_def bs_def at_rest_def by (simp add: file_get_on [OF assms(1)])

lemma cf_Read_whole:
  assumes e: "env_ok e" "reads_on e" and f: "at_rest f" and st: "stored e c lba k v"
  shows "cf_Read wbmode e lba f c = Inr (Some (k, v))"
proof -
  have "length (take (unat (lba_size lba)) (drop (unat (lba_off lba)) c)) = unat (lba_size lba)"
    using st by (simp add: stored_def)
  then show ?thesis
    unfolding cf_Read_at_rest [OF e(2) f] using stored_decode [OF e(1) st] by simp
qed

lemma cf_Read_cut:
  assumes e: "reads_on e" and f: "at_rest f" and good: "good_entry k v"
    and m: "sizeof_hdr \<le> m" "m < rec_len k v" and len: "length pre < 2 ^ 32"
    and lba: "lba_off lba = word_of_nat (length pre)" "lba_size lba = word_of_nat (rec_len k v)"
  shows "cf_Read wbmode e lba f (pre @ take m (record_bytes (mk_record (env_crc e) k v))) = Inr None"
proof -
  have un: "unat (lba_off lba) = length pre" "unat (lba_size lba) = rec_len k v"
    using len good by (simp_all add: lba good_entry_def unsigned_of_nat take_bit_nat_eq_self)
  have "take (unat (lba_size lba)) (drop (unat (lba_off lba)) (pre @ take m (record_bytes (mk_record (env_crc e) k v)))) =
      take m (record_bytes (mk_record (env_crc e) k v))"
    using m(2) by (simp add: un)
  moreover have "length (take m (record_bytes (mk_record (env_crc e) k v))) = m" using m(2) by simp
  ultimately show ?thesis
    unfolding cf_Read_at_rest [OF e f] by (simp add: Deserialize_cut [OF good m])
qed

lemma fc_Lookup_read:
  assumes free: "\<not> fcache_mutex fc" and lba: "map_of (block_index (fc_meta fc)) k = Some lba"
    and idx: "lru.settled (fc_idx fc)" "lru_value (fc_idx fc) (lba_cache_id lba) = Some p"
    and f: "map_of (fc_objs fc) p = Some f" "cf_Read wbmode e lba f (fc_content f fc) = Inr r"
  shows "\<exists>fc'. fc_Lookup wbmode e k fc = Inr (Some (case r of None \<Rightarrow> [] | Some (k, v) \<Rightarrow> v), fc')"
proof -
  from idx have "lru_inv (fc_idx fc)" "lba_cache_id lba \<in> set (lru_order (fc_idx fc))"
    by (simp_all add: lru_settled_def)
  from lru.get_present [OF this] idx(2) obtain i where "lru_get (lba_cache_id lba) (fc_idx fc) = Inr (Some p, i)" by auto
  then show ?thesis using free lba f
    by (simp add: fc_Lookup_def fc_lock_def meta_Lookup_def meta_Lookup_file_def fc_obj_def
        fc_content_def Let_def)
qed

section \<open>Restarting on files that were cut\<close>

text \<open>
  The reference for the answers of a lookup: the records that \<open>Repair\<close> finds, the one whose value
  was cut with an empty value.
\<close>

fun answers_of :: "nat \<Rightarrow> (byte list \<times> byte list) list \<Rightarrow> (byte list \<times> byte list) list" where
  "answers_of n [] = []"
| "answers_of n ((k, v) # kvs) =
     (if n = 0 then []
      else if n < rec_len k v then [(k, [])]
      else (k, v) # answers_of (n - rec_len k v) kvs)"

text \<open>What a lookup of a record answers, in a file without buffers and in every mode.\<close>

definition answered :: "env \<Rightarrow> found" where
  "answered e c lba k v \<longleftrightarrow> (\<forall>f wbmode. at_rest f \<longrightarrow>
     (\<exists>r. cf_Read wbmode e lba f c = Inr r \<and> v = (case r of None \<Rightarrow> [] | Some (_, w) \<Rightarrow> w)))"

lemma answers_of_keys: "repair_of n kvs = Some ks \<Longrightarrow> map fst (answers_of n kvs) = map fst ks"
proof (induction n kvs arbitrary: ks rule: answers_of.induct)
  case (2 n k v kvs)
  then show ?case by (auto simp: rec_len_def split: if_splits)
qed simp

lemma answers_found:
  assumes e: "env_ok e" "reads_on e"
  shows "repair_of n kvs = Some ks \<Longrightarrow> \<forall>(k, v) \<in> set kvs. good_entry k v \<Longrightarrow>
    length (pre @ log_bytes e kvs) < 2 ^ 32 \<Longrightarrow> map_of (log_index cid (length pre) ks) k = Some lba \<Longrightarrow>
    lba_cache_id lba = cid \<and>
    (\<exists>v. map_of (answers_of n kvs) k = Some v \<and> answered e (pre @ take n (log_bytes e kvs)) lba k v)"
proof (induction kvs arbitrary: pre n ks)
  case (Cons kv kvs)
  obtain j w where kv: "kv = (j, w)" by fastforce
  have good: "good_entry j w" using Cons.prems(2) kv by simp
  let ?r = "record_bytes (mk_record (env_crc e) j w)"
  let ?lba = "\<lparr>lba_cache_id = cid, lba_off = word_of_nat (length pre), lba_size = word_of_nat (rec_len j w)\<rparr>"
  have n: "n = 0 \<or> sizeof_hdr + length j \<le> n" using Cons.prems(1) by (auto simp: kv split: if_splits)
  consider "n = 0" | "n \<noteq> 0" "n < rec_len j w" | "rec_len j w \<le> n" "n \<noteq> 0" by linarith
  then show ?case
  proof cases
    case 1
    then show ?thesis using Cons.prems(1,4) by (simp add: kv)
  next
    case 2
    then have ks: "ks = [(j, w)]" using Cons.prems(1) n by (simp add: kv)
    then have lba: "k = j" "lba = ?lba" using Cons.prems(4) by (simp_all split: if_splits)
    have "cf_Read wbmode e ?lba f (pre @ take n ?r) = Inr None" if "at_rest f" for f wbmode
      using n 2 Cons.prems(3) by (intro cf_Read_cut [OF e(2) that good]) auto
    then have "answered e (pre @ take n (log_bytes e (kv # kvs))) ?lba k []"
      using 2 by (simp add: answered_def kv)
    then show ?thesis using 2 by (simp add: kv lba)
  next
    case 3
    then obtain ks' where ks: "repair_of (n - rec_len j w) kvs = Some ks'" "ks = (j, w) # ks'"
      using Cons.prems(1) n by (auto simp: kv split: if_splits)
    have c: "pre @ take n (log_bytes e (kv # kvs)) = (pre @ ?r) @ take (n - rec_len j w) (log_bytes e kvs)"
      using 3 by (simp add: kv)
    show ?thesis
    proof (cases "k = j")
      case True
      have "stored e (pre @ take n (log_bytes e (kv # kvs))) ?lba j w"
        unfolding c using Cons.prems(3) good by (intro stored_append stored_new) (auto simp: good_entry_def)
      then have "answered e (pre @ take n (log_bytes e (kv # kvs))) ?lba j w"
        using cf_Read_whole [OF e] by (auto simp: answered_def)
      then show ?thesis using Cons.prems(4) True 3 by (auto simp: kv ks)
    next
      case False
      from Cons.IH [OF ks(1), of "pre @ ?r"] Cons.prems(2-4) have
        "lba_cache_id lba = cid \<and> (\<exists>v. map_of (answers_of (n - rec_len j w) kvs) k = Some v \<and>
          answered e ((pre @ ?r) @ take (n - rec_len j w) (log_bytes e kvs)) lba k v)"
        using False by (simp add: kv ks)
      then show ?thesis using False 3 unfolding c by (simp add: kv)
    qed
  qed
qed simp

lemma taken_cut:
  assumes e: "env_ok e" "reads_on e" and kvs: "\<forall>(k, v) \<in> set kvs. good_entry k v \<and> short_key k"
    and len: "length (log_bytes e kvs) < 2 ^ 32" and ks: "repair_of n kvs \<noteq> None"
  shows "taken e (answered e) cid (take n (log_bytes e kvs)) (answers_of n kvs)"
proof -
  let ?c = "take n (log_bytes e kvs)"
  let ?f = "snd (cf_Open ?c (cf_new cid 0 0))"
  from ks obtain ks where ks: "repair_of n kvs = Some ks" by blast
  have good: "\<forall>(k, v) \<in> set kvs. good_entry k v" using kvs by auto
  have keys: "map_of (answers_of n kvs) k = None \<longleftrightarrow> map_of ks k = None" for k
    using answers_of_keys [OF ks] by (metis map_of_eq_None_iff list.set_map)
  have "cf_Repair (length ?c + 1) e ?f ?c = Inr (?f\<lparr>key_lists := map fst ks\<rparr>, log_index cid 0 ks)"
  proof (cases "kvs = [] \<or> n = 0")
    case True
    then show ?thesis using ks by (cases kvs) (auto simp: cf_Repair_def cf_Open_def cf_new_def)
  next
    case False
    then have "n = 0 \<or> 9 \<le> n" using ks by (cases kvs) (auto simp: sizeof_hdr_def split: if_splits)
    from torn_file_repaired [OF reads_on_whole [OF e(2)] kvs len this refl refl, of cid] ks
    show ?thesis by simp
  qed
  moreover have "index_ok (answered e) (\<lambda>_. ?c) {cid} (answers_of n kvs) (map_of (log_index cid 0 ks))"
    using answers_found [OF e ks good, of "[]" cid] len log_index_None [of cid 0 ks] keys
    by (auto simp: index_ok_def split: option.split)
  ultimately show ?thesis unfolding taken_def by blast
qed

text \<open>The cache opens on a directory of such files.\<close>

lemma cut_files_open:
  assumes e: "env_ok e" "reads_on e" and m: "m < 2 ^ 32" and dir: "distinct (map fst dir)"
    and files: "filter (\<lambda>x. ends_with_rc (fst x)) dir = map (\<lambda>cid. (cf_name cid, take (N cid) (log_bytes e (L cid)))) cids"
    and cids: "distinct cids" "\<And>cid. cid \<in> set cids \<Longrightarrow> unat cid < m"
    and logs: "\<And>cid. length (log_bytes e (L cid)) < 2 ^ 32" "\<And>cid k v. (k, v) \<in> set (L cid) \<Longrightarrow> good_entry k v \<and> short_key k"
    and repaired: "\<And>cid. cid \<in> set cids \<Longrightarrow> repair_of (N cid) (L cid) \<noteq> None"
  shows "\<exists>fc. fc_Open e (fc_construct cs file_size wbs gs gf dir) = Inr (0, fc) \<and>
    (\<forall>wbmode k. let r = map_of (concat (map (\<lambda>cid. answers_of (N cid) (L cid)) cids)) k in
      \<exists>fc'. fc_Lookup wbmode e k fc = Inr (r, fc'))"
proof -
  define fs where "fs = map (\<lambda>cid. (cid, answers_of (N cid) (L cid))) cids"
  let ?con = "\<lambda>cid (_ :: (byte list \<times> byte list) list). take (N cid) (log_bytes e (L cid))"
  define fc0 where "fc0 = fc_construct cs file_size wbs gs gf dir"
  have rc: "rc_entries ?con dir fs" using files by (simp add: rc_entries_def fs_def comp_def)
  have d: "distinct (map fst fs)" using cids(1) by (simp add: fs_def comp_def)
  have tk: "\<forall>(cid, recs) \<in> set fs. unat cid < m \<and> taken e (answered e) cid (?con cid recs) recs"
    using cids(2) taken_cut [OF e] logs repaired by (auto simp: fs_def) blast
  obtain fc1 where 1: "fc_open_entries e (map fst dir) fc0 = Inr fc1" "open_ok (answered e) fs fc1"
    "fc_dir fc1 = dir" "\<not> fcache_mutex fc1" "unat (writer_cache_id fc1) \<le> m"
    using m by (auto intro: fc_open_dir [OF _ dir rc d tk fc0_def])
  note O = open_okD [OF 1(2)]
  have files: "files_ok fc1" using open_ok_files [OF 1(2)] rc 1(3) by simp
  let ?fc = "with_new_file fc1"
  note val = new_file_index [OF O(1) files] and old = files_okD [OF files]
  have "fc_Open e fc0 = Inr (0, ?fc)"
    using 1(1) fc_NewCacheFile_new [OF files] by (simp add: fc_Open_def fc0_def fc_construct_def)
  moreover have "\<exists>fc'. fc_Lookup wbmode e k ?fc = Inr (map_of (concat (map snd fs)) k, fc')" for wbmode k
  proof (cases "map_of (block_index (fc_meta fc1)) k")
    case None
    then show ?thesis using index_okD(1) [OF O(5) None] 1(4)
      by (simp add: fc_Lookup_def fc_lock_def meta_Lookup_def)
  next
    case (Some lba)
    let ?cid = "lba_cache_id lba"
    from index_okD(2) [OF O(5) Some] O(4) obtain v where v: "map_of (concat (map snd fs)) k = Some v"
      "answered e (fc_bytes fc1 ?cid) lba k v" "lru_value (fc_idx fc1) ?cid \<noteq> None" "?cid < writer_cache_id fc1"
      by blast
    from v(3) O(3) obtain p f where p: "lru_value (fc_idx fc1) ?cid = Some p" "map_of (fc_objs fc1) p = Some f"
      "cf_id f = ?cid" by blast
    from v(2) O(2) [OF p(2)] obtain r where r: "cf_Read wbmode e lba f (fc_bytes fc1 ?cid) = Inr r"
      "v = (case r of None \<Rightarrow> [] | Some (_, w) \<Rightarrow> w)" unfolding answered_def by blast
    have "fc_content f ?fc = fc_bytes fc1 ?cid" by (simp add: fc_content_bytes p(3) new_file_bytes [OF files])
    moreover have "lru_value (fc_idx ?fc) ?cid = Some p" using v(4) p(1) by (auto simp: val(1))
    moreover have "map_of (fc_objs ?fc) p = Some f" using old(1) [OF p(2)] p(2) by simp
    ultimately show ?thesis
      using fc_Lookup_read [of ?fc k lba p f wbmode e r] 1(4) Some val(2) r v(1) by simp
  qed
  ultimately show ?thesis unfolding fc0_def by (auto simp: fs_def comp_def)
qed


lemma fc_open_entries_append:
  "fc_open_entries e (xs @ ys) fc = bnd (fc_open_entries e xs fc) (fc_open_entries e ys)"
  by (induction xs arbitrary: fc) (auto simp: bnd_def split: sum.splits)

text \<open>A key that was cut is where \<open>Open\<close> reads memory that was never written.\<close>

lemma cut_key_open:
  assumes e: "env_ok e" "reads_on e" and m: "m < 2 ^ 32" and dir: "distinct (map fst dir)"
    and files: "dir = map (\<lambda>cid. (cf_name cid, take (N cid) (log_bytes e (L cid)))) cids"
    and cids: "distinct cids" "\<And>cid. cid \<in> set cids \<Longrightarrow> unat cid < m \<and> (N cid = 0 \<or> 9 \<le> N cid)"
    and logs: "\<And>cid. length (log_bytes e (L cid)) < 2 ^ 32" "\<And>cid k v. (k, v) \<in> set (L cid) \<Longrightarrow> good_entry k v \<and> short_key k"
    and cut: "\<exists>cid \<in> set cids. repair_of (N cid) (L cid) = None"
  shows "fc_Open e (fc_construct cs file_size wbs gs gf dir) = Inl Uninitialised"
proof -
  let ?c = "\<lambda>cid. take (N cid) (log_bytes e (L cid))"
  let ?con = "\<lambda>cid (_ :: (byte list \<times> byte list) list). ?c cid"
  obtain c1 cid c2 where split: "cids = c1 @ cid # c2" "repair_of (N cid) (L cid) = None"
    "\<forall>cid \<in> set c1. repair_of (N cid) (L cid) \<noteq> None" using split_list_first_prop [OF cut] by blast
  define fc0 where "fc0 = fc_construct cs file_size wbs gs gf dir"
  define fs where "fs = map (\<lambda>cid. (cid, answers_of (N cid) (L cid))) c1"
  have fc0: "fc_dir fc0 = dir" "writer_cache_id fc0 = 0" by (simp_all add: fc0_def fc_construct_def)
  have held: "(n, c) \<in> set dir \<Longrightarrow> map_of dir n = Some c" for n c using dir by simp
  have ok: "open_ok (answered e) [] fc0" by (simp add: open_ok_def index_ok_def fc0_def fc_construct_def meta_new_def)
  have rc: "rc_entries ?con (map (\<lambda>cid. (cf_name cid, ?c cid)) c1) fs"
    by (simp add: rc_entries_def fs_def comp_def)
  have d: "distinct (map fst ([] @ fs))" using cids(1) by (simp add: fs_def comp_def split)
  have there: "\<forall>(n, c) \<in> set (map (\<lambda>cid. (cf_name cid, ?c cid)) c1). map_of (fc_dir fc0) n = Some c"
    using held by (auto simp: fc0 files split)
  have tk: "\<forall>(cid, recs) \<in> set fs. unat cid < m \<and> taken e (answered e) cid (?con cid recs) recs"
  proof -
    have "taken e (answered e) cid (?c cid) (answers_of (N cid) (L cid))" if "cid \<in> set c1" for cid
      using logs(2) split(3) that by (intro taken_cut [OF e _ logs(1)]) blast+
    then show ?thesis using cids(2) by (simp add: fs_def split(1))
  qed
  have "unat (writer_cache_id fc0) \<le> m" by (simp add: fc0)
  from fc_open_entries_taken [OF m rc d ok there tk this] obtain fc1 where
    1: "fc_open_entries e (map cf_name c1) fc0 = Inr fc1" "fc_dir fc1 = dir" by (auto simp: fc0 comp_def)
  let ?f = "snd (cf_Open (?c cid) (cf_new cid 0 0))"
  have "\<forall>(k, v) \<in> set (L cid). good_entry k v \<and> short_key k" using logs(2) by blast
  from torn_file_repaired [OF e(2) [THEN reads_on_whole] this logs(1) _ refl refl, of "N cid" cid] cids(2) [of cid]
  have "cf_Repair (length (?c cid) + 1) e ?f (?c cid) = Inl Uninitialised" by (simp add: split)
  moreover have "map_of dir (cf_name cid) = Some (?c cid)" by (rule held) (simp add: files split)
  ultimately have "fc_open_entry e (cf_name cid) fc1 = Inl Uninitialised"
    unfolding fc_open_entry_def cf_name_number Let_def by (simp add: 1(2) bnd_def)
  then have "fc_open_entries e (map fst dir) fc0 = Inl Uninitialised"
    using 1(1) by (simp add: files split comp_def fc_open_entries_append bnd_def)
  then show ?thesis by (simp add: fc_Open_def fc0_def fc_construct_def bnd_def)
qed

text \<open>
  In particular a value that was cut comes back empty. Let the server be killed when the last record
  of the only file on disk has its header and its key there and not all of its value: the size check
  of \<open>Deserialize\<close> refuses the record, and \<open>Lookup\<close> does not look at the status.
\<close>

lemma repair_of_value_cut:
  assumes "sizeof_hdr + length k \<le> m" "m < rec_len k v"
  shows "repair_of (length (log_bytes e kvs) + m) (kvs @ [(k, v)]) = Some (kvs @ [(k, v)])"
proof (induction kvs)
  case Nil
  show ?case using assms by (simp add: sizeof_hdr_def)
next
  case (Cons kv kvs)
  obtain j w where kv: "kv = (j, w)" by fastforce
  have "rec_len j w = sizeof_hdr + length j + length w" by (simp add: rec_len_def)
  then show ?case using Cons by (simp add: kv sizeof_hdr_def)
qed

lemma answers_of_value_cut:
  assumes "sizeof_hdr + length k \<le> m" "m < rec_len k v"
  shows "answers_of (length (log_bytes e kvs) + m) (kvs @ [(k, v)]) = kvs @ [(k, [])]"
proof (induction kvs)
  case (Cons kv kvs)
  obtain j w where kv: "kv = (j, w)" by fastforce
  have "rec_len j w = sizeof_hdr + length j + length w" by (simp add: rec_len_def)
  then show ?case using Cons by (simp add: kv sizeof_hdr_def)
qed (use assms in \<open>simp add: sizeof_hdr_def\<close>)

lemma cut_value_reads_empty:
  assumes "env_ok e" "reads_on e" "\<forall>(k, v) \<in> set (kvs @ [(k, v)]). good_entry k v \<and> short_key k"
    and "length (log_bytes e (kvs @ [(k, v)])) < 2 ^ 32" "k \<notin> fst ` set kvs" "unat cid + 1 < 2 ^ 32"
    and "sizeof_hdr + length k \<le> m" "m < rec_len k v"
    and "c = log_bytes e kvs @ take m (record_bytes (mk_record (env_crc e) k v))"
  shows "\<exists>fc. fc_Open e (fc_construct cs file_size wbs gs gf [(cf_name cid, c)]) = Inr (0, fc) \<and>
    (\<exists>fc'. fc_Lookup wbmode e k fc = Inr (Some [], fc')) \<and>
    (\<forall>j w. map_of kvs j = Some w \<longrightarrow> (\<exists>fc'. fc_Lookup wbmode e j fc = Inr (Some w, fc')))"
proof -
  let ?n = "length (log_bytes e kvs) + m" and ?kvs = "kvs @ [(k, v)]"
  have c: "c = take ?n (log_bytes e ?kvs)" using assms(9) by (simp add: log_bytes_append)
  have m: "unat cid + 1 < 2 ^ 32" by (rule assms(6))
  have "\<exists>fc. fc_Open e (fc_construct cs file_size wbs gs gf [(cf_name cid, c)]) = Inr (0, fc) \<and>
    (\<forall>wbmode j. let r = map_of (concat (map (\<lambda>_. answers_of ?n ?kvs) [cid])) j in
      \<exists>fc'. fc_Lookup wbmode e j fc = Inr (r, fc'))"
    using assms(3,4) repair_of_value_cut [OF assms(7,8), of e kvs]
    by (intro cut_files_open [OF assms(1,2) m, where N = "\<lambda>_. ?n" and L = "\<lambda>_. ?kvs"]) (auto simp: c)
  then obtain fc where fc: "fc_Open e (fc_construct cs file_size wbs gs gf [(cf_name cid, c)]) = Inr (0, fc)"
    "\<And>j. \<exists>fc'. fc_Lookup wbmode e j fc = Inr (map_of (kvs @ [(k, [])]) j, fc')"
    by (auto simp: answers_of_value_cut [OF assms(7,8)] Let_def)
  have "map_of kvs k = None" using assms(5) by (simp add: map_of_eq_None_iff)
  then have "map_of (kvs @ [(k, [])]) k = Some []" by (simp add: map_add_def)
  moreover have "map_of (kvs @ [(k, [])]) j = Some w" if "map_of kvs j = Some w" for j w
    using that by (simp add: map_add_def)
  ultimately show ?thesis using fc by metis
qed

section \<open>Runs\<close>

text \<open>
  A run of one insertion, with files of 30 bytes and buffers of at most 18: the record of 18 bytes
  fills a buffer, the thread of the file wakes and writes it.
\<close>

lemma one_insert:
  assumes e: "env_ok e" and w: "0 < wbs" "unat wbs \<le> 18"
  obtains s f where "buf_reach e (buf_start (opened_cache 100 30 wbs)) [BInsert ''k'' ''v''] s"
    "fc_objs (bs_fc s) = [(0, f)]" "fc_size (bs_fc s) = 18" "opt_cache_size (bs_fc s) = 100"
    "fst ` set (fc_dir (bs_fc s)) = {cf_name 0}" "\<not> eof f" "cf_wbs f = wbs" "cf_id f = 0" "sem_writer f = 1"
    "buf_doff f = 0" "bs_pc s = (\<lambda>_. AtWait)"
    "bs_log s = (\<lambda>_. [])(0 := record_bytes (mk_record (env_crc e) ''k'' ''v''))"
proof -
  let ?s0 = "buf_start (opened_cache 100 30 wbs)" and ?r = "record_bytes (mk_record (env_crc e) ''k'' ''v'')"
  obtain f where f: "cf_Append True e ''k'' ''v'' ((cf_new 0 30 wbs)\<lparr>cf_fd := FdOpen, tid := Running, sem_writer := 0\<rparr>) [] =
      Inr (True, \<lparr>lba_cache_id = 0, lba_off = 0, lba_size = 18\<rparr>, f, [])"
    "\<not> eof f" "cf_wbs f = wbs" "cf_id f = 0" "is_writer_running f"
    using first_append [of wbs "''k''" "''v''" e 0 30] w by (auto simp: writer_init_def cf_Create_def cf_new_def)
  have fr: "sem_writer f = 1" "buf_doff f = 0"
    using f(1,5) by (auto simp: cf_Append_def cf_DispatchBuffer_def cf_new_def bnd_eq_Inr Let_def split: if_splits)
  define fc1 where "fc1 = after_first ''k'' \<lparr>lba_cache_id = 0, lba_off = 0, lba_size = 18\<rparr> f (opened_cache 100 30 wbs)"
  have ins: "fc_Insert True e ''k'' ''v'' (opened_cache 100 30 wbs) = Inr (0, fc1)"
    unfolding fc1_def by (rule opened_cache_after_first [OF f(1)])
  have fc1: "fc_objs fc1 = [(0, f)]" "fc_cur fc1 = 0" "fc_size fc1 = 18" "opt_cache_size fc1 = 100"
    "fst ` set (fc_dir fc1) = {cf_name 0}"
    by (simp_all add: fc1_def) (simp_all add: after_first_def opened_cache_def fc_unlock_def fc_put_def f(4))
  define s1 where "s1 = ?s0\<lparr>bs_fc := fc1, bs_log := (bs_log ?s0)(cf_id f := bs_log ?s0 (cf_id f) @ ?r)\<rparr>"
  have "buf_step e (BInsert ''k'' ''v'') ?s0 s1"
    unfolding s1_def using ins fc1 by (intro buf_step.insert)
      (simp_all add: buf_start_def sample_good fc_room_def opened_cache_def)
  from buf_reach.step [OF buf_reach.start this] show ?thesis
    by (intro that [of s1 f]) (simp_all add: s1_def buf_start_def fc1 f fr)
qed

lemma one_flush:
  assumes e: "env_ok e" and w: "0 < wbs" "unat wbs \<le> 18"
  obtains s f where "buf_reach e (buf_start (opened_cache 100 30 wbs)) [BInsert ''k'' ''v'', BThread, BThread] s"
    "map_of (fc_objs (bs_fc s)) 0 = Some f" "cf_wbs f = wbs" "buf_doff f = 1" "cf_id f = 0"
    "bs_log s = (\<lambda>_. [])(0 := record_bytes (mk_record (env_crc e) ''k'' ''v''))"
    "fst ` set (fc_dir (bs_fc s)) = {cf_name 0}"
proof -
  let ?s0 = "buf_start (opened_cache 100 30 wbs)" and ?r = "record_bytes (mk_record (env_crc e) ''k'' ''v'')"
  have w0: "0 < unat wbs" using w(1) by (simp add: word_less_nat_alt)
  obtain s1 f where s1: "buf_reach e ?s0 [BInsert ''k'' ''v''] s1"
    "fc_objs (bs_fc s1) = [(0, f)]" "fc_size (bs_fc s1) = 18" "opt_cache_size (bs_fc s1) = 100"
    "fst ` set (fc_dir (bs_fc s1)) = {cf_name 0}" "\<not> eof f" "cf_wbs f = wbs" "cf_id f = 0" "sem_writer f = 1"
    "buf_doff f = 0" "bs_pc s1 = (\<lambda>_. AtWait)" "bs_log s1 = (\<lambda>_. [])(0 := ?r)" by (rule one_insert [OF assms])
  define f1 where "f1 = f\<lparr>sem_writer := sem_writer f - 1\<rparr>"
  define s2 where "s2 = s1\<lparr>bs_fc := fc_set_obj 0 f1 (bs_fc s1), bs_pc := (bs_pc s1)(0 := AtLoop)\<rparr>"
  have "thread_move e 0 s1 s2"
    unfolding s2_def f1_def using s1 by (intro thread_move.wake) simp_all
  then have reach2: "buf_reach e ?s0 [BInsert ''k'' ''v'', BThread] s2"
    using buf_reach.step [OF s1(1) buf_step.thread] by fastforce
  have s2: "bs_log s2 = bs_log s1" "bs_pc s2 0 = AtLoop" "map_of (fc_objs (bs_fc s2)) 0 = Some f1"
    "fc_size (bs_fc s2) = 18" "opt_cache_size (bs_fc s2) = 100" "fst ` set (fc_dir (bs_fc s2)) = {cf_name 0}"
    by (simp_all add: s2_def s1) (simp_all add: fc_set_obj_def s1)
  have f1: "cf_wbs f1 = wbs" "cf_id f1 = 0" "buf_doff f1 = 0" "\<not> eof f1" by (simp_all add: f1_def s1)
  have ok: "bs_ok e ?s0" using buf_open [OF e w(1), of 30 100 0 0] opened_cache_Open [of e 100 30 wbs] by auto
  from bs_okD(5) [OF buf_reach_ok [OF reach2 ok] s2(3)]
  have b: "bufs_of f1 ?r" "buf_woff f1 = 18 div unat wbs" "cf_fd f1 = FdOpen"
    using f1 s2(2) by (auto simp: file_ok_def writer_ok_def file_view_def Let_def s2(1) s1(12))
  then obtain n where n: "18 \<le> n * unat wbs" "cf_bufs f1 = mk_bufs (unat wbs) n ?r"
    by (auto simp: bufs_of_def f1(1))
  then have "0 < n" by (auto intro: gr0I)
  then have bufs: "0 < length (cf_bufs f1)" "wb_used (cf_bufs f1 ! 0) = unat wbs"
    using w(2) by (simp_all add: wb_used_def n(2))
  obtain g c where wr: "cf_write_one e (\<lambda>_. False) f1 (fc_content f1 (bs_fc s2)) = Inr (g, c)"
    "g = f1\<lparr>filesize := filesize f1 + word_of_nat (wb_used (cf_bufs f1 ! buf_doff f1)), buf_doff := buf_doff f1 + 1\<rparr>"
    using cf_write_one_done [OF e, of f1 "fc_content f1 (bs_fc s2)"] b(3) f1(3) bufs(1) by auto
  have "round_bits 24 (unat (word_of_nat (unat wbs) + 18 :: u64)) \<le> round_bits 24 100"
  proof -
    have "unat (ucast wbs :: u64) = unat wbs" using w(2) by (simp add: unsigned_ucast_eq take_bit_nat_eq_self)
    then show ?thesis using w(2) by (simp add: round_bits_exact unat_word_ariths)
  qed
  then have ev: "fc_Evict True e (Some 0) (word_of_nat (wb_used (cf_bufs f1 ! buf_doff f1))) (bs_fc s2) = Inr (bs_fc s2)"
    by (simp add: fc_Evict.simps [of True] fc_over_def f1 bufs s2)
  have "0 < 18 div unat wbs" using w0 w(2) by (simp add: div_greater_zero_iff)
  then have "thread_move e 0 s2 (s2\<lparr>bs_fc := fc_put 0 g c (bs_fc s2)\<rparr>)"
    using wr(1) b(2) bufs(1) by (intro thread_move.flush [OF s2(3,2) _ _ ev]) (simp_all add: f1)
  from buf_reach.step [OF reach2 buf_step.thread [OF this]]
  have "buf_reach e ?s0 [BInsert ''k'' ''v'', BThread, BThread] (s2\<lparr>bs_fc := fc_put 0 g c (bs_fc s2)\<rparr>)" by simp
  then show ?thesis
    by (rule that [of _ g])
      (simp_all add: fc_put_def update_conv' wr(2) f1 s2 s1 dom_update)
qed

text \<open>
  Killed then, the server leaves a file with a header and nothing else. When it starts again,
  \<open>Repair\<close> takes the key of the record from memory that was never written.
\<close>

theorem killed_cache_repairs_witness:
  "\<exists>s f g c. buf_reach sample_env (buf_start sample_buffered) [BInsert ''k'' ''v'', BThread, BThread] s \<and>
    map_of (fc_objs (bs_fc s)) 0 = Some f \<and> c = fc_content f (bs_fc s) \<and>
    g = snd (cf_Open c (cf_new (cf_id f) 0 0)) \<and> cf_Repair (length c + 1) sample_env g c = Inl Uninitialised"
proof -
  obtain s f where r: "buf_reach sample_env (buf_start sample_buffered) [BInsert ''k'' ''v'', BThread, BThread] s"
    "map_of (fc_objs (bs_fc s)) 0 = Some f" "cf_wbs f = 16" "buf_doff f = 1" "cf_id f = 0"
    "bs_log s 0 = record_bytes (mk_record (env_crc sample_env) ''k'' ''v'')"
    by (rule one_flush [OF env_ok_sample, of 16]) (simp_all add: sample_buffered_def)
  let ?c = "fc_content f (bs_fc s)" and ?evs = "[BInsert ''k'' ''v'', BThread, BThread]"
  let ?g = "snd (cf_Open ?c (cf_new (cf_id f) 0 0))"
  have short: "\<forall>k v. BInsert k v \<in> set ?evs \<longrightarrow> short_key k" by (simp add: short_key_def)
  have wbs: "9 \<le> unat (cf_wbs f)" by (simp add: r)
  from killed_cache_repairs [OF _ _ _ _ sample_buffered_Open r(1) short r(2) wbs refl refl]
  obtain kvs where kvs: "\<forall>(k, v) \<in> set kvs. BInsert k v \<in> set ?evs" "bs_log s (cf_id f) = log_bytes sample_env kvs"
    "cf_Repair (length ?c + 1) sample_env ?g ?c =
      (case repair_of (buf_doff f * unat (cf_wbs f)) kvs of None \<Rightarrow> Inl Uninitialised
       | Some ks \<Rightarrow> Inr (?g\<lparr>key_lists := map fst ks\<rparr>, log_index (cf_id f) 0 ks))"
    by auto
  have "kvs \<noteq> []" using kvs(2) r(5,6) by (auto simp: record_bytes_def dest: arg_cong [of _ _ length])
  then obtain k v rest where kv: "kvs = (k, v) # rest" by (cases kvs) auto
  with kvs(1) have "k = ''k''" "v = ''v''" by auto
  then have "repair_of 16 kvs = None" by (simp add: kv sizeof_hdr_def)
  then show ?thesis using kvs(3) r by auto
qed

lemma reads_on_sample [simp]: "reads_on sample_env"
  by (simp add: reads_on_def sample_env_def)

lemma cut_value_example:
  "\<exists>fc. fc_Open sample_env (fc_construct 100 30 16 0 0 [(cf_name 0, log_bytes sample_env [(''a'', ''x'')] @
      take 18 (record_bytes (mk_record (env_crc sample_env) ''b'' ''yz'')))]) = Inr (0, fc) \<and>
    (\<exists>fc'. fc_Lookup True sample_env ''b'' fc = Inr (Some [], fc')) \<and>
    (\<exists>fc'. fc_Lookup True sample_env ''a'' fc = Inr (Some ''x'', fc'))"
proof -
  have good: "\<forall>(k, v) \<in> set ([(''a'', ''x'')] @ [(''b'', ''yz'')]). good_entry k v \<and> short_key k"
    by (simp add: good_entry_def no_nul_def rec_len_def sizeof_hdr_def short_key_def)
  have len: "length (log_bytes sample_env ([(''a'', ''x'')] @ [(''b'', ''yz'')])) < 2 ^ 32"
    by (simp add: log_bytes_append rec_len_def sizeof_hdr_def)
  show ?thesis
    using cut_value_reads_empty [OF env_ok_sample reads_on_sample good len, of 0 18
        "log_bytes sample_env [(''a'', ''x'')] @ take 18 (record_bytes (mk_record (env_crc sample_env) ''b'' ''yz''))"
        100 30 16 0 0 True] by (auto simp: rec_len_def sizeof_hdr_def simp del: log_bytes_simps)
qed

end
