(* ===== verification/Killed.thy ===== *)
theory Killed
  imports TornLog
begin

text \<open>
  From a kill to the next start, in the write-buffer mode: what the directory of the killed cache
  holds, whether \<open>Open\<close> gets through it, and what every lookup answers then.
\<close>

section \<open>The directory of a running cache\<close>

text \<open>
  Every file of the directory belongs to an object of the cache, and the objects have the size of
  buffers that the cache was constructed with.
\<close>

definition dir_held :: "u32 \<Rightarrow> flash_cache \<Rightarrow> bool" where
  "dir_held w fc \<longleftrightarrow> opt_wbs fc = w \<and> (\<forall>p f. map_of (fc_objs fc) p = Some f \<longrightarrow> p < fc_next fc \<and> cf_wbs f = w) \<and>
     (\<forall>n. map_of (fc_dir fc) n \<noteq> None \<longrightarrow>
        (\<exists>p f. map_of (fc_objs fc) p = Some f \<and> n = cf_name (cf_id f)))"

lemma dir_held_frame:
  "dir_held w fc \<Longrightarrow> fc_objs fc' = fc_objs fc \<Longrightarrow> fc_next fc' = fc_next fc \<Longrightarrow> fc_dir fc' = fc_dir fc \<Longrightarrow>
   opt_wbs fc' = opt_wbs fc \<Longrightarrow> dir_held w fc'"
  by (simp add: dir_held_def)

lemma dir_held_obj:
  assumes held: "dir_held w fc" and f: "map_of (fc_objs fc) p = Some f" "cf_id g = cf_id f \<and> cf_wbs g = cf_wbs f"
    and fc': "map_of (fc_objs fc') = (map_of (fc_objs fc))(p \<mapsto> g)" "fc_next fc' = fc_next fc" "opt_wbs fc' = opt_wbs fc"
      "map_of (fc_dir fc') = map_of (fc_dir fc) \<or> map_of (fc_dir fc') = (map_of (fc_dir fc))(cf_name (cf_id f) \<mapsto> c)"
  shows "dir_held w fc'"
  unfolding dir_held_def fc'(1-3)
proof (intro conjI allI impI)
  show "opt_wbs fc = w" using held by (simp add: dir_held_def)
next
  fix q h assume "((map_of (fc_objs fc))(p \<mapsto> g)) q = Some h"
  then show "q < fc_next fc" "cf_wbs h = w" using held f by (auto simp: dir_held_def split: if_splits)
next
  fix n assume "map_of (fc_dir fc') n \<noteq> None"
  then have "n = cf_name (cf_id f) \<or> map_of (fc_dir fc) n \<noteq> None" using fc'(4) by (auto split: if_splits)
  then obtain q h where q: "map_of (fc_objs fc) q = Some h" "n = cf_name (cf_id h)"
    using held f(1) unfolding dir_held_def by blast
  show "\<exists>q h. ((map_of (fc_objs fc))(p \<mapsto> g)) q = Some h \<and> n = cf_name (cf_id h)"
  proof (cases "q = p")
    case True
    then show ?thesis using q f by (intro exI [of _ p] exI [of _ g]) simp
  next
    case False
    then show ?thesis using q by (intro exI [of _ q] exI [of _ h]) simp
  qed
qed

lemma dir_held_put:
  "dir_held w fc \<Longrightarrow> map_of (fc_objs fc) p = Some f \<Longrightarrow> cf_id g = cf_id f \<and> cf_wbs g = cf_wbs f \<Longrightarrow>
   dir_held w (fc_put p g c fc)"
  by (rule dir_held_obj [of w fc p f g _ c]) (simp_all add: fc_put_def update_conv')

lemma dir_held_set_obj:
  "dir_held w fc \<Longrightarrow> map_of (fc_objs fc) p = Some f \<Longrightarrow> cf_id g = cf_id f \<and> cf_wbs g = cf_wbs f \<Longrightarrow>
   dir_held w (fc_set_obj p g fc)"
  by (rule dir_held_obj [of w fc p f g]) (simp_all add: fc_set_obj_def update_conv')

lemma dir_held_new:
  assumes "dir_held w fc" "fc_NewCacheFile fc = Inr (r, fc')"
  shows "dir_held w fc'"
proof -
  from assms(2) have "\<exists>f. cf_id f = writer_cache_id fc \<and> cf_wbs f = opt_wbs fc \<and> opt_wbs fc' = opt_wbs fc \<and> fc_objs fc' = (fc_next fc, f) # fc_objs fc \<and>
    fc_next fc' = Suc (fc_next fc) \<and>
    (fc_dir fc' = fc_dir fc \<or> fc_dir fc' = AList.update (cf_name (writer_cache_id fc)) [] (fc_dir fc))"
    by (auto simp: fc_NewCacheFile_def cf_Create_def cf_new_def Let_def bnd_eq_Inr split: if_splits option.splits)
  then obtain f where f: "cf_id f = writer_cache_id fc" "fc_objs fc' = (fc_next fc, f) # fc_objs fc"
    "cf_wbs f = opt_wbs fc" "opt_wbs fc' = opt_wbs fc" "fc_next fc' = Suc (fc_next fc)"
    "fc_dir fc' = fc_dir fc \<or> fc_dir fc' = AList.update (cf_name (writer_cache_id fc)) [] (fc_dir fc)" by blast
  have new: "\<not> q < fc_next fc \<Longrightarrow> map_of (fc_objs fc) q = None" for q
    using assms(1) unfolding dir_held_def by (metis not_None_eq)
  show ?thesis
    unfolding dir_held_def f(2,4,5)
  proof (intro conjI allI impI)
    show "opt_wbs fc = w" using assms(1) by (simp add: dir_held_def)
  next
    fix q h assume "map_of ((fc_next fc, f) # fc_objs fc) q = Some h"
    then show "q < Suc (fc_next fc)" "cf_wbs h = w" using assms(1) f(3) by (auto simp: dir_held_def less_Suc_eq split: if_splits)
  next
    fix n assume "map_of (fc_dir fc') n \<noteq> None"
    then have "n = cf_name (writer_cache_id fc) \<or> map_of (fc_dir fc) n \<noteq> None"
      using f(6) by (auto simp: update_conv' split: if_splits)
    then show "\<exists>q h. map_of ((fc_next fc, f) # fc_objs fc) q = Some h \<and> n = cf_name (cf_id h)"
    proof
      assume "map_of (fc_dir fc) n \<noteq> None"
      then obtain q h where q: "map_of (fc_objs fc) q = Some h" "n = cf_name (cf_id h)"
        using assms(1) unfolding dir_held_def by blast
      then have "q \<noteq> fc_next fc" using new [of "fc_next fc"] by auto
      with q show ?thesis by (intro exI [of _ q] exI [of _ h]) simp
    qed (use f(1) in auto)
  qed
qed

lemma cf_Append_id: "cf_Append wbmode e k v f c = Inr (ok, lba, g, c') \<Longrightarrow>
   cf_id g = cf_id f \<and> cf_wbs g = cf_wbs f"
  by (auto simp: cf_Append_def cf_Write_direct_def cf_DispatchBuffer_def Let_def bnd_eq_Inr
      split: if_splits fd_state.splits)

lemma dir_held_append_loop:
  "fc_append_loop fuel wbmode e k v fc = Inr (r, fc') \<Longrightarrow> dir_held w fc \<Longrightarrow> dir_held w fc'"
proof (induction fuel wbmode e k v fc rule: fc_append_loop.induct)
  case (2 fuel wbmode e k v fc)
  from "2.prems"(1) obtain f ok lba g c where st: "fc_obj (fc_cur fc) fc = Inr f"
    "cf_Append wbmode e k v f (fc_content f fc) = Inr (ok, lba, g, c)"
    by (auto simp: bnd_eq_Inr)
  then have f: "map_of (fc_objs fc) (fc_cur fc) = Some f" by (simp add: fc_obj_def split: option.splits)
  let ?fc1 = "fc_put (fc_cur fc) g c fc"
  have 1: "dir_held w ?fc1" by (rule dir_held_put [OF "2.prems"(2) f cf_Append_id [OF st(2)]])
  consider "fc' = ?fc1" | r' fc2 where "\<not> ok" "eof g" "fc_NewCacheFile ?fc1 = Inr (r', fc2)"
      "fc' = fc2 \<or> (r' = 0 \<and> fc_append_loop fuel wbmode e k v fc2 = Inr (r, fc'))"
    using "2.prems"(1) st by (auto simp: bnd_eq_Inr Let_def split: if_splits)
  then show ?case
  proof cases
    case 2
    have held: "dir_held w fc2" by (rule dir_held_new [OF 1 2(3)])
    from 2(4) show ?thesis
    proof
      assume "r' = 0 \<and> fc_append_loop fuel wbmode e k v fc2 = Inr (r, fc')"
      then show ?thesis using "2.IH" st 2(1-3) held by simp
    qed (simp add: held)
  qed (simp add: 1)
qed simp

lemma dir_held_Insert:
  assumes "fc_Insert wbmode e k v fc = Inr (r, fc')" "dir_held w fc"
  shows "dir_held w fc'"
proof -
  have "dir_held w (fc\<lparr>fcache_mutex := True\<rparr>)" by (rule dir_held_frame [OF assms(2)]) simp_all
  moreover from assms(1) obtain a fc1 where "fc_append_loop 2 wbmode e k v (fc\<lparr>fcache_mutex := True\<rparr>) = Inr (a, fc1)"
    "fc_objs fc' = fc_objs fc1" "fc_next fc' = fc_next fc1" "fc_dir fc' = fc_dir fc1" "opt_wbs fc' = opt_wbs fc1"
    by (auto simp: fc_Insert_def fc_lock_def fc_unlock_def bnd_eq_Inr split: if_splits option.splits)
  ultimately show ?thesis using dir_held_append_loop dir_held_frame by metis
qed

lemma dir_held_Lookup: "fc_Lookup wbmode e k fc = Inr (r, fc') \<Longrightarrow> dir_held w fc \<Longrightarrow> dir_held w fc'"
  by (rule dir_held_frame [of w fc])
    (auto simp: fc_Lookup_def fc_lock_def fc_unlock_def bnd_eq_Inr Let_def split: if_splits option.splits)

lemma dir_held_evict_one:
  assumes "fc_evict_one wbmode e caller fc = Inr fc'" "dir_held w fc"
  shows "dir_held w fc'"
proof -
  from assms(1) obtain p f where p: "map_of (fc_objs fc) p = Some f" "fc_next fc' = fc_next fc" "opt_wbs fc' = opt_wbs fc"
    "map_of (fc_dir fc') = (map_of (fc_dir fc))(cf_name (cf_id f) := None)"
    "map_of (fc_objs fc') = (map_of (fc_objs fc))(p := None)"
    by (auto simp: fc_evict_one_def bnd_eq_Inr delete_conv' fc_obj_def split: if_splits option.splits)
  show ?thesis
    unfolding dir_held_def p(2-5)
  proof (intro conjI allI impI)
    show "opt_wbs fc = w" using assms(2) by (simp add: dir_held_def)
  next
    fix q g assume "((map_of (fc_objs fc))(p := None)) q = Some g"
    then show "q < fc_next fc" "cf_wbs g = w" using assms(2) by (auto simp: dir_held_def split: if_splits)
  next
    fix n assume n: "((map_of (fc_dir fc))(cf_name (cf_id f) := None)) n \<noteq> None"
    then obtain q g where q: "map_of (fc_objs fc) q = Some g" "n = cf_name (cf_id g)"
      using assms(2) unfolding dir_held_def by (metis fun_upd_apply)
    with n p(1) have "q \<noteq> p" by auto
    with q show "\<exists>q g. ((map_of (fc_objs fc))(p := None)) q = Some g \<and> n = cf_name (cf_id g)"
      by (intro exI [of _ q] exI [of _ g]) simp
  qed
qed

lemma dir_held_Evict: "fc_Evict wbmode e caller sz fc = Inr fc' \<Longrightarrow> dir_held w fc \<Longrightarrow> dir_held w fc'"
proof (induction wbmode e caller sz fc rule: fc_Evict.induct)
  case (1 wbmode e caller sz fc)
  show ?case
  proof (cases "fc_over sz fc")
    case True
    with "1.prems" obtain fc1 fc2 where st: "fc_lock fc = Inr fc1"
      "fc_evict_one wbmode e caller fc1 = Inr fc2" "fc_Evict wbmode e caller sz (fc_unlock fc2) = Inr fc'"
      by (auto simp: fc_Evict.simps [of wbmode e _ sz fc] bnd_eq_Inr)
    have "dir_held w fc1" using st(1)
      by (auto simp: fc_lock_def split: if_splits intro: dir_held_frame [OF "1.prems"(2)])
    from dir_held_evict_one [OF st(2) this] have "dir_held w (fc_unlock fc2)"
      by (rule dir_held_frame) (simp_all add: fc_unlock_def)
    then show ?thesis using "1.IH" True st by simp
  qed (use "1.prems" in \<open>simp add: fc_Evict.simps [of wbmode e _ sz fc]\<close>)
qed

lemma dir_held_move:
  assumes "thread_move e p s s'" "dir_held w (bs_fc s)"
  shows "dir_held w (bs_fc s')"
  using assms(1)
proof (cases rule: thread_move.cases)
  case (flush f fc g c)
  have held: "dir_held w fc" by (rule dir_held_Evict [OF flush(6) assms(2)])
  have "map_of (fc_objs fc) p = Some f" using fc_Evict_caller [OF flush(6)] flush(2) by simp
  from dir_held_put [OF held this] cf_write_one_Inr [OF flush(7)] show ?thesis
    by (auto simp: flush(1) Let_def)
qed (use assms(2) dir_held_set_obj in \<open>auto simp: cf_ClearBuffers_def\<close>)

lemma dir_held_step:
  assumes "buf_step e ev s s'" "dir_held w (bs_fc s)"
  shows "dir_held w (bs_fc s')"
  using assms(1)
proof (cases rule: buf_step.cases)
  case (delete k)
  then show ?thesis using dir_held_frame [OF assms(2)] by (simp add: fc_DeleteMetaData_def)
qed (use assms(2) dir_held_Insert dir_held_Lookup dir_held_move in auto)

lemma dir_held_reach: "buf_reach e s0 evs s \<Longrightarrow> dir_held w (bs_fc s0) \<Longrightarrow> dir_held w (bs_fc s)"
  by (induction rule: buf_reach.induct) (auto intro: dir_held_step)

lemma dir_held_opened:
  assumes "fc_Open e (fc_construct cs file_size wbs gs gf []) = Inr (r, fc)"
  shows "dir_held wbs fc"
proof -
  have "dir_held wbs (fc_construct cs file_size wbs gs gf [])" by (simp add: dir_held_def fc_construct_def)
  moreover from assms obtain r' where "fc_NewCacheFile (fc_construct cs file_size wbs gs gf []) = Inr (r', fc)"
    by (auto simp: fc_Open_def fc_construct_def bnd_eq_Inr)
  ultimately show ?thesis by (rule dir_held_new)
qed

section \<open>The directory of a killed cache\<close>

text \<open>The entries of a directory, by the numbers of the files.\<close>

lemma named_entries:
  assumes "distinct (map fst dir)" "\<And>x. x \<in> set dir \<Longrightarrow> \<exists>cid n. P cid n \<and> x = (cf_name cid, con cid n)"
  shows "\<exists>N cids. dir = map (\<lambda>cid. (cf_name cid, con cid (N cid))) cids \<and> distinct cids \<and>
    (\<forall>cid \<in> set cids. P cid (N cid))"
  using assms
proof (induction dir)
  case (Cons x dir)
  have "\<exists>N cids. dir = map (\<lambda>cid. (cf_name cid, con cid (N cid))) cids \<and> distinct cids \<and>
      (\<forall>cid \<in> set cids. P cid (N cid))"
    using Cons.prems by (intro Cons.IH) simp_all
  then obtain N cids where N: "dir = map (\<lambda>cid. (cf_name cid, con cid (N cid))) cids" "distinct cids"
    "\<forall>cid \<in> set cids. P cid (N cid)" by blast
  obtain cid n where x: "P cid n" "x = (cf_name cid, con cid n)" using Cons.prems(2) [of x] by auto
  have new: "cid \<notin> set cids" using Cons.prems(1) by (auto simp: x(2) N(1))
  then have "dir = map (\<lambda>c. (cf_name c, con c ((N(cid := n)) c))) cids" unfolding N(1) by auto
  then show ?case
    using new N(2,3) x by (intro exI [of _ "N(cid := n)"] exI [of _ "cid # cids"]) simp
qed simp

text \<open>The directory of a killed cache: for each file a number of bytes of the log of its records.\<close>

lemma killed_dir:
  assumes ok: "bs_ok e s" and held: "dir_held wbs (bs_fc s)" and wbs: "9 \<le> unat wbs"
    and dir: "map_of dir = map_of (fc_dir (bs_fc s))" "distinct (map fst dir)"
  obtains N cids where "dir = map (\<lambda>cid. (cf_name cid, take (N cid) (bs_log s cid))) cids" "distinct cids"
    "\<And>cid. cid \<in> set cids \<Longrightarrow> unat cid < unat (writer_cache_id (bs_fc s)) \<and> (N cid = 0 \<or> 9 \<le> N cid)"
proof -
  note shape = bs_okD(4) [OF ok]
  have "\<exists>cid n. (unat cid < unat (writer_cache_id (bs_fc s)) \<and> (n = 0 \<or> 9 \<le> n)) \<and>
      x = (cf_name cid, take n (bs_log s cid))" if "x \<in> set dir" for x
  proof -
    obtain n c where x: "x = (n, c)" by fastforce
    have c: "map_of (fc_dir (bs_fc s)) n = Some c" using that dir x by (metis map_of_eq_Some_iff)
    then obtain p f where f: "map_of (fc_objs (bs_fc s)) p = Some f" "n = cf_name (cf_id f)" "cf_wbs f = wbs"
      using held unfolding dir_held_def by (metis option.distinct(1))
    from bs_okD(5) [OF ok f(1)] have "fc_content f (bs_fc s) = take (buf_doff f * unat wbs) (bs_log s (cf_id f))"
      by (simp add: file_ok_def writer_ok_def file_view_def Let_def f(3))
    then have "c = take (buf_doff f * unat wbs) (bs_log s (cf_id f))"
      using c by (simp add: fc_content_def f(2))
    moreover have "buf_doff f * unat wbs = 0 \<or> 9 \<le> buf_doff f * unat wbs" using wbs by (cases "buf_doff f") auto
    moreover have "unat (cf_id f) < unat (writer_cache_id (bs_fc s))"
      using files_okD(2) [OF fc_shapeD(2) [OF shape]] fc_shapeD(5) [OF shape f(1)]
      unfolding word_less_nat_alt by blast
    ultimately show ?thesis unfolding x f(2) by blast
  qed
  from named_entries [OF dir(2) this] show ?thesis using that by blast
qed

text \<open>The kill and the next start.\<close>

lemma killed_cache_open:
  assumes "env_ok e" "reads_on e" "9 \<le> unat wbs" "unat file_size \<le> 2 ^ 31"
    and "fc_Open e (fc_construct cs file_size wbs gs gf []) = Inr (0, fc)"
    and "buf_reach e (buf_start fc) evs s" "\<forall>k v. BInsert k v \<in> set evs \<longrightarrow> short_key k"
    and "map_of dir = map_of (fc_dir (bs_fc s))" "distinct (map fst dir)"
  shows "\<exists>L N cids. (\<forall>cid. bs_log s cid = log_bytes e (L cid)) \<and>
    (\<forall>cid k v. (k, v) \<in> set (L cid) \<longrightarrow> BInsert k v \<in> set evs \<and> good_entry k v) \<and>
    dir = map (\<lambda>cid. (cf_name cid, take (N cid) (log_bytes e (L cid)))) cids \<and>
    (if \<exists>cid \<in> set cids. repair_of (N cid) (L cid) = None
     then fc_Open e (fc_construct cs' file_size' wbs' gs' gf' dir) = Inl Uninitialised
     else \<exists>fc1. fc_Open e (fc_construct cs' file_size' wbs' gs' gf' dir) = Inr (0, fc1) \<and>
       (\<forall>wbmode k. \<exists>fc2. fc_Lookup wbmode e k fc1 =
          Inr (map_of (concat (map (\<lambda>cid. answers_of (N cid) (L cid)) cids)) k, fc2)))"
proof -
  have "0 < wbs" using assms(3) by (auto simp: word_gt_0)
  from buf_open [OF assms(1) this assms(4), of cs gs gf] assms(5) have start: "bs_ok e (buf_start fc)" by auto
  have "bs_log (buf_start fc) = (\<lambda>_. [])" by (simp add: buf_start_def)
  then obtain L where L: "\<And>cid. bs_log s cid = log_bytes e (L cid)" "\<And>cid. length (bs_log s cid) < 2 ^ 32"
    "\<And>cid k v. (k, v) \<in> set (L cid) \<Longrightarrow> good_entry k v \<and> BInsert k v \<in> set evs"
    using buf_reach_logs [OF assms(6) start] by blast
  have "dir_held wbs (bs_fc (buf_start fc))" by (simp add: buf_start_def dir_held_opened [OF assms(5)])
  then have "dir_held wbs (bs_fc s)" by (rule dir_held_reach [OF assms(6)])
  from killed_dir [OF buf_reach_ok [OF assms(6) start] this assms(3,8,9)] obtain N cids where
    dir: "dir = map (\<lambda>cid. (cf_name cid, take (N cid) (log_bytes e (L cid)))) cids"
    and cids: "distinct cids"
      "\<And>cid. cid \<in> set cids \<Longrightarrow> unat cid < unat (writer_cache_id (bs_fc s)) \<and> (N cid = 0 \<or> 9 \<le> N cid)"
    unfolding L(1) by blast
  have m: "unat (writer_cache_id (bs_fc s)) < 2 ^ 32"
  proof -
    have "unat (writer_cache_id (bs_fc s)) < 2 ^ LENGTH(32)" by (rule unsigned_less)
    then show ?thesis by simp
  qed
  have logs: "length (log_bytes e (L cid)) < 2 ^ 32"
    "(k, v) \<in> set (L cid) \<Longrightarrow> good_entry k v \<and> short_key k" for cid k v
    using L(2) [of cid] L(3) assms(7) unfolding L(1) by blast+
  have "filter (\<lambda>x. ends_with_rc (fst x)) dir = dir" by (auto simp: dir filter_id_conv)
  note rc = trans [OF this dir]
  show ?thesis
    using L dir cut_key_open [OF assms(1,2) m assms(9) dir cids logs]
      cut_files_open [OF assms(1,2) m assms(9) rc cids(1) _ logs] cids(2)
    by (intro exI [of _ L] exI [of _ N] exI [of _ cids]) (auto simp: Let_def)
qed

lemma answers_of_mem: "(k, v) \<in> set (answers_of n kvs) \<Longrightarrow> \<exists>w. (k, w) \<in> set kvs \<and> (v = [] \<or> v = w)"
  by (induction n kvs rule: answers_of.induct) (auto split: if_splits)

text \<open>The answers are values that were inserted, or empty.\<close>

lemma killed_cache_answers:
  assumes "env_ok e" "reads_on e" "9 \<le> unat wbs" "unat file_size \<le> 2 ^ 31"
    and "fc_Open e (fc_construct cs file_size wbs gs gf []) = Inr (0, fc)"
    and "buf_reach e (buf_start fc) evs s" "\<forall>k v. BInsert k v \<in> set evs \<longrightarrow> short_key k"
    and "map_of dir = map_of (fc_dir (bs_fc s))" "distinct (map fst dir)"
  shows "fc_Open e (fc_construct cs' file_size' wbs' gs' gf' dir) = Inl Uninitialised \<or>
    (\<exists>fc1. fc_Open e (fc_construct cs' file_size' wbs' gs' gf' dir) = Inr (0, fc1) \<and>
      (\<forall>wbmode k. \<exists>r fc2. fc_Lookup wbmode e k fc1 = Inr (r, fc2) \<and>
        (\<forall>v. r = Some v \<longrightarrow> good_entry k v \<and> (\<exists>w. BInsert k w \<in> set evs \<and> (v = [] \<or> v = w)))))"
proof -
  from killed_cache_open [OF assms, of cs' file_size' wbs' gs' gf'] obtain N cids and L :: "u32 \<Rightarrow> (byte list \<times> byte list) list" where
    L: "\<forall>cid k v. (k, v) \<in> set (L cid) \<longrightarrow> BInsert k v \<in> set evs \<and> good_entry k v"
    and R: "if \<exists>cid \<in> set cids. repair_of (N cid) (L cid) = None
     then fc_Open e (fc_construct cs' file_size' wbs' gs' gf' dir) = Inl Uninitialised
     else \<exists>fc1. fc_Open e (fc_construct cs' file_size' wbs' gs' gf' dir) = Inr (0, fc1) \<and>
       (\<forall>wbmode k. \<exists>fc2. fc_Lookup wbmode e k fc1 =
          Inr (map_of (concat (map (\<lambda>cid. answers_of (N cid) (L cid)) cids)) k, fc2))"
    by blast
  have ans: "good_entry k v \<and> (\<exists>w. BInsert k w \<in> set evs \<and> (v = [] \<or> v = w))"
    if "map_of (concat (map (\<lambda>cid. answers_of (N cid) (L cid)) cids)) k = Some v" for k v
  proof -
    from map_of_SomeD [OF that] obtain cid where "(k, v) \<in> set (answers_of (N cid) (L cid))" by auto
    from answers_of_mem [OF this] L obtain w where w: "BInsert k w \<in> set evs" "good_entry k w" "v = [] \<or> v = w" by blast
    then have "good_entry k v" by (auto simp: good_entry_def rec_len_def no_nul_def)
    with w show ?thesis by blast
  qed
  show ?thesis
  proof (cases "\<exists>cid \<in> set cids. repair_of (N cid) (L cid) = None")
    case False
    with R obtain fc1 where "fc_Open e (fc_construct cs' file_size' wbs' gs' gf' dir) = Inr (0, fc1)"
      "\<And>wbmode k. \<exists>fc2. fc_Lookup wbmode e k fc1 =
          Inr (map_of (concat (map (\<lambda>cid. answers_of (N cid) (L cid)) cids)) k, fc2)" by auto
    with ans show ?thesis by meson
  qed (use R in simp)
qed

section \<open>Properties\<close>

text \<open>
  C15: From a kill to the next start, in the write-buffer mode. Kill the server at any moment of a
  run that began on an empty directory, evictions included, and start it again with any options on the
  directory as it is then, in whatever order it is read. Each file holds the first bytes of the log of
  records that were inserted. When one of them is cut before the end of a key, \<open>Open\<close> reads memory
  that was never written; otherwise it succeeds, and every lookup, in either mode, answers the value
  of the first record of the key that is there whole, the empty string when the first one has its value cut, and a miss
  when there is none (keys of 1 to 255 bytes, buffers of at least 9).
\<close>

theorem killed_cache_restarts:
  assumes "env_ok e" "reads_on e" "9 \<le> unat wbs" "unat file_size \<le> 2 ^ 31"
    and "fc_Open e (fc_construct cs file_size wbs gs gf []) = Inr (0, fc)"
    and "buf_reach e (buf_start fc) evs s" "\<forall>k v. BInsert k v \<in> set evs \<longrightarrow> short_key k"
    and "map_of dir = map_of (fc_dir (bs_fc s))" "distinct (map fst dir)"
  shows "\<exists>L N cids. (\<forall>cid. bs_log s cid = log_bytes e (L cid)) \<and>
    (\<forall>cid k v. (k, v) \<in> set (L cid) \<longrightarrow> BInsert k v \<in> set evs) \<and>
    dir = map (\<lambda>cid. (cf_name cid, take (N cid) (log_bytes e (L cid)))) cids \<and>
    (if \<exists>cid \<in> set cids. repair_of (N cid) (L cid) = None
     then fc_Open e (fc_construct cs' file_size' wbs' gs' gf' dir) = Inl Uninitialised
     else \<exists>fc1. fc_Open e (fc_construct cs' file_size' wbs' gs' gf' dir) = Inr (0, fc1) \<and>
       (\<forall>wbmode k. \<exists>fc2. fc_Lookup wbmode e k fc1 =
          Inr (map_of (concat (map (\<lambda>cid. answers_of (N cid) (L cid)) cids)) k, fc2)))"
  using killed_cache_open [OF assms, of cs' file_size' wbs' gs' gf'] by blast

text \<open>The directory after that run: one file of one buffer.\<close>

lemma one_flush_dir:
  assumes e: "env_ok e" and w: "0 < wbs" "unat wbs \<le> 18"
  obtains s where "buf_reach e (buf_start (opened_cache 100 30 wbs)) [BInsert ''k'' ''v'', BThread, BThread] s"
    "bs_log s = (\<lambda>_. [])(0 := record_bytes (mk_record (env_crc e) ''k'' ''v''))"
    "map_of (fc_dir (bs_fc s)) = [cf_name 0 \<mapsto> take (unat wbs) (record_bytes (mk_record (env_crc e) ''k'' ''v''))]"
proof -
  obtain s f where r: "buf_reach e (buf_start (opened_cache 100 30 wbs)) [BInsert ''k'' ''v'', BThread, BThread] s"
    "map_of (fc_objs (bs_fc s)) 0 = Some f" "cf_wbs f = wbs" "buf_doff f = 1" "cf_id f = 0"
    "bs_log s = (\<lambda>_. [])(0 := record_bytes (mk_record (env_crc e) ''k'' ''v''))"
    "fst ` set (fc_dir (bs_fc s)) = {cf_name 0}" by (rule one_flush [OF assms])
  have ok: "bs_ok e (buf_start (opened_cache 100 30 wbs))"
    using buf_open [OF e w(1), of 30 100 0 0] opened_cache_Open [of e 100 30 wbs] by auto
  from bs_okD(5) [OF buf_reach_ok [OF r(1) ok] r(2)]
  have "fc_content f (bs_fc s) = take (unat wbs) (record_bytes (mk_record (env_crc e) ''k'' ''v''))"
    by (simp add: file_ok_def writer_ok_def file_view_def Let_def r)
  moreover have "map_of (fc_dir (bs_fc s)) (cf_name 0) \<noteq> None" using r(7) by (simp add: map_of_eq_None_iff)
  then obtain c where "map_of (fc_dir (bs_fc s)) (cf_name 0) = Some c" by blast
  ultimately have "map_of (fc_dir (bs_fc s)) (cf_name 0) =
      Some (take (unat wbs) (record_bytes (mk_record (env_crc e) ''k'' ''v'')))" by (simp add: fc_content_def r(5))
  moreover have "map_of (fc_dir (bs_fc s)) n = None" if "n \<noteq> cf_name 0" for n
    using r(7) that by (simp add: map_of_eq_None_iff)
  ultimately have "map_of (fc_dir (bs_fc s)) =
      [cf_name 0 \<mapsto> take (unat wbs) (record_bytes (mk_record (env_crc e) ''k'' ''v''))]" by (auto simp: fun_eq_iff)
  then show ?thesis using r by (intro that)
qed

text \<open>
  Buffers of 17 bytes: the header and the key are on disk, the value is not. The next server opens the
  cache and answers the key with the empty string.
\<close>

theorem killed_cache_restarts_witness:
  "\<exists>s dir fc1 fc2. buf_reach sample_env (buf_start (opened_cache 100 30 17)) [BInsert ''k'' ''v'', BThread, BThread] s \<and>
    map_of dir = map_of (fc_dir (bs_fc s)) \<and>
    fc_Open sample_env (fc_construct 100 30 17 0 0 dir) = Inr (0, fc1) \<and>
    fc_Lookup True sample_env ''k'' fc1 = Inr (Some [], fc2)"
proof -
  let ?r = "record_bytes (mk_record (env_crc sample_env) ''k'' ''v'')" and ?evs = "[BInsert ''k'' ''v'', BThread, BThread]"
  obtain s where s: "buf_reach sample_env (buf_start (opened_cache 100 30 17)) ?evs s"
    "bs_log s = (\<lambda>_. [])(0 := ?r)" "map_of (fc_dir (bs_fc s)) = [cf_name 0 \<mapsto> take 17 ?r]"
    using one_flush_dir [OF env_ok_sample, of 17] by auto
  let ?dir = "[(cf_name 0, take 17 ?r)]"
  have pre: "\<forall>k v. BInsert k v \<in> set ?evs \<longrightarrow> short_key k" "map_of ?dir = map_of (fc_dir (bs_fc s))"
    "distinct (map fst ?dir)" "9 \<le> unat (17 :: u32)" "unat (30 :: u32) \<le> 2 ^ 31"
    by (simp_all add: short_key_def s(3))
  from killed_cache_restarts [OF env_ok_sample reads_on_sample pre(4,5) opened_cache_Open s(1) pre(1-3), of 100 30 17 0 0]
  obtain L N cids where L: "\<forall>cid. bs_log s cid = log_bytes sample_env (L cid)"
    "\<forall>cid k v. (k, v) \<in> set (L cid) \<longrightarrow> BInsert k v \<in> set ?evs"
    and dir: "?dir = map (\<lambda>cid. (cf_name cid, take (N cid) (log_bytes sample_env (L cid)))) cids"
    and res: "if \<exists>cid \<in> set cids. repair_of (N cid) (L cid) = None
     then fc_Open sample_env (fc_construct 100 30 17 0 0 ?dir) = Inl Uninitialised
     else \<exists>fc1. fc_Open sample_env (fc_construct 100 30 17 0 0 ?dir) = Inr (0, fc1) \<and>
       (\<forall>wbmode k. \<exists>fc2. fc_Lookup wbmode sample_env k fc1 =
          Inr (map_of (concat (map (\<lambda>cid. answers_of (N cid) (L cid)) cids)) k, fc2))"
    by (elim exE conjE) (rule that; assumption)
  from dir have cids: "cids = [0]" by (auto simp: Cons_eq_map_conv)
  have log: "log_bytes sample_env (L 0) = ?r" using L(1) [rule_format, of 0] s(2) by simp
  have "L 0 = [(''k'', ''v'')]"
  proof -
    obtain k v kvs where kv: "L 0 = (k, v) # kvs" using log by (cases "L 0") (auto simp: record_bytes_def)
    then have "k = ''k''" "v = ''v''" using L(2) [rule_format, of k v 0] by auto
    then show ?thesis using log kv length_log_bytes [of kvs sample_env] by auto
  qed
  moreover have "N 0 = 17"
  proof -
    have "take (N 0) ?r = take 17 ?r" using dir log by (simp add: cids)
    then show ?thesis by (auto dest: arg_cong [of _ _ length])
  qed
  ultimately have "repair_of (N 0) (L 0) \<noteq> None" "answers_of (N 0) (L 0) = [(''k'', [])]"
    by (simp_all add: sizeof_hdr_def)
  with res obtain fc1 where fc1: "fc_Open sample_env (fc_construct 100 30 17 0 0 ?dir) = Inr (0, fc1)"
    "\<forall>wbmode k. \<exists>fc2. fc_Lookup wbmode sample_env k fc1 = Inr (map_of [(''k'', [])] k, fc2)" by (auto simp: cids)
  from fc1(2) [rule_format, of True "''k''"] obtain fc2 where
    "fc_Lookup True sample_env ''k'' fc1 = Inr (Some [], fc2)" by auto
  with fc1(1) s(1) pre(2) show ?thesis by blast
qed
end
