(* ===== verification/Crash.thy ===== *)
theory Crash
  imports Tiered Killed
begin

text \<open>
  The server with write buffers, killed at any moment and started again: every run of the two levels
  (\<open>tier_reach\<close>) makes a run of the flash cache alone (\<open>buf_reach\<close>), so what \<open>Killed\<close> shows of its
  directory is what the next server starts on.
\<close>

section \<open>The run of the flash cache inside a run of the server\<close>

text \<open>What has been inserted into the flash cache was set by a client.\<close>

definition inserts_set :: "env \<Rightarrow> buf_event list \<Rightarrow> store_event option list \<Rightarrow> bool" where
  "inserts_set e bevs evs \<longleftrightarrow> (\<forall>k v. BInsert k v \<in> set bevs \<longrightarrow> was_set e evs k v)"

lemma inserts_set_more [simp]: "inserts_set e bevs evs \<Longrightarrow> inserts_set e bevs (evs @ evs')"
  by (simp add: inserts_set_def)

lemma inserts_set_event [simp]:
  "inserts_set e [] evs"
  "inserts_set e (bevs @ [BLookup k r]) evs = inserts_set e bevs evs"
  "inserts_set e (bevs @ [BDelete k]) evs = inserts_set e bevs evs"
  "inserts_set e (bevs @ [BThread]) evs = inserts_set e bevs evs"
  "inserts_set e (bevs @ [BInsert k v]) evs \<longleftrightarrow> inserts_set e bevs evs \<and> was_set e evs k v"
  by (auto simp: inserts_set_def)

lemma tier_client_buf:
  assumes mode: "wb_mode sv" and ok: "tier_ok e s" and step: "store_step sv e ev (ts_db s) db" "ev \<noteq> EvFlush"
    and reach: "buf_reach e b0 bevs (ts_buf s)"
  shows "\<exists>more. buf_reach e b0 (bevs @ more) (ts_buf (s\<lparr>ts_db := db\<rparr>)) \<and> (\<forall>k v. BInsert k v \<notin> set more)"
proof -
  note O = tier_okD [OF ok] and m = wb_modeD [OF mode]
  have same: ?thesis if "flashCache db = flashCache (ts_db s)"
    using reach that by (intro exI [of _ "[]"]) (simp add: ts_buf_def)
  from step(1) show ?thesis
  proof cases
    case (check busy)
    then show ?thesis using same memUsedCheck_memory [OF m(1) O(1,2) check(2)] by auto
  next
    case (set c key k v c')
    have ob: "holds (arg_object v) v" "kv_where (arg_object v) = KV_LOC_MEM"
      using set(4) by (simp_all add: good_entry_def holds_arg)
    have "\<not> lru_limbo k (memLRU (ts_db s))"
      using limbo_dangling(2) [OF m(1) O(1) set(3)] set(5) by fastforce
    from cacheAdd_lru [OF m(1) O(1,2) set(3) ob(1) set(4) ob(2) this] set(5) m(1) have
      "flashCache db = flashCache (ts_db s)"
      by (auto simp: setCommand_def bnd_eq_Inr MODE_MEM_LRU_def MODE_ONLY_FLASH_def)
    then show ?thesis by (rule same)
  next
    case (get c key k c' out)
    show ?thesis
    proof (rule tier_get_cases [OF mode ok get(2-5)], goal_cases)
      case (1 v)
      then show ?thesis using same by blast
    next
      case (2 fc)
      have "ts_buf (s\<lparr>ts_db := db\<rparr>) = (ts_buf s)\<lparr>bs_fc := fc\<rparr>" by (simp add: 2(2) ts_buf_def)
      then have "buf_reach e b0 (bevs @ [BLookup k None]) (ts_buf (s\<lparr>ts_db := db\<rparr>))"
        using buf_reach.step [OF reach buf_step.lookup [OF 2(1) [folded O(5)]]] by simp
      then show ?thesis by (intro exI [of _ "[BLookup k None]"]) simp
    next
      case (3 v w fc)
      let ?b = "(ts_buf s)\<lparr>bs_fc := fc\<rparr>"
      have "ts_buf (s\<lparr>ts_db := db\<rparr>) = ?b\<lparr>bs_fc := fc_DeleteMetaData k (bs_fc ?b)\<rparr>" by (simp add: 3(8) ts_buf_def)
      then have "buf_reach e b0 ((bevs @ [BLookup k (Some v)]) @ [BDelete k]) (ts_buf (s\<lparr>ts_db := db\<rparr>))"
        using buf_reach.step [OF buf_reach.step [OF reach buf_step.lookup [OF 3(1) [folded O(5)]]]
            buf_step.delete [of e k]] by simp
      then show ?thesis by (intro exI [of _ "[BLookup k (Some v), BDelete k]"]) simp
    qed
  next
    case (flush n)
    then show ?thesis using step(2) by simp
  qed
qed

lemma tier_step_buf:
  assumes mode: "wb_mode sv" and step: "tier_step sv e ev s s'" and ok: "tier_ok e s" and vals: "tier_vals e evs s"
    and reach: "buf_reach e b0 bevs (ts_buf s)" and ins: "inserts_set e bevs evs"
  shows "\<exists>bevs'. buf_reach e b0 bevs' (ts_buf s') \<and> inserts_set e bevs' (evs @ [ev])"
  using step
proof cases
  case (client sev db)
  from tier_client_buf [OF mode ok client(3,4) reach] obtain more where
    "buf_reach e b0 (bevs @ more) (ts_buf s')" "\<forall>k v. BInsert k v \<notin> set more" using client(2) by blast
  moreover from this(2) ins have "inserts_set e (bevs @ more) (evs @ [ev])" by (auto simp: inserts_set_def)
  ultimately show ?thesis by blast
next
  case (flush db p q en f)
  note O = tier_okD [OF ok]
  from tier_flush_insert [OF mode ok flush(3-6)] obtain k v fc where
    kv: "until_nul (he_key en) = k" "val_of (he_val en) = v" "good_entry k v" "mem_look (ts_db s) k = Some v"
    and I: "fc_Insert True e k v (bs_fc (ts_buf s)) = Inr (0, fc)" and db: "flashCache db = fc" unfolding O(5) .
  have b: "ts_buf s' = (ts_buf s)\<lparr>bs_fc := fc, bs_log := (bs_log (ts_buf s))(cf_id f :=
      bs_log (ts_buf s) (cf_id f) @ record_bytes (mk_record (env_crc e) k v))\<rparr>"
    by (simp add: flush(2) ts_buf_def db kv)
  have "buf_step e (BInsert k v) (ts_buf s) (ts_buf s')"
    unfolding b using I kv(3) flush(3,7) db by (intro buf_step.insert) (simp_all add: O(5))
  from buf_reach.step [OF reach this] have "buf_reach e b0 (bevs @ [BInsert k v]) (ts_buf s')" .
  moreover have "was_set e evs k v" using vals kv(4) by (simp add: tier_vals_def)
  ultimately show ?thesis using ins by (intro exI [of _ "bevs @ [BInsert k v]"]) simp
next
  case (thread p b)
  have "ts_buf s' = b" by (simp add: thread(2) ts_buf_def)
  then have "buf_reach e b0 (bevs @ [BThread]) (ts_buf s')"
    using buf_reach.step [OF reach buf_step.thread [OF thread(3)]] by simp
  then show ?thesis using ins by (intro exI [of _ "bevs @ [BThread]"]) simp
qed

lemma tier_reach_buf:
  assumes mode: "wb_mode sv" and start: "tier_ok e s0" "mem_look (ts_db s0) = Map.empty" "fb_look e (ts_buf s0) = Map.empty"
  shows "tier_reach sv e s0 evs s \<Longrightarrow> \<exists>bevs. buf_reach e (ts_buf s0) bevs (ts_buf s) \<and> inserts_set e bevs evs"
proof (induction rule: tier_reach.induct)
  case start
  then show ?case by (intro exI [of _ "[]"]) (simp add: buf_reach.start)
next
  case (step evs s ev s')
  from tier_reach_ok [OF mode start step(1)] have "tier_ok e s" "tier_vals e evs s" by blast+
  from step.IH tier_step_buf [OF mode step(2) this] show ?case by blast
qed

section \<open>The next server\<close>

text \<open>The flash cache that \<open>initServer\<close> makes.\<close>

lemma initServer_lru:
  assumes "cache_mode sv = MODE_MEM_LRU" "flashCache_dir sv \<noteq> None"
    and "fc0 = fc_construct (flashCache_size sv) (flashCache_file_size sv) (ucast (flashCache_writebuffer_size sv))
      gsize gfile dir"
  shows "fc_Open e fc0 = Inl err \<Longrightarrow> initServer sv e gsize gfile dir = Inl err"
    and "fc_Open e fc0 = Inr (0, fc) \<Longrightarrow> \<exists>db. initServer sv e gsize gfile dir = Inr db \<and> flashCache db = fc \<and>
      mem_ok db \<and> queue_ok db \<and> flash_live db \<and> mem_look db = Map.empty"
  using assms
  by (auto simp: initServer_def flashCacheCreate_def Let_def MODE_MEM_LRU_def MODE_MEM_FIFO_def LRUCacheCreate_def
      ListCreate_def QueueCreate_def mem_ok_def queue_ok_def mem_look_def lru_inv_new)

text \<open>A \<open>get\<close> that finds nothing in memory, by what the flash cache answers.\<close>

definition flash_reply :: "env \<Rightarrow> byte list option \<Rightarrow> byte list" where
  "flash_reply e r = (case r of None \<Rightarrow> not_found | Some v \<Rightarrow> bulk (length v) (v @ until_nul (env_tail e)))"

lemma getCommand_flash_reply:
  assumes mode: "cache_mode sv = MODE_MEM_LRU" and ok: "mem_ok db" "queue_ok db" "flash_live db" and e: "env_ok e"
    and k: "key_ok k" and miss: "mem_look db k = None"
    and look: "fc_Lookup (wbmode sv) e k (flashCache db) = Inr (r, fc)" and good: "\<And>v. r = Some v \<Longrightarrow> good_entry k v"
  shows "\<exists>db'. \<forall>c. getCommand sv e (arg_object k) (c, db) = bnd (reply (flash_reply e r) c) (\<lambda>c. Inr (c, db'))"
proof -
  have key: "holds (arg_object k) k" using k by (simp add: key_ok_def holds_arg)
  show ?thesis
  proof (cases r)
    case (Some v)
    from getCommand_from_flash [OF mode ok e key miss good [OF Some], of fc] look Some show ?thesis
      by (auto simp: flash_reply_def)
  next
    case None
    have "mem_find sv (k @ [NUL]) db = Inr (None, db)"
      using mem_find_absent [OF mode ok(1) key miss] by (simp add: arg_object_def)
    moreover have "flashCacheLookup sv e (k @ [NUL]) db = Inr (None, db\<lparr>flashCache := fc\<rparr>)"
      using look None ok(3) k by (simp add: flashCacheLookup_def key_ok_def)
    ultimately have "getCommand sv e (arg_object k) (c, db) =
        bnd (reply not_found c) (\<lambda>c. Inr (c, db\<lparr>flashCache := fc\<rparr>))" for c
      using mode by (simp add: getCommand_def arg_object_def MODE_MEM_LRU_def MODE_ONLY_FLASH_def empty_reply_def
          not_found_def)
    then show ?thesis unfolding None flash_reply_def by (intro exI [of _ "db\<lparr>flashCache := fc\<rparr>"]) simp
  qed
qed

lemma session_flash_reply:
  assumes mode: "cache_mode sv = MODE_MEM_LRU" and ok: "mem_ok db" "queue_ok db" "flash_live db" and e: "env_ok e"
    and c: "client_ok c" and k: "key_ok k" and miss: "mem_look db k = None"
    and look: "fc_Lookup (wbmode sv) e k (flashCache db) = Inr (r, fc)" and good: "\<And>v. r = Some v \<Longrightarrow> good_entry k v"
    and fits: "length (enc_request [''get'', k]) \<le> KV_IOBUF_LEN" "length (flash_reply e r) < KV_IOBUF_LEN"
  shows "\<exists>c' db'. session_step sv e False (enc_request [''get'', k]) (c, db) = Inr (SessionSent (flash_reply e r), c', db')"
proof -
  let ?db = "db\<lparr>db_used := parsed_used [''get'', k] (db_used db)\<rparr>"
  have "mem_ok ?db" "queue_ok ?db" "flash_live ?db" "mem_look ?db k = None"
    using ok miss by (simp_all add: mem_ok_def queue_ok_def mem_look_def)
  from getCommand_flash_reply [OF mode this(1-3) e k this(4), of r fc] look good obtain db1 where
    "\<forall>c. getCommand sv e (arg_object k) (c, ?db) = bnd (reply (flash_reply e r) c) (\<lambda>c. Inr (c, db1))" by auto
  then show ?thesis using session_get [OF c k fits, of sv e db db1] by blast
qed

section \<open>Properties\<close>

text \<open>
  C7: The server with write buffers, killed and started again, gives no wrong value. It starts on an
  empty directory and is killed after any sequence of requests, checks, tiering rounds and steps of the
  writer threads, evictions included. The next server starts on the directory, read in any order and
  with any options of the LRU mode. Either \<open>Repair\<close> meets a key that was cut and reads memory that was
  never written, or it starts, and the first \<open>get\<close> of a client, from the bytes of the request to those
  of the reply, is answered by a miss, with a value that was set under this key before the kill, or,
  for a key that was set, with the empty value (keys of 1 to 255 bytes, buffers of at least 9, replies
  that fit).
\<close>

theorem killed_server_answers_true:
  assumes conf: "wb_conf sv e" "reads_on e" "9 \<le> unat (ucast (flashCache_writebuffer_size sv) :: u32)"
    and start: "initServer sv e gsize gfile [] = Inr db"
    and run: "tier_reach sv e (tier_start db) evs s" and short: "\<forall>k v. Some (EvSet k v) \<in> set evs \<longrightarrow> short_key k"
    and dir: "map_of dir = map_of (fc_dir (flashCache (ts_db s)))" "distinct (map fst dir)"
    and conf': "cache_mode sv' = MODE_MEM_LRU" "flashCache_dir sv' \<noteq> None"
    and c: "client_ok c" and k: "key_ok k" "length (enc_request [''get'', k]) \<le> KV_IOBUF_LEN"
    and fits: "\<forall>w. w = [] \<or> Some (EvSet k w) \<in> set evs \<longrightarrow>
      length (bulk (length w) (w @ until_nul (env_tail e))) < KV_IOBUF_LEN"
  shows "initServer sv' e gsize' gfile' dir = Inl Uninitialised \<or>
    (\<exists>db' c' db'' out. initServer sv' e gsize' gfile' dir = Inr db' \<and>
      session_step sv' e False (enc_request [''get'', k]) (c, db') = Inr (SessionSent out, c', db'') \<and>
      (out = not_found \<or> (\<exists>v w. Some (EvSet k w) \<in> set evs \<and> (v = [] \<or> v = w) \<and>
         out = bulk (length v) (v @ until_nul (env_tail e)))))"
proof -
  have w: "wb_mode sv" "env_ok e" "flashCache_dir sv \<noteq> None" "cache_mode sv = MODE_MEM_LRU"
    "unat (flashCache_file_size sv) \<le> 2 ^ 31" "0 < (ucast (flashCache_writebuffer_size sv) :: u32)"
    using conf(1) by (simp_all add: wb_conf_def wb_mode_def)
  let ?Open = "\<lambda>sv gs gf dir. fc_Open e (fc_construct (flashCache_size sv) (flashCache_file_size sv)
    (ucast (flashCache_writebuffer_size sv)) gs gf dir)"
  from buf_open [OF w(2,6,5), of "flashCache_size sv" gsize gfile] initServer_lru(2) [OF w(4,3) refl] start
  have opened: "?Open sv gsize gfile [] = Inr (0, flashCache db)" by fastforce
  have "ts_buf (tier_start db) = buf_start (flashCache db)" by (simp add: ts_buf_def tier_start_def buf_start_def)
  with tier_reach_buf [OF w(1) tier_start_ok [OF conf(1) start] run] obtain bevs where
    B: "buf_reach e (buf_start (flashCache db)) bevs (ts_buf s)" "inserts_set e bevs evs" by auto
  have keys: "\<forall>k v. BInsert k v \<in> set bevs \<longrightarrow> short_key k"
    using B(2) short was_setD unfolding inserts_set_def by blast
  have "map_of dir = map_of (fc_dir (bs_fc (ts_buf s)))" using dir(1) by (simp add: ts_buf_def)
  from killed_cache_answers [OF w(2) conf(2,3) w(5) opened B(1) keys this dir(2), of "flashCache_size sv'"
      "flashCache_file_size sv'" "ucast (flashCache_writebuffer_size sv')" gsize' gfile']
  consider "?Open sv' gsize' gfile' dir = Inl Uninitialised" | fc1 where "?Open sv' gsize' gfile' dir = Inr (0, fc1)"
    "\<And>wbmode k. \<exists>r fc2. fc_Lookup wbmode e k fc1 = Inr (r, fc2) \<and> (\<forall>v. r = Some v \<longrightarrow> good_entry k v \<and>
      (\<exists>w. BInsert k w \<in> set bevs \<and> (v = [] \<or> v = w)))" by blast
  then show ?thesis
  proof cases
    case 1
    then show ?thesis using initServer_lru(1) [OF conf' refl] by blast
  next
    case 2
    from initServer_lru(2) [OF conf' refl 2(1)] obtain db' where db': "initServer sv' e gsize' gfile' dir = Inr db'"
      "flashCache db' = fc1" "mem_ok db'" "queue_ok db'" "flash_live db'" "mem_look db' = Map.empty" by blast
    from 2(2) [of "wbmode sv'" k] obtain r fc2 where r: "fc_Lookup (wbmode sv') e k (flashCache db') = Inr (r, fc2)"
      "\<And>v. r = Some v \<Longrightarrow> good_entry k v" "\<And>v. r = Some v \<Longrightarrow> \<exists>w. BInsert k w \<in> set bevs \<and> (v = [] \<or> v = w)"
      unfolding db'(2) by blast
    have set: "\<exists>w. Some (EvSet k w) \<in> set evs \<and> (v = [] \<or> v = w)" if "r = Some v" for v
      using r(3) [OF that] B(2) was_setD unfolding inserts_set_def by blast
    have "length (flash_reply e r) < KV_IOBUF_LEN"
      using set fits by (cases r) (auto simp: flash_reply_def not_found_def KV_IOBUF_LEN_def)
    from session_flash_reply [OF conf'(1) db'(3-5) w(2) c k(1) _ r(1,2) k(2) this] db'(6) obtain c' db'' where
      "session_step sv' e False (enc_request [''get'', k]) (c, db') = Inr (SessionSent (flash_reply e r), c', db'')" by auto
    moreover have "flash_reply e r = not_found \<or> (\<exists>v w. Some (EvSet k w) \<in> set evs \<and> (v = [] \<or> v = w) \<and>
        flash_reply e r = bulk (length v) (v @ until_nul (env_tail e)))"
      using set by (cases r) (auto simp: flash_reply_def)
    ultimately show ?thesis using db'(1) by blast
  qed
qed

text \<open>
  The key is set, taken out of memory and moved to flash, and the server is killed before the buffer is
  written: the file is empty.
\<close>

lemma sample_wb_empty_file:
  obtains fc where "fc_Open sample_env (fc_construct (flashCache_size sample_wb) (flashCache_file_size sample_wb)
    (ucast (flashCache_writebuffer_size sample_wb)) 0 0 [(cf_name 0, [])]) = Inr (0, fc)"
proof -
  have "\<exists>fc. fc_Open sample_env (fc_construct (flashCache_size sample_wb) (flashCache_file_size sample_wb)
      (ucast (flashCache_writebuffer_size sample_wb)) 0 0 [(cf_name 0, [])]) = Inr (0, fc) \<and>
    (\<forall>wbmode k. let r = map_of (concat (map (\<lambda>cid. answers_of 0 []) [0 :: u32])) k in
      \<exists>fc'. fc_Lookup wbmode sample_env k fc = Inr (r, fc'))"
    by (rule cut_files_open [where m = 1 and N = "\<lambda>_. 0" and L = "\<lambda>_. []"]) simp_all
  then show ?thesis using that by blast
qed

theorem killed_server_answers_true_witness:
  "\<exists>s db' c' db'' out. tier_reach sample_wb sample_env (tier_start sample_db)
      [Some (EvSet ''a'' ''one''), Some EvCheck, Some EvFlush] s \<and> fc_dir (flashCache (ts_db s)) = [(cf_name 0, [])] \<and>
    initServer sample_wb sample_env 0 0 [(cf_name 0, [])] = Inr db' \<and>
    session_step sample_wb sample_env False (enc_request [''get'', ''a'']) (sample_client, db') =
      Inr (SessionSent out, c', db'') \<and>
    (out = not_found \<or> (\<exists>v. (v = [] \<or> v = ''one'') \<and> out = bulk (length v) (v @ until_nul (env_tail sample_env))))"
proof -
  let ?evs = "[Some (EvSet ''a'' ''one''), Some EvCheck, Some EvFlush]"
  obtain s where s: "tier_reach sample_wb sample_env (tier_start sample_db) ?evs s"
    "fc_dir (flashCache (ts_db s)) = [(cf_name 0, [])]" by (rule sample_wb_moved)
  have short: "\<forall>k v. Some (EvSet k v) \<in> set ?evs \<longrightarrow> short_key k" by (simp add: short_key_def)
  have t: "until_nul (env_tail sample_env) = []" by (simp add: sample_env_def)
  have fits: "\<forall>w. w = [] \<or> Some (EvSet ''a'' w) \<in> set ?evs \<longrightarrow>
      length (bulk (length w) (w @ until_nul (env_tail sample_env))) < KV_IOBUF_LEN"
    unfolding t by (auto simp: bulk_def count_char(1) KV_IOBUF_LEN_def)
  have conf: "9 \<le> unat (ucast (flashCache_writebuffer_size sample_wb) :: u32)" "flashCache_dir sample_wb \<noteq> None"
    by (simp_all add: sample_wb_def sample_sv_def)
  obtain fc where "fc_Open sample_env (fc_construct (flashCache_size sample_wb) (flashCache_file_size sample_wb)
    (ucast (flashCache_writebuffer_size sample_wb)) 0 0 [(cf_name 0, [])]) = Inr (0, fc)" by (rule sample_wb_empty_file)
  then have "initServer sample_wb sample_env 0 0 [(cf_name 0, [])] \<noteq> Inl Uninitialised"
    using initServer_lru(2) [OF sample_wb_conf(3) conf(2) refl] by fastforce
  with killed_server_answers_true [OF sample_wb_conf(1) reads_on_sample conf(1) sample_wb_start s(1) short _ _
      sample_wb_conf(3) conf(2) sample_client_ok sample_requests(2,4) fits, of "[(cf_name 0, [])]" 0 0] s
  show ?thesis by auto
qed

end
