(* ===== verification/Client.thy ===== *)
theory Client
  imports Server
begin

text \<open>
  The client of \<open>client-benchmark\<close> (\<open>client.cc\<close>, \<open>net.cc\<close>): it reads its configuration, connects,
  shows a prompt, reads a number and ends. The functions that send and receive a message are
  there and not called.
\<close>

section \<open>The connection\<close>

text \<open>
  \<open>Net_util\<close>. The descriptor is set once \<open>tcpConnect\<close> has succeeded; \<open>querybuf_\<close> is allocated
  there, with whatever the memory holds, and its length is never set (\<open>None\<close>).
\<close>

definition CLIENT_IOBUF_LEN :: nat where
  "CLIENT_IOBUF_LEN = 1024 * 40"

record net_util =
  nu_port :: u32
  nu_ip :: "byte list"
  nu_connected :: bool
  nu_buf :: "byte list option"
  nu_len :: "nat option"

definition net_new :: "u32 \<Rightarrow> byte list \<Rightarrow> net_util" where
  "net_new port ip = \<lparr>nu_port = port, nu_ip = ip, nu_connected = False, nu_buf = None, nu_len = None\<rparr>"

text \<open>What the calls of the client return; \<open>sk_memory\<close> is what a fresh buffer holds.\<close>

record sock_env =
  sk_socket :: bool
  sk_connect :: "byte list \<Rightarrow> u16 \<Rightarrow> bool"
  sk_memory :: "byte list"

definition client_tcpConnect :: "sock_env \<Rightarrow> net_util \<Rightarrow> net_util res" where
  "client_tcpConnect so n =
     (if \<not> sk_socket so then Inl ProcessExit
      else if \<not> sk_connect so (nu_ip n) (ucast (nu_port n)) then Inl ProcessExit
      else Inr (n\<lparr>nu_connected := True, nu_buf := Some (sk_memory so)\<rparr>))"

text \<open>\<open>printf("%s", querybuf_->buf)\<close>\<close>

definition print_buf :: "byte list \<Rightarrow> byte list res" where
  "print_buf buf = (case cstr buf of None \<Rightarrow> Inl OutOfBounds | Some s \<Rightarrow> Inr s)"

text \<open>
  \<open>tcpRecv\<close>: the bytes that arrive, or \<open>None\<close> for an error, which is reported and otherwise
  ignored. No terminator is added before the buffer is printed.
\<close>

definition client_tcpRecv :: "byte list option \<Rightarrow> net_util \<Rightarrow> (byte list \<times> net_util) res" where
  "client_tcpRecv r n =
     (case nu_buf n of
        None \<Rightarrow> Inl Uninitialised
      | Some buf \<Rightarrow>
          (let buf = (case r of None \<Rightarrow> buf
                      | Some bytes \<Rightarrow>
                          (let bs = take CLIENT_IOBUF_LEN bytes in bs @ drop (length bs) buf))
           in bnd (print_buf buf) (\<lambda>s. Inr (s, n\<lparr>nu_buf := Some buf\<rparr>))))"

text \<open>\<open>tcpSend\<close>: the bytes handed to \<open>write\<close> and what is printed after it.\<close>

definition client_tcpSend :: "net_util \<Rightarrow> (byte list \<times> byte list) res" where
  "client_tcpSend n =
     (case (nu_buf n, nu_len n) of
        (Some buf, Some len) \<Rightarrow>
          (if length buf < len then Inl OutOfBounds
           else bnd (print_buf buf) (\<lambda>s. Inr (take len buf, s)))
      | _ \<Rightarrow> Inl Uninitialised)"

section \<open>The program\<close>

text \<open>
  The global \<open>client\<close>. \<open>cli\<close> is set to the address of a local variable of \<open>initClient\<close>, which
  dangles when the function returns.
\<close>

datatype cli_ptr = CliNull | CliDangling

record client_state = client_conf +
  cc_cli :: cli_ptr
  cc_prompt :: "byte list"

definition client_sigShutdownHandler :: "int \<Rightarrow> unit res" where
  "client_sigShutdownHandler sig = (if sig = SIGINT then Inl ProcessExit else Inr ())"

text \<open>\<open>setupSignalHandlers\<close>: the second test looks at the first result again.\<close>

definition client_setupSignalHandlers :: "bool \<Rightarrow> bool \<Rightarrow> int" where
  "client_setupSignalHandlers term_ok int_ok = (if \<not> term_ok then 1 else 0)"

text \<open>\<open>client.ip.append(":")\<close> changes \<open>client.ip\<close> itself.\<close>

definition cliRefreshPrompt :: "client_state \<Rightarrow> client_state" where
  "cliRefreshPrompt c =
     (let ip = cc_ip c @ '':'' in
      c\<lparr>cc_ip := ip, cc_prompt := ip @ dec_int (sint (cc_port c)) @ ''> ''\<rparr>)"

definition initClient :: "sock_env \<Rightarrow> client_state \<Rightarrow> client_state res" where
  "initClient so c =
     bnd (client_tcpConnect so (net_new (cc_port c) (cc_ip c)))
       (\<lambda>n. Inr (cliRefreshPrompt (c\<lparr>cc_cli := CliDangling\<rparr>)))"

definition client_zero :: client_conf where
  "client_zero = \<lparr>cc_port = 0, cc_ip = []\<rparr>"

text \<open>\<open>main\<close>: the prompt that is shown and the state of the client.\<close>

definition client_main ::
  "(byte list \<Rightarrow> byte list option) \<Rightarrow> sock_env \<Rightarrow> byte list list \<Rightarrow> (byte list \<times> client_state) res" where
  "client_main file so argv =
     (if length argv < 2 then Inl ProcessExit
      else
        bnd (client_loadServerConfig (file (argv ! 1)) client_zero) (\<lambda>s.
        bnd (initClient so \<lparr>cc_port = cc_port s, cc_ip = cc_ip s, cc_cli = CliNull, cc_prompt = []\<rparr>) (\<lambda>c.
          Inr (cc_prompt c, c))))"

section \<open>The shipped configuration\<close>

text \<open>\<open>client-benchmark/conf/client.conf\<close>, which has no newline at its end.\<close>

definition shipped_client_conf :: "byte list" where
  "shipped_client_conf =
     concat (map (\<lambda>l. l @ [LF]) [[], ''#client config'', ''port 19502'']) @ ''host 127.0.0.1''"

lemma shipped_client_lines:
  "fgets_lines shipped_client_conf =
     map (\<lambda>l. l @ [LF]) [[], ''#client config'', ''port 19502''] @ [''host 127.0.0.1'']"
  unfolding shipped_client_conf_def by (subst fgets_lines_cut) simp_all

lemma shipped_client_config:
  "client_loadServerConfig (Some shipped_client_conf) client_zero =
     Inr \<lparr>cc_port = 19502, cc_ip = ''127.0.0.1''\<rparr>"
proof -
  have "c_atoi (''19502'' @ [LF]) = 19502"
    by (simp add: c_atoi_def is_space_def is_digit_def digit_val_def dec_value_def)
  then show ?thesis
    by (simp add: client_loadServerConfig_def shipped_client_lines client_config_line_def config_words_def
        strcasecmp_eq_def tolower_def client_zero_def Let_def)
qed

text \<open>
  The client of the repository looks for its server at port 19502; the server of the repository
  starts its search for a free port at 19501.
\<close>

lemma shipped_client:
  assumes "file conf = Some shipped_client_conf" "sk_socket so"
  shows "client_main file so [prog, conf] =
    (if sk_connect so ''127.0.0.1'' 19502
     then Inr (''127.0.0.1:19502> '', \<lparr>cc_port = 19502, cc_ip = ''127.0.0.1:'', cc_cli = CliDangling,
       cc_prompt = ''127.0.0.1:19502> ''\<rparr>)
     else Inl ProcessExit)"
proof -
  have "dec_int 19502 = ''19502''"
    unfolding dec_int_def by (simp add: dec.simps char_of_eq_iff take_bit_nat_eq_self)
  with assms show ?thesis
    by (simp add: client_main_def shipped_client_config initClient_def client_tcpConnect_def net_new_def
        cliRefreshPrompt_def Let_def)
qed

text \<open>Refreshing the prompt adds a colon to the address each time.\<close>

lemma cliRefreshPrompt_twice:
  "cc_prompt (cliRefreshPrompt (cliRefreshPrompt c)) =
     cc_ip c @ ''::'' @ dec_int (sint (cc_port c)) @ ''> ''"
  by (simp add: cliRefreshPrompt_def Let_def)

section \<open>Messages\<close>

text \<open>After a connection there is a buffer to receive into, and nothing that could be sent.\<close>

lemma client_after_connect:
  assumes "client_tcpConnect so (net_new port ip) = Inr n"
  shows "client_tcpSend n = Inl Uninitialised"
    and "length (sk_memory so) = CLIENT_IOBUF_LEN \<Longrightarrow> no_nul bytes \<Longrightarrow> length bytes < CLIENT_IOBUF_LEN \<Longrightarrow>
      \<exists>n'. client_tcpRecv (Some (bytes @ [NUL])) n = Inr (bytes, n')"
    and "length (sk_memory so) = CLIENT_IOBUF_LEN \<Longrightarrow> no_nul bytes \<Longrightarrow> CLIENT_IOBUF_LEN \<le> length bytes \<Longrightarrow>
      client_tcpRecv (Some bytes) n = Inl OutOfBounds"
proof -
  have n: "nu_buf n = Some (sk_memory so)" "nu_len n = None"
    using assms by (auto simp: client_tcpConnect_def net_new_def split: if_splits)
  show "client_tcpSend n = Inl Uninitialised" using n by (simp add: client_tcpSend_def)
  show "\<exists>n'. client_tcpRecv (Some (bytes @ [NUL])) n = Inr (bytes, n')"
    if "length (sk_memory so) = CLIENT_IOBUF_LEN" "no_nul bytes" "length bytes < CLIENT_IOBUF_LEN"
    using n that by (simp add: client_tcpRecv_def print_buf_def Let_def)
  show "client_tcpRecv (Some bytes) n = Inl OutOfBounds"
    if "length (sk_memory so) = CLIENT_IOBUF_LEN" "no_nul bytes" "CLIENT_IOBUF_LEN \<le> length bytes"
  proof -
    have "no_nul (take CLIENT_IOBUF_LEN bytes)" using that(2) by (auto simp: no_nul_def dest: in_set_takeD)
    then have "cstr (take CLIENT_IOBUF_LEN bytes) = None" by (simp add: cstr_def no_nul_def)
    then show ?thesis using n that by (simp add: client_tcpRecv_def print_buf_def Let_def)
  qed
qed

end
