(* ===== verification/Spec2Isabelle.thy ===== *)
theory Spec2Isabelle
  imports Startup Durable OnlyFlash FifoMode Race DispatchRace Crash Client
begin

text \<open>
  A model of \<open>embedded_keyvalue_server\<close>, a small key-value server in C and C++ that keeps its
  entries in a memory cache and moves them to files on flash as memory fills up, and theorems
  about it.

  \<^bold>\<open>The program.\<close> \<open>main\<close> (\<open>server.c\<close>) reads a configuration file (\<open>util.c\<close>), makes the store
  (\<open>initServer\<close>), listens (\<open>net.c\<close>) and starts the threads of \<open>bworker.c\<close>: one accepts
  connections, one moves entries to flash, one per client serves requests. A client's thread reads
  the bytes of a request into a buffer, \<open>parsingMessage\<close> (\<open>util.c\<close>) cuts it into arguments and
  \<open>processCMD\<close> (\<open>command.c\<close>) executes it. A \<open>set\<close> puts an entry into memory: the recency cache of
  \<open>my_lru.hpp\<close> or the hash table of \<open>hash.c\<close> with a list, each behind the C functions of
  \<open>util_c++.cc\<close>. \<open>memUsedCheck\<close> takes the oldest entry out and puts it into a queue when the
  counter of the allocator (\<open>chmalloc\<close>) passes nine tenths of the limit; the tiering thread takes
  it from the queue, inserts it into the flash cache (\<open>flashcache.cc\<close>) and frees it. A \<open>get\<close> that
  misses memory looks into the flash cache and moves the entry back. The flash cache appends
  records to files, directly or through buffers that a thread of each file writes out, finds them
  through an index in memory, rebuilds that index from the files when it is opened, and deletes the
  least recently used file when it grows beyond its limit.

  \<^bold>\<open>The theories.\<close>
  \<^item> \<open>Prelude\<close>: words for the machine integers, faults and the sequencing of computations that may
    fault (\<open>bnd\<close>), C strings as byte lists, lemmas on association lists. An undefined behaviour, an
    \<open>exit\<close>, a failed \<open>assert\<close> and an endless wait each are a \<open>fault\<close>, so every operation returns
    \<open>Inl fault\<close> or \<open>Inr\<close> of its results.
  \<^item> \<open>Dictionary\<close>: the contract (locales \<open>insert_once\<close>, \<open>insert_once_delete\<close>) that the hash table and
    the flash cache, with and without buffers, share: an insertion under a present key changes nothing.
  \<^item> \<open>LruCache\<close> (\<open>my_lru.hpp\<close>), \<open>Containers\<close> (the container half of \<open>util_c++.cc\<close>): the recency cache
    with its list nodes and iterators, its contract (locale \<open>recency_cache\<close>), queue and list (locale \<open>fifo\<close>).
  \<^item> \<open>Util\<close>, \<open>Allocator\<close>, \<open>Protocol\<close>, \<open>Config\<close> (\<open>util.c\<close>, \<open>util.h\<close>): strings and objects, number parsing,
    the counting allocator, the request parser, the configuration files of the server and of the
    client.
  \<^item> \<open>Hash\<close> (\<open>hash.c\<close>): the chained table.
  \<^item> \<open>Floats\<close>: the conversions to \<open>float\<close> and \<open>double\<close> in the two comparisons of the program.
  \<^item> \<open>CacheRecord\<close>, \<open>WriteBuffer\<close>, \<open>FileIO\<close>, \<open>CacheFile\<close>, \<open>FlashCache\<close> (\<open>flashcache.h\<close>, \<open>flashcache.cc\<close>): the
    record format, the buffers, the loops around \<open>write\<close> and \<open>pread\<close> (both logs in the sense of the
    locale \<open>byte_log\<close>), a file, the cache.
    \<open>FlashIndex\<close>, \<open>FlashRecovery\<close>, \<open>FlashEvict\<close> and \<open>FileWriter\<close> hold the theorems about them:
    the cache as a dictionary, restart, eviction, and the writer thread of a file as a step relation.
    \<open>Buffered\<close> puts these together for the mode with write buffers: the calls of the clients and the
    writer threads of all files, which evict other files as they write (\<open>thread_move\<close>, \<open>buf_step\<close>), with
    an abstract map that every step follows (\<open>flash_promise\<close>). \<open>Tiered\<close> runs the steps of the store on it
    (\<open>tier_step\<close>). \<open>TornLog\<close> is about what such a cache leaves when the process is killed: \<open>Repair\<close> on
    the first bytes of a log against a reference function (\<open>repair_of\<close>), and \<open>Open\<close> and \<open>Lookup\<close> on files of
    such bytes (\<open>answers_of\<close>). \<open>Killed\<close> joins it to \<open>Buffered\<close>: a run, a kill, the next start, its answers.
    \<open>Crash\<close> finds that run inside a run of the whole server, and follows the next server to its answers.
    \<open>DispatchRace\<close> cuts \<open>DispatchBuffer\<close> between its two last statements.
  \<^item> \<open>Command\<close> (\<open>command.c\<close>), \<open>Bworker\<close> (\<open>bworker.c\<close>, \<open>net.c\<close>): the commands and the rounds of the
    threads on the record \<open>kvDb\<close>.
  \<^item> \<open>Store\<close>, \<open>Server\<close> (\<open>server.c\<close>), \<open>Session\<close>, \<open>Startup\<close> and this theory: the invariant of the two
    levels, the runs of the store as a step relation between its threads (\<open>store_step\<close>), the handler
    of \<open>SIGINT\<close> beside the tiering thread (\<open>sig_run\<close>), the requests from bytes to bytes, the start of
    the program.
  \<^item> \<open>Durable\<close>: the lives of a server on one directory (\<open>server_lives\<close>): runs of the store between
    which the process is killed and \<open>initServer\<close> starts on the files that are there.
    \<open>OnlyFlash\<close>, \<open>FifoMode\<close>: the requests in the mode without a memory cache, and in the one whose
    memory cache is the hash table. \<open>Race\<close>: the check for memory, which
    is made without a lock, run by several threads at once (\<open>check_run\<close>).
  \<^item> \<open>Client\<close> (\<open>client-benchmark/client.cc\<close>, \<open>net.cc\<close>): the client that comes with the server.

  \<^bold>\<open>What is shown.\<close> C1 to C3, C6, C8 and C9 are about the store as a client sees it: a value that is
  set is read back (C1, C8), every interleaving of the threads keeps the invariant (C6) and, while
  no key is written twice, answers as one dictionary (C2), also when the server is killed and
  started again in between, up to keys that are lost (C3), and a round of the tiering thread (C9).
  C3 and C12 too are about runs in which no key is set twice: an update can be lost (C14).
  C4 and C10 are about the store when the flash cache writes through buffers: no wrong answers, and
  a value that is read back from a file being filled. A value that is answered from flash is followed
  in the reply by the bytes of the heap up to the next zero byte. C5 and C11 about that flash cache while its
  threads write and evict: it follows an abstract map, and takes insertions.
  C7, C12, C15, C20 and C24 are about what is durable: what a server that starts again finds and answers,
  also (C7, C15, C20) when it was killed with buffers that were not written. C13, C14 and C16 to
  C19 are where the program departs from this: a writer thread that sleeps for good, a lost update,
  a lock that is kept, an eviction that waits for itself, a check
  without a lock, what the queue holds when \<open>SIGINT\<close> ends the process, however far the tiering thread
  has come by then. C21 is the flash cache without buffers as a dictionary, C22 and C23 the modes
  that use flash alone and the hash table, C25 to C27 eviction. C28 to C30 are about the writer
  thread of one file, C31 and C32 about the bytes of records, C33 to C38 and C40 about the recency
  cache, the configuration, the allocator, the parsers, the search for a port and the threshold, C39
  about the program as it is shipped. The theorems that a property needs in several theories are
  lemmas of these; properties that span components are in this theory, in \<open>Session\<close>, \<open>Server\<close>,
  \<open>Durable\<close>, \<open>Buffered\<close>, \<open>Tiered\<close>, \<open>TornLog\<close>, \<open>Killed\<close> and \<open>Crash\<close>.

  \<^bold>\<open>Conventions.\<close> Memory behind a pointer is the list of the bytes up to the end of the
  allocation; heap objects that are shared (entries, file objects) have addresses in association
  lists. \<open>env\<close> collects what is not under the program's control: the checksum of the \<open>boost\<close> library,
  the memory behind a heap buffer, the replies of \<open>write\<close> and \<open>pread\<close>; \<open>os_env\<close> the results of the
  system calls of the start. \<open>env_ok\<close> says that the replies finish a transfer without an error,
  \<open>reads_whole\<close> that a single \<open>pread\<close> of a regular file delivers what it is asked for, \<open>reads_on\<close>
  that the next one, at the end of the file, returns too. Loops of the
  code are recursive functions with a termination proof; where a loop may not end it has fuel, with
  \<open>Spins\<close> for the loop that does not end in it: \<open>fc_append_loop\<close> is given 2, enough since a new file
  takes any record, \<open>cf_Repair\<close> is given the length of the file and one, enough since a record that
  advances takes at least a byte. The recovery theorems show that both are enough. \<open>malloc\<close> and \<open>new\<close>
  do not fail.

  \<^bold>\<open>Not modelled.\<close> In \<open>FileWriter\<close> and \<open>DispatchRace\<close> the cache is within its limit, so that the
  call of \<open>FlashCache::Evict\<close> from the writer thread returns at once; \<open>Buffered\<close> follows it where it
  evicts. There a call of a client is one step, as are the eviction and the writing of one buffer by
  a thread; what a call does that does not return is stated as a fault of that call. A thread that is
  joined is inside its loop, between two buffers, or past it, or has ended (\<open>thread_state\<close>).
  \<open>ClearBuffers\<close>, which no lock keeps from a reader of the buffers, is one step.
  With write buffers one restart is followed, up to the first answer to a client (\<open>Crash\<close>); without
  them any number of lives (\<open>Durable\<close>). \<open>FlashCache::Close\<close> is modelled for threads that wait. A
  file that \<open>Evict\<close> deletes is closed twice, the second time by its destructor, on a descriptor that
  is already closed: that this could be the descriptor of another file by then is not modelled. Of
  \<open>Create\<close> the branch with \<open>sem_init\<close> is modelled, not the one for Apple's systems with its buffer for
  the name of the semaphore.
  Of the races on the recency cache between \<open>memUsedCheck\<close>, which takes no lock, and the
  other threads, the model has the orders of whole calls and, for several threads inside
  \<open>memUsedCheck\<close>, the orders of its test and its eviction, and not the interleavings inside a call
  of the container. A turn of the loop of the handler of \<open>SIGINT\<close> is one step, as is a round of the
  tiering thread beside it, and no client sends a command meanwhile. Reads past a heap buffer
  (\<open>Deserialize\<close>, the reply of a \<open>get\<close> from flash) find the bytes \<open>env_tail\<close>, which hold a zero byte,
  instead of ending the process; the eight bytes that \<open>Lookup\<close> writes into the four of \<open>val_size\<close> in
  \<open>getCommand\<close> change nothing else. The
  calls of \<open>chLog\<close> are left out of the operations, since they do not change the state. Members of
  records that no code reads are left out. \<open>client.bak\<close> is not part of the program.
\<close>

section \<open>The tiering thread and the dictionary\<close>

text \<open>
  C9: a round of the tiering thread. With an entry in the queue, the round succeeds while file
  numbers last: it takes the oldest entry, whose key is in memory but no longer in the recency
  list, makes sure that flash has the key, drops the entry from memory and keeps the invariant.
  The dictionary of the two levels stays as it is, unless flash had an older value of the key,
  which is then found instead.
\<close>

theorem tiering_round:
  assumes mode: "lru_mode sv" and inv: "store_inv e db" and q: "memQueue db = p # q"
    and room: "fc_room (flashCache db) (Suc n)"
  shows "\<exists>db' k v. bworker_flush sv e db = Inr db' \<and> store_inv e db' \<and> memQueue db' = q \<and>
    fc_room (flashCache db') n \<and> mem_look db k = Some v \<and> k \<notin> set (lru_order (memLRU db)) \<and>
    mem_look db' k = None \<and> fc_look (e, flashCache db') k \<noteq> None \<and>
    kv_look e db' = (case fc_look (e, flashCache db) k of
      None \<Rightarrow> kv_look e db | Some w \<Rightarrow> (kv_look e db)(k \<mapsto> w))"
proof -
  from bworker_flush_lru [OF assms] obtain db' k v where F:
    "bworker_flush sv e db = Inr db'" "store_inv e db'" "fc_room (flashCache db') n"
    "lru_limbo k (memLRU db)" "mem_look db k = Some v" "mem_look db' = (mem_look db)(k := None)"
    "memQueue db' = q" "fc_look (e, flashCache db') = (if fc_look (e, flashCache db) k = None
      then (fc_look (e, flashCache db))(k \<mapsto> v) else fc_look (e, flashCache db))" by blast
  note K = kv_look_flush [OF F(5,6,8)]
  have "mem_look db' k = None" "fc_look (e, flashCache db') k \<noteq> None" by (simp_all add: F(6,8))
  with F(1-5,7) K show ?thesis by (auto simp: lru_limbo_def)
qed

lemma sample_queued:
  "\<exists>c' db1 db2 p. setCommand sample_sv sample_env (arg_object ''a'') (arg_object ''one'') (sample_client, sample_db) =
      Inr (c', db1) \<and> evict_to_queue sample_sv db1 = Inr db2 \<and> memQueue db2 = [p] \<and>
    store_inv sample_env db2 \<and> kv_look sample_env db2 = [''a'' \<mapsto> ''one''] \<and> fc_room (flashCache db2) 100"
proof -
  obtain c' db where 1: "setCommand sample_sv sample_env (arg_object ''a'') (arg_object ''one'')
      (sample_client, sample_db) = Inr (c', db)" "store_inv sample_env db"
    "kv_look sample_env db = [''a'' \<mapsto> ''one'']" "flashCache db = sample_flash"
    "lru_order (memLRU db) = [''a'']" using sample_set by blast
  have ok: "mem_ok db" "queue_ok db" using 1(2) by (simp_all add: store_inv_def)
  have "memQueue db = []"
    using 1(1) by (auto simp: setCommand_def cacheAdd_def sample_modes(3) MODE_MEM_LRU_def
        MODE_ONLY_FLASH_def MODE_MEM_FIFO_def LRUCacheGet_def lru_get_def sample_db_def lru_new_def
        bnd_eq_Inr Let_def)
  with evict_to_queue_lru [OF sample_modes(3) ok] 1(5) obtain db2 p where 2:
    "evict_to_queue sample_sv db = Inr db2" "mem_ok db2" "queue_ok db2" "memQueue db2 = [p]"
    "flashCache db2 = flashCache db" "flash_live db2 = flash_live db" "mem_look db2 = mem_look db" by auto
  have "store_inv sample_env db2" using 1(2) 2 by (simp add: store_inv_def)
  moreover have "kv_look sample_env db2 = [''a'' \<mapsto> ''one'']"
    using kv_look_cong [OF 2(7,5)] 1(3) by simp
  moreover have "fc_room (flashCache db2) 100" using sample_inv(2) 1(4) 2(5) by (simp add: sample_db_def)
  ultimately show ?thesis using 1(1) 2(1,4) by blast
qed

theorem tiering_round_witness:
  "\<exists>c' db1 db2 db3. setCommand sample_sv sample_env (arg_object ''a'') (arg_object ''one'') (sample_client, sample_db) =
      Inr (c', db1) \<and> evict_to_queue sample_sv db1 = Inr db2 \<and>
    bworker_flush sample_sv sample_env db2 = Inr db3 \<and> memQueue db3 = [] \<and> store_inv sample_env db3"
proof -
  obtain c' db1 db2 p where 1: "setCommand sample_sv sample_env (arg_object ''a'') (arg_object ''one'')
      (sample_client, sample_db) = Inr (c', db1)" "evict_to_queue sample_sv db1 = Inr db2"
    "memQueue db2 = [p]" "store_inv sample_env db2" "fc_room (flashCache db2) 100"
    using sample_queued by blast
  have "fc_room (flashCache db2) (Suc 99)" using 1(5) by simp
  from tiering_round [OF sample_modes(1) 1(4,3) this] 1(1,2) show ?thesis by blast
qed

section \<open>Between eviction and flash\<close>

text \<open>
  A key on its way to flash is a trap. Evicting the least recently used key leaves its
  entry in the map of the recency cache with an iterator to a list node that is gone. Until the
  tiering thread has moved it, the key still counts as present, and any \<open>get\<close> or \<open>set\<close> of it
  follows the dangling iterator.
\<close>

lemma evicted_key_faults:
  assumes mode: "lru_mode sv" and inv: "store_inv e db"
    and last: "lru_order (memLRU db) = ks @ [k]" and key: "holds key k"
  shows "\<exists>db'. evict_to_queue sv db = Inr db' \<and> store_inv e db' \<and> kv_look e db' = kv_look e db \<and>
    kv_look e db' k \<noteq> None \<and> getCommand sv e key (c, db') = Inl DanglingIterator \<and>
    setCommand sv e key ob (c, db') = Inl DanglingIterator"
proof -
  have m: "cache_mode sv = MODE_MEM_LRU" using mode by (simp add: lru_mode_def)
  have ok: "mem_ok db" "queue_ok db" using inv by (simp_all add: store_inv_def)
  from evict_to_queue_lru [OF m ok] last obtain db' where E: "evict_to_queue sv db = Inr db'"
    "mem_ok db'" "queue_ok db'" "flashCache db' = flashCache db" "flash_live db' = flash_live db"
    "mem_look db' = mem_look db" "lru_limbo k (memLRU db')" by auto
  have "mem_look db' k \<noteq> None" using E(7) mem_look_None [OF E(2)] by (simp add: lru_limbo_def)
  then have "kv_look e db' k \<noteq> None" by (auto simp: kv_look_def)
  moreover have "store_inv e db'" using inv E by (simp add: store_inv_def)
  ultimately show ?thesis
    using E(1) kv_look_cong [OF E(6,4)] limbo_dangling [OF lru_modeD [OF mode] E(2) key E(7)] by blast
qed

section \<open>The \<open>MEM-FIFO\<close> mode\<close>

lemma fifo_list_null:
  assumes "fifo_mode sv"
  shows "set (memList db1) \<subseteq> {None} \<Longrightarrow> put_all (cacheAdd sv) kvs db1 = Inr db2 \<Longrightarrow>
    set (memList db2) \<subseteq> {None}"
proof (induction kvs arbitrary: db1)
  case (Cons kv kvs)
  obtain k v where kv: "kv = (k, v)" by fastforce
  with Cons.prems(2) obtain db where db: "cacheAdd sv k v db1 = Inr db" "put_all (cacheAdd sv) kvs db = Inr db2"
    by (auto simp: bnd_eq_Inr)
  from fifo_pushes_null [OF assms Cons.prems(1) db(1)] db(2) show ?case by (rule Cons.IH)
qed simp

text \<open>
  The first eviction in the mode \<open>MEM-FIFO\<close> ends the server. Whatever has been added
  through \<open>cacheAdd\<close> since the list was empty, the list contains null pointers only, because
  the variable that is pushed is the result of the failed search, and taking one from the list
  dereferences it.
\<close>

lemma fifo_eviction_faults:
  assumes "fifo_mode sv" "memList db = []" "put_all (cacheAdd sv) kvs db = Inr db'" "memList db' \<noteq> []"
  shows "evict_to_queue sv db' = Inl NullDeref"
  using fifo_list_null [OF assms(1) _ assms(3)] assms(1,2,4) by (intro fifo_evict_null) simp_all

end
